(* ===== verification/Prelude.thy ===== *)
theory Prelude
  imports Main "HOL-Library.Word"
begin

text \<open>
  Shared vocabulary of the development: the machine types of the C code, the X protocol
  status codes, bounds-checked array access, and the facts on lists and words that more
  than one component uses. A C array is a \<open>'a list\<close> of its allocated cells; reading or
  writing outside it is the value \<open>None\<close>, so that an out-of-bounds access is never hidden
  by the totality of HOL. The collection \<open>arr_simps\<close> evaluates such accesses, \<open>keyed_simps\<close>
  the searches by key that the linked lists of the server perform.
\<close>

unbundle bit_operations_syntax

named_theorems arr_simps
named_theorems keyed_simps

type_synonym byte = "8 word"
type_synonym u16 = "16 word"
type_synonym u32 = "32 word"
type_synonym u64 = "64 word"

text \<open>Status codes of X request handlers (X11/X.h); the server returns them as \<open>int\<close>.\<close>

datatype xstatus =
    Success | BadRequest | BadValue | BadWindow | BadPixmap | BadAtom | BadMatch
  | BadDrawable | BadAccess | BadAlloc | BadLength | BadCursor | BadFont | BadColor | BadGC
  | BadImplementation | ExtensionError nat

section \<open>Arrays\<close>

definition rd :: "'a list \<Rightarrow> nat \<Rightarrow> 'a option" where
  "rd a i = (if i < length a then Some (a ! i) else None)"

definition wr :: "'a list \<Rightarrow> nat \<Rightarrow> 'a \<Rightarrow> 'a list option" where
  "wr a i v = (if i < length a then Some (a[i := v]) else None)"

lemma rd_in [arr_simps]: "i < length a \<Longrightarrow> rd a i = Some (a ! i)"
  by (simp add: rd_def)

lemma rd_out [arr_simps]: "length a \<le> i \<Longrightarrow> rd a i = None"
  by (simp add: rd_def)

lemma rd_Cons_0 [simp]: "rd (x # xs) 0 = Some x"
  by (simp add: rd_def)

lemma rd_Cons_Suc [simp]: "rd (x # xs) (Suc i) = rd xs i"
  by (simp add: rd_def)

lemma rd_Nil [simp]: "rd [] i = None"
  by (simp add: rd_def)

lemma rd_append_ge [simp]: "rd (xs @ ys) (length xs + i) = rd ys i"
  by (simp add: rd_def nth_append)

lemma rd_append_at [simp]: "rd (xs @ ys) (length xs) = rd ys 0"
  using rd_append_ge [of xs ys 0] by simp

lemma rd_drop: "rd (drop n xs) i = rd xs (n + i)"
  by (auto simp: rd_def)

lemma rd_Some_iff: "rd a i = Some v \<longleftrightarrow> i < length a \<and> a ! i = v"
  by (auto simp: rd_def)

lemma wr_in [arr_simps]: "i < length a \<Longrightarrow> wr a i v = Some (a[i := v])"
  by (simp add: wr_def)

lemma wr_out [arr_simps]: "length a \<le> i \<Longrightarrow> wr a i v = None"
  by (simp add: wr_def)

lemma wr_append [simp]: "wr (xs @ y # ys) (length xs) v = Some (xs @ v # ys)"
  by (simp add: wr_def)

section \<open>C strings\<close>

text \<open>\<open>cstr a\<close> is the string stored in the array \<open>a\<close>: what precedes its first NUL.\<close>

definition cstr :: "byte list \<Rightarrow> byte list" where
  "cstr a = takeWhile (\<lambda>b. b \<noteq> 0) a"

definition nul_free :: "byte list \<Rightarrow> bool" where
  "nul_free s = (0 \<notin> set s)"

lemma cstr_append_nul [simp]: "nul_free s \<Longrightarrow> cstr (s @ 0 # r) = s"
  by (induction s) (auto simp: cstr_def nul_free_def)

lemma cstr_nul_free [simp]: "nul_free (cstr a)"
  by (auto simp: cstr_def nul_free_def dest: set_takeWhileD)

lemma nul_free_simps [simp]:
  "nul_free []"
  "nul_free (b # s) \<longleftrightarrow> b \<noteq> 0 \<and> nul_free s"
  "nul_free (s @ t) \<longleftrightarrow> nul_free s \<and> nul_free t"
  by (auto simp: nul_free_def)

lemma cstr_id: "nul_free s \<Longrightarrow> cstr s = s"
  by (induction s) (simp_all add: cstr_def nul_free_def)

text \<open>A string literal of the C source as the array of its bytes (without the terminator).\<close>

definition bytes :: "string \<Rightarrow> byte list" where
  "bytes s = map (\<lambda>c. word_of_nat (of_char c)) s"

lemma unat_char: "unat (word_of_nat (of_char c) :: byte) = of_char c"
proof -
  have "(of_char c :: nat) < 256" by (metis mod_less_divisor of_char_mod_256 zero_less_numeral)
  then show ?thesis by (simp add: unat_of_nat)
qed

lemma bytes_eq_iff [simp]: "bytes s = bytes t \<longleftrightarrow> s = t"
proof -
  have "c = d" if "(word_of_nat (of_char c) :: byte) = word_of_nat (of_char d)" for c d
    using arg_cong [where f = unat, OF that] unfolding unat_char by simp
  then have "inj (\<lambda>c. word_of_nat (of_char c) :: byte)" by (rule injI)
  then show ?thesis by (simp add: bytes_def inj_map_eq_map)
qed

lemma char_byte_0: "(word_of_nat (of_char c) :: byte) = 0 \<longleftrightarrow> c = CHR 0x00"
proof
  assume "(word_of_nat (of_char c) :: byte) = 0"
  from arg_cong [where f = unat, OF this] have "(of_char c :: nat) = of_char (CHR 0x00)"
    unfolding unat_char by simp
  then show "c = CHR 0x00" by (rule of_char_eqI)
qed simp

lemma nul_free_bytes: "nul_free (bytes s) \<longleftrightarrow> CHR 0x00 \<notin> set s"
  unfolding nul_free_def bytes_def set_map image_iff by (metis char_byte_0)

section \<open>Lists searched by a key\<close>

text \<open>
  The server keeps properties, selections, buffers and shared memory segments in linked
  lists that are searched from the head for the first record with a given key.
\<close>

fun find_key :: "('e \<Rightarrow> 'k) \<Rightarrow> 'k \<Rightarrow> 'e list \<Rightarrow> 'e option" where
  "find_key key k [] = None"
| "find_key key k (e # es) = (if key e = k then Some e else find_key key k es)"

text \<open>The record with the given key is rewritten in place, or unlinked.\<close>

fun upd_key :: "('e \<Rightarrow> 'k) \<Rightarrow> 'k \<Rightarrow> ('e \<Rightarrow> 'e) \<Rightarrow> 'e list \<Rightarrow> 'e list" where
  "upd_key key k f [] = []"
| "upd_key key k f (e # es) = (if key e = k then f e # es else e # upd_key key k f es)"

fun del_key :: "('e \<Rightarrow> 'k) \<Rightarrow> 'k \<Rightarrow> 'e list \<Rightarrow> 'e list" where
  "del_key key k [] = []"
| "del_key key k (e # es) = (if key e = k then es else e # del_key key k es)"

text \<open>
  A store of records: the key of a record never changes, its contents are rewritten by \<open>touch\<close>.
\<close>

locale keyed =
  fixes key :: "'e \<Rightarrow> 'k"
    and touch :: "'u \<Rightarrow> 'e \<Rightarrow> 'e"
  assumes key_touch: "key (touch u e) = key e"
begin

definition uniq :: "'e list \<Rightarrow> bool" where
  "uniq es = distinct (map key es)"

lemma find_none_iff: "find_key key k es = None \<longleftrightarrow> k \<notin> key ` set es"
  by (induction es) auto

lemma find_some_key: "find_key key k es = Some e \<Longrightarrow> key e = k \<and> e \<in> set es"
  by (induction es) (auto split: if_splits)

lemma uniq_Nil [simp]: "uniq []"
  by (simp add: uniq_def)

lemma uniq_Cons: "uniq (e # es) \<longleftrightarrow> find_key key (key e) es = None \<and> uniq es"
  by (auto simp: uniq_def find_none_iff)

lemma find_touch:
  "find_key key k' (upd_key key k (touch u) es) =
     (if k' = k then map_option (touch u) (find_key key k es) else find_key key k' es)"
  by (induction es) (auto simp: key_touch)

lemma keys_touch: "map key (upd_key key k (touch u) es) = map key es"
  by (induction es) (auto simp: key_touch)

lemma uniq_touch: "uniq (upd_key key k (touch u) es) \<longleftrightarrow> uniq es"
  by (simp add: uniq_def keys_touch)

lemma set_del: "set (del_key key k es) \<subseteq> set es"
  by (induction es) auto

lemma uniq_del: "uniq es \<Longrightarrow> uniq (del_key key k es)"
  using set_del by (induction es) (fastforce simp: uniq_def)+

lemma find_del:
  "uniq es \<Longrightarrow> find_key key k' (del_key key k es) = (if k' = k then None else find_key key k' es)"
  by (induction es) (auto simp: uniq_def find_none_iff)

end

end
