(* ===== verification/Atoms.thy ===== *)
theory Atoms
  imports Prelude "HOL-Library.List_Lexorder" "HOL-Library.Product_Lexorder"
begin

text \<open>
  The atom table of \<open>xserver/dix/atom.c\<close>: names are interned in a binary search tree ordered
  by a 32-bit fingerprint and then by the name, and a growing array maps an atom back to its
  node. The C nodes are owned by the tree alone, so the tree is a datatype; the array holds
  for each atom the string of its node. An allocation of a call succeeds or fails as the
  parameter \<open>ok\<close> says (index 0 the node, 1 the copy of the name, 2 the larger table). Characters
  are unsigned, as they are on the ARM targets of the program.
\<close>

type_synonym atom = u32

definition BAD_RESOURCE :: atom where
  "BAD_RESOURCE = 0xe0000000"

definition XA_LAST_PREDEFINED :: atom where
  "XA_LAST_PREDEFINED = 68"

definition InitialTableSize :: nat where
  "InitialTableSize = 256"

datatype anode = ANull | ANode anode anode atom u32 "byte list"

record atomtab =
  lastAtom :: atom
  atomRoot :: anode
  tableLength :: nat
  nodeTable :: "byte list option list"

text \<open>The fingerprint folds the name from both ends towards the middle.\<close>

fun fp_loop :: "byte list \<Rightarrow> nat \<Rightarrow> nat \<Rightarrow> u32 \<Rightarrow> u32" where
  "fp_loop s i 0 fp = fp"
| "fp_loop s i (Suc n) fp =
     fp_loop s (Suc i) n ((fp * 27 + ucast (s ! i)) * 27 + ucast (s ! (length s - 1 - i)))"

definition fingerprint :: "byte list \<Rightarrow> u32" where
  "fingerprint s = fp_loop s 0 ((length s + 1) div 2) 0"

text \<open>\<open>strncmp\<close> of the C library on strings whose end is the end of the list.\<close>

fun strncmp :: "nat \<Rightarrow> byte list \<Rightarrow> byte list \<Rightarrow> int" where
  "strncmp 0 s t = 0"
| "strncmp (Suc n) s t =
     (let a = (case s of [] \<Rightarrow> 0 | x # _ \<Rightarrow> x); b = (case t of [] \<Rightarrow> 0 | y # _ \<Rightarrow> y)
      in if a < b then -1 else if b < a then 1 else if a = 0 then 0
         else strncmp n (tl s) (tl t))"

datatype turn = GoLeft | GoRight | Here

definition atom_turn :: "u32 \<Rightarrow> byte list \<Rightarrow> u32 \<Rightarrow> byte list \<Rightarrow> turn" where
  "atom_turn fp s nfp nstr =
     (if fp < nfp then GoLeft
      else if fp > nfp then GoRight
      else let comp = strncmp (length s) s nstr
           in if comp < 0 \<or> (comp = 0 \<and> length s < length nstr) then GoLeft
              else if comp > 0 then GoRight
              else Here)"

fun atom_find :: "u32 \<Rightarrow> byte list \<Rightarrow> anode \<Rightarrow> atom option" where
  "atom_find fp s ANull = None"
| "atom_find fp s (ANode l r a nfp nstr) =
     (case atom_turn fp s nfp nstr of
        GoLeft \<Rightarrow> atom_find fp s l | GoRight \<Rightarrow> atom_find fp s r | Here \<Rightarrow> Some a)"

text \<open>The pointer \<open>np\<close> where the search ended is assigned the new node.\<close>

fun atom_link :: "u32 \<Rightarrow> byte list \<Rightarrow> anode \<Rightarrow> anode \<Rightarrow> anode" where
  "atom_link fp s nd ANull = nd"
| "atom_link fp s nd (ANode l r a nfp nstr) =
     (case atom_turn fp s nfp nstr of
        GoLeft \<Rightarrow> ANode (atom_link fp s nd l) r a nfp nstr
      | GoRight \<Rightarrow> ANode l (atom_link fp s nd r) a nfp nstr
      | Here \<Rightarrow> ANode l r a nfp nstr)"

definition grow_table :: "atomtab \<Rightarrow> atomtab" where
  "grow_table st =
     (if tableLength st \<le> unat (lastAtom st + 1)
      then st\<lparr>tableLength := 2 * tableLength st,
              nodeTable := nodeTable st @ replicate (tableLength st) None\<rparr>
      else st)"

definition MakeAtom :: "(nat \<Rightarrow> bool) \<Rightarrow> byte list \<Rightarrow> bool \<Rightarrow> atomtab \<Rightarrow> atom \<times> atomtab" where
  "MakeAtom ok s makeit st =
     (let fp = fingerprint s
      in case atom_find fp s (atomRoot st) of
           Some a \<Rightarrow> (a, st)
         | None \<Rightarrow>
             if makeit then
               if \<not> ok 0 then (BAD_RESOURCE, st)
               else if \<not> lastAtom st < XA_LAST_PREDEFINED \<and> \<not> ok 1 then (BAD_RESOURCE, st)
               else if tableLength st \<le> unat (lastAtom st + 1) \<and> \<not> ok 2 then (BAD_RESOURCE, st)
               else let st1 = grow_table st;
                        a = lastAtom st1 + 1;
                        nd = ANode ANull ANull a fp (cstr s)
                    in (a, st1\<lparr>atomRoot := atom_link fp s nd (atomRoot st1),
                               lastAtom := a,
                               nodeTable := (nodeTable st1)[unat a := Some (cstr s)]\<rparr>)
             else (0, st))"

definition ValidAtom :: "atom \<Rightarrow> atomtab \<Rightarrow> bool" where
  "ValidAtom a st \<longleftrightarrow> a \<noteq> 0 \<and> a \<le> lastAtom st"

definition NameForAtom :: "atom \<Rightarrow> atomtab \<Rightarrow> byte list option" where
  "NameForAtom a st =
     (if a > lastAtom st then None
      else case rd (nodeTable st) (unat a) of Some (Some s) \<Rightarrow> Some s | _ \<Rightarrow> None)"

definition FreeAllAtoms :: "atomtab \<Rightarrow> atomtab" where
  "FreeAllAtoms st =
     (if atomRoot st = ANull then st
      else st\<lparr>atomRoot := ANull, nodeTable := [], lastAtom := 0\<rparr>)"

definition predeclared :: "string list" where
  "predeclared = [
    ''PRIMARY'', ''SECONDARY'', ''ARC'', ''ATOM'', ''BITMAP'', ''CARDINAL'', ''COLORMAP'',
    ''CURSOR'', ''CUT_BUFFER0'', ''CUT_BUFFER1'', ''CUT_BUFFER2'', ''CUT_BUFFER3'',
    ''CUT_BUFFER4'', ''CUT_BUFFER5'', ''CUT_BUFFER6'', ''CUT_BUFFER7'', ''DRAWABLE'', ''FONT'',
    ''INTEGER'', ''PIXMAP'', ''POINT'', ''RECTANGLE'', ''RESOURCE_MANAGER'', ''RGB_COLOR_MAP'',
    ''RGB_BEST_MAP'', ''RGB_BLUE_MAP'', ''RGB_DEFAULT_MAP'', ''RGB_GRAY_MAP'',
    ''RGB_GREEN_MAP'', ''RGB_RED_MAP'', ''STRING'', ''VISUALID'', ''WINDOW'', ''WM_COMMAND'',
    ''WM_HINTS'', ''WM_CLIENT_MACHINE'', ''WM_ICON_NAME'', ''WM_ICON_SIZE'', ''WM_NAME'',
    ''WM_NORMAL_HINTS'', ''WM_SIZE_HINTS'', ''WM_ZOOM_HINTS'', ''MIN_SPACE'', ''NORM_SPACE'',
    ''MAX_SPACE'', ''END_SPACE'', ''SUPERSCRIPT_X'', ''SUPERSCRIPT_Y'', ''SUBSCRIPT_X'',
    ''SUBSCRIPT_Y'', ''UNDERLINE_POSITION'', ''UNDERLINE_THICKNESS'', ''STRIKEOUT_ASCENT'',
    ''STRIKEOUT_DESCENT'', ''ITALIC_ANGLE'', ''X_HEIGHT'', ''QUAD_WIDTH'', ''WEIGHT'',
    ''POINT_SIZE'', ''RESOLUTION'', ''COPYRIGHT'', ''NOTICE'', ''FONT_NAME'', ''FAMILY_NAME'',
    ''FULL_NAME'', ''CAP_HEIGHT'', ''WM_CLASS'', ''WM_TRANSIENT_FOR'']"

text \<open>A name that does not get the number the protocol gives it is a fatal error (\<open>None\<close>).\<close>

fun MakePredeclaredAtoms ::
    "(atom \<Rightarrow> nat \<Rightarrow> bool) \<Rightarrow> string list \<Rightarrow> atom \<Rightarrow> atomtab \<Rightarrow> atomtab option" where
  "MakePredeclaredAtoms ok [] xa st = Some st"
| "MakePredeclaredAtoms ok (n # ns) xa st =
     (case MakeAtom (ok xa) (bytes n) True st of
        (a, st') \<Rightarrow> if a \<noteq> xa then None else MakePredeclaredAtoms ok ns (xa + 1) st')"

definition InitAtoms :: "bool \<Rightarrow> (atom \<Rightarrow> nat \<Rightarrow> bool) \<Rightarrow> atomtab \<Rightarrow> atomtab option" where
  "InitAtoms ok0 ok st =
     (let st1 = (FreeAllAtoms st)\<lparr>tableLength := InitialTableSize\<rparr>
      in if \<not> ok0 then None
         else case MakePredeclaredAtoms ok predeclared 1
                     (st1\<lparr>nodeTable := replicate InitialTableSize None\<rparr>) of
                None \<Rightarrow> None
              | Some st2 \<Rightarrow> if lastAtom st2 \<noteq> XA_LAST_PREDEFINED then None else Some st2)"

subsection \<open>The search order\<close>

text \<open>
  The three-way test of the search compares the pair of fingerprint and C string
  lexicographically, so the tree is a search tree for that order.
\<close>

type_synonym akey = "u32 \<times> byte list"

definition akey :: "byte list \<Rightarrow> akey" where
  "akey s = (fingerprint s, cstr s)"

lemma strncmp_order:
  "nul_free t \<Longrightarrow>
     (strncmp (length s) s t < 0 \<or> strncmp (length s) s t = 0 \<and> length s < length t
        \<longleftrightarrow> cstr s < t) \<and>
     (strncmp (length s) s t > 0 \<longleftrightarrow> t < cstr s)"
proof (induction s arbitrary: t)
  case Nil
  then show ?case by (cases t) (auto simp: cstr_def)
next
  case (Cons x s)
  show ?case
  proof (cases t)
    case Nil
    then show ?thesis by (simp add: cstr_def Let_def word_gt_0)
  next
    case (Cons y t')
    with \<open>nul_free t\<close> have "nul_free t'" "y \<noteq> 0" by (auto simp: nul_free_def)
    then show ?thesis
      using Cons.IH [of t'] Cons
      by (cases x y rule: linorder_cases) (auto simp add: cstr_def Let_def)
  qed
qed

lemma atom_turn_order:
  assumes "nul_free t"
  shows "atom_turn fp s nfp t =
    (if (fp, cstr s) < (nfp, t) then GoLeft else if (nfp, t) < (fp, cstr s) then GoRight else Here)"
  using strncmp_order [OF assms, of s]
  by (auto simp: atom_turn_def Let_def less_prod_def' not_less)

fun entries :: "anode \<Rightarrow> (akey \<times> atom) set" where
  "entries ANull = {}"
| "entries (ANode l r a f n) = insert ((f, n), a) (entries l \<union> entries r)"

fun abst :: "anode \<Rightarrow> bool" where
  "abst ANull \<longleftrightarrow> True"
| "abst (ANode l r a f n) \<longleftrightarrow>
     abst l \<and> abst r \<and> nul_free n \<and>
     (\<forall>(k, b) \<in> entries l. k < (f, n)) \<and> (\<forall>(k, b) \<in> entries r. (f, n) < k)"

lemma atom_find_iff:
  "abst t \<Longrightarrow> atom_find fp s t = Some a \<longleftrightarrow> ((fp, cstr s), a) \<in> entries t"
proof (induction t)
  case (ANode l r b f n)
  then show ?case
    by (auto simp: atom_turn_order split: if_splits dest: less_asym less_trans)
qed simp

lemma entries_link:
  "abst t \<Longrightarrow> atom_find fp s t = None \<Longrightarrow>
     entries (atom_link fp s nd t) = entries t \<union> entries nd"
  by (induction t) (auto simp: atom_turn_order split: if_splits)

lemma abst_link:
  "abst t \<Longrightarrow> atom_find fp s t = None \<Longrightarrow>
     abst (atom_link fp s (ANode ANull ANull a fp (cstr s)) t)"
  by (induction t) (auto simp: atom_turn_order entries_link split: if_splits)

subsection \<open>The table invariant\<close>

definition atoms_inv :: "atomtab \<Rightarrow> bool" where
  "atoms_inv st \<longleftrightarrow>
     abst (atomRoot st) \<and>
     (\<forall>((f, n), a) \<in> entries (atomRoot st).
        a \<noteq> 0 \<and> a \<le> lastAtom st \<and> nodeTable st ! unat a = Some n) \<and>
     (\<forall>a. a \<noteq> 0 \<longrightarrow> a \<le> lastAtom st \<longrightarrow> (\<exists>k. (k, a) \<in> entries (atomRoot st))) \<and>
     (\<forall>(k, a) \<in> entries (atomRoot st). \<forall>(k', b) \<in> entries (atomRoot st). a = b \<longrightarrow> k = k') \<and>
     unat (lastAtom st) < tableLength st \<and> length (nodeTable st) = tableLength st \<and>
     nodeTable st ! 0 = None"

text \<open>Whether the 32-bit atom counter can still be incremented.\<close>

definition atom_room :: "atomtab \<Rightarrow> bool" where
  "atom_room st \<longleftrightarrow> unat (lastAtom st) + 1 < 2 ^ 32"

definition lookup_atom :: "byte list \<Rightarrow> atomtab \<Rightarrow> atom option" where
  "lookup_atom s st = atom_find (fingerprint s) s (atomRoot st)"

definition add_atom :: "byte list \<Rightarrow> atomtab \<Rightarrow> atomtab" where
  "add_atom s st =
     (let st1 = grow_table st; a = lastAtom st + 1
      in st1\<lparr>atomRoot := atom_link (fingerprint s) s
                           (ANode ANull ANull a (fingerprint s) (cstr s)) (atomRoot st),
             lastAtom := a, nodeTable := (nodeTable st1)[unat a := Some (cstr s)]\<rparr>)"

lemma grow_table_sel [simp]:
  "lastAtom (grow_table st) = lastAtom st" "atomRoot (grow_table st) = atomRoot st"
  by (simp_all add: grow_table_def)

lemma add_atom_sel [simp]:
  "lastAtom (add_atom s st) = lastAtom st + 1"
  "atomRoot (add_atom s st) = atom_link (fingerprint s) s
     (ANode ANull ANull (lastAtom st + 1) (fingerprint s) (cstr s)) (atomRoot st)"
  by (simp_all add: add_atom_def Let_def)

text \<open>Whether every allocation that creating an atom needs in this state succeeds.\<close>

definition alloc_ok :: "(nat \<Rightarrow> bool) \<Rightarrow> atomtab \<Rightarrow> bool" where
  "alloc_ok ok st \<longleftrightarrow> ok 0 \<and> (lastAtom st < XA_LAST_PREDEFINED \<or> ok 1) \<and>
     (unat (lastAtom st + 1) < tableLength st \<or> ok 2)"

lemma alloc_ok_all [simp]: "alloc_ok (\<lambda>_. True) st"
  by (simp add: alloc_ok_def)

lemma MakeAtom_eq:
  "MakeAtom ok s makeit st =
     (case lookup_atom s st of
        Some a \<Rightarrow> (a, st)
      | None \<Rightarrow> if \<not> makeit then (0, st)
                else if alloc_ok ok st
                then (lastAtom st + 1, add_atom s st)
                else (BAD_RESOURCE, st))"
  by (auto simp: MakeAtom_def lookup_atom_def add_atom_def alloc_ok_def Let_def not_less
      split: option.split)

lemma lookup_atom_iff:
  "atoms_inv st \<Longrightarrow> lookup_atom s st = Some a \<longleftrightarrow> (akey s, a) \<in> entries (atomRoot st)"
  by (simp add: lookup_atom_def akey_def atom_find_iff atoms_inv_def)

lemma entries_add_atom:
  "atoms_inv st \<Longrightarrow> lookup_atom s st = None \<Longrightarrow>
     entries (atomRoot (add_atom s st)) =
       insert (akey s, lastAtom st + 1) (entries (atomRoot st))"
  by (simp add: lookup_atom_def atoms_inv_def entries_link akey_def)

lemma room_Suc: "atom_room st \<Longrightarrow> unat (lastAtom st + 1) = unat (lastAtom st) + 1"
  by (simp add: atom_room_def unat_word_ariths)

lemma room_le:
  "atom_room st \<Longrightarrow> a \<le> lastAtom st + 1 \<longleftrightarrow> a = lastAtom st + 1 \<or> a \<le> lastAtom st"
  using room_Suc [of st] by (auto simp: word_le_nat_alt word_unat_eq_iff)

lemma grow_table_length:
  "atoms_inv st \<Longrightarrow> atom_room st \<Longrightarrow>
     unat (lastAtom st + 1) < tableLength (grow_table st) \<and>
     length (nodeTable (grow_table st)) = tableLength (grow_table st) \<and>
     (\<forall>i < tableLength st. nodeTable (grow_table st) ! i = nodeTable st ! i)"
  by (auto simp: atoms_inv_def grow_table_def room_Suc nth_append)

lemma add_atom_table:
  assumes "atoms_inv st" "atom_room st"
  shows "length (nodeTable (add_atom s st)) = tableLength (add_atom s st)"
    and "unat (lastAtom st) + 1 < tableLength (add_atom s st)"
    and "nodeTable (add_atom s st) ! unat (lastAtom st + 1) = Some (cstr s)"
    and "a \<le> lastAtom st \<Longrightarrow> nodeTable (add_atom s st) ! unat a = nodeTable st ! unat a"
  using grow_table_length [OF assms] assms
  by (auto simp: add_atom_def Let_def room_Suc atoms_inv_def word_le_nat_alt)

lemma atoms_inv_add:
  assumes inv: "atoms_inv st" and room: "atom_room st" and new: "lookup_atom s st = None"
  shows "atoms_inv (add_atom s st)"
proof -
  let ?E = "entries (atomRoot st)" and ?a = "lastAtom st + 1"
  have E: "entries (atomRoot (add_atom s st)) = insert (akey s, ?a) ?E"
    by (rule entries_add_atom [OF inv new])
  have bst: "abst (atomRoot (add_atom s st))"
    using inv new by (simp add: atoms_inv_def lookup_atom_def abst_link)
  have fresh: "a \<noteq> ?a \<and> a \<le> lastAtom st" if "(k, a) \<in> ?E" for k a
  proof -
    from that inv have "a \<le> lastAtom st" by (auto simp: atoms_inv_def)
    then show ?thesis using room_Suc [OF room] by (auto simp: word_le_nat_alt)
  qed
  have nz: "?a \<noteq> 0" using room_Suc [OF room] by (metis Suc_eq_plus1 nat.distinct(1) unat_0)
  note tab = add_atom_table [OF inv room, where s = s]
  have "\<forall>((f, n), a) \<in> insert (akey s, ?a) ?E.
      a \<noteq> 0 \<and> a \<le> ?a \<and> nodeTable (add_atom s st) ! unat a = Some n"
    using inv tab(3,4) fresh nz
    by (auto simp: akey_def room_le [OF room] atoms_inv_def)
  moreover have "\<forall>a. a \<noteq> 0 \<longrightarrow> a \<le> ?a \<longrightarrow> (\<exists>k. (k, a) \<in> insert (akey s, ?a) ?E)"
    using inv unfolding room_le [OF room] atoms_inv_def by blast
  moreover have "\<forall>(k, a) \<in> insert (akey s, ?a) ?E. \<forall>(k', b) \<in> insert (akey s, ?a) ?E.
      a = b \<longrightarrow> k = k'"
    using inv fresh unfolding atoms_inv_def by blast
  moreover have "nodeTable (add_atom s st) ! 0 = None"
    using tab(4) [where a = 0] inv by (simp add: atoms_inv_def)
  ultimately show ?thesis
    using bst tab(1,2) E room_Suc [OF room] unfolding atoms_inv_def by (simp del: add_atom_sel(2))
qed

lemma MakeAtom_cases:
  assumes "MakeAtom ok s makeit st = (a, st')"
  obtains (found) "lookup_atom s st = Some a" "st' = st"
  | (none) "lookup_atom s st = None" "\<not> makeit" "a = 0" "st' = st"
  | (failed) "lookup_atom s st = None" "makeit" "\<not> alloc_ok ok st" "a = BAD_RESOURCE" "st' = st"
  | (new) "lookup_atom s st = None" "makeit" "a = lastAtom st + 1" "st' = add_atom s st"
proof (cases "lookup_atom s st")
  case None
  consider "\<not> makeit" | "makeit" "alloc_ok ok st" | "makeit" "\<not> alloc_ok ok st" by blast
  then show thesis
  proof cases
    case 1
    show thesis by (rule none) (use 1 None assms in \<open>simp_all add: MakeAtom_eq\<close>)
  next
    case 2
    show thesis by (rule new) (use 2 None assms in \<open>simp_all add: MakeAtom_eq\<close>)
  next
    case 3
    show thesis by (rule failed) (use 3 None assms in \<open>simp_all add: MakeAtom_eq\<close>)
  qed
next
  case (Some b)
  show thesis by (rule found) (use Some assms in \<open>simp_all add: MakeAtom_eq\<close>)
qed

lemma lookup_add_atom:
  assumes "atoms_inv st" "atom_room st" "lookup_atom s st = None"
  shows "lookup_atom t (add_atom s st) =
    (if akey t = akey s then Some (lastAtom st + 1) else lookup_atom t st)"
proof -
  have inv': "atoms_inv (add_atom s st)" by (rule atoms_inv_add [OF assms])
  have "lookup_atom t (add_atom s st) = Some b \<longleftrightarrow>
      (if akey t = akey s then Some (lastAtom st + 1) else lookup_atom t st) = Some b" for b
    using lookup_atom_iff [OF inv', of t b] lookup_atom_iff [OF assms(1), of t b]
      lookup_atom_iff [OF assms(1), of s b] assms(3)
    by (auto simp: entries_add_atom [OF assms(1,3)] simp del: add_atom_sel(2))
  then show ?thesis by (metis not_None_eq)
qed

lemma lookup_atom_named:
  "atoms_inv st \<Longrightarrow> lookup_atom s st = Some a \<Longrightarrow>
     ValidAtom a st \<and> NameForAtom a st = Some (cstr s)"
  by (auto simp: lookup_atom_iff atoms_inv_def akey_def ValidAtom_def NameForAtom_def
      rd_def word_le_nat_alt word_less_nat_alt)

lemma lookup_atom_inj:
  assumes inv: "atoms_inv st" and s: "lookup_atom s st = Some a" and t: "lookup_atom t st = Some a"
  shows "akey s = akey t"
proof -
  have "(akey s, a) \<in> entries (atomRoot st)" "(akey t, a) \<in> entries (atomRoot st)"
    using inv s t by (simp_all add: lookup_atom_iff)
  then show ?thesis using inv unfolding atoms_inv_def by blast
qed

lemma akey_nul_free: "nul_free s \<Longrightarrow> nul_free t \<Longrightarrow> akey s = akey t \<longleftrightarrow> s = t"
  by (auto simp: akey_def cstr_id)

lemma NameForAtom_add_atom:
  "atoms_inv st \<Longrightarrow> atom_room st \<Longrightarrow> a \<le> lastAtom st \<Longrightarrow>
     NameForAtom a (add_atom s st) = NameForAtom a st"
  using add_atom_table(1,2) [of st s] add_atom_table(4) [of st a s]
  by (auto simp: NameForAtom_def rd_def atoms_inv_def room_le word_le_nat_alt word_less_nat_alt
      room_Suc not_less)

subsection \<open>Interning as a service\<close>

text \<open>
  What the other components rely on: a table that hands out one value per name and never
  changes its mind. \<open>room\<close> counts how many more names fit.
\<close>

locale interning =
  fixes inv :: "'s \<Rightarrow> bool"
    and room :: "'s \<Rightarrow> nat"
    and lookup :: "'n \<Rightarrow> 's \<Rightarrow> 'a option"
    and intern :: "'n \<Rightarrow> 's \<Rightarrow> 'a \<times> 's"
  assumes intern_inv: "inv s \<Longrightarrow> 0 < room s \<Longrightarrow> intern n s = (a, s') \<Longrightarrow> inv s'"
    and intern_room: "inv s \<Longrightarrow> 0 < room s \<Longrightarrow> intern n s = (a, s') \<Longrightarrow> room s \<le> room s' + 1"
    and intern_new: "inv s \<Longrightarrow> 0 < room s \<Longrightarrow> intern n s = (a, s') \<Longrightarrow> lookup n s' = Some a"
    and intern_old: "inv s \<Longrightarrow> 0 < room s \<Longrightarrow> intern n s = (a, s') \<Longrightarrow>
                       lookup m s = Some b \<Longrightarrow> lookup m s' = Some b"

fun intern_all :: "('n \<Rightarrow> 's \<Rightarrow> 'a \<times> 's) \<Rightarrow> 'n list \<Rightarrow> 's \<Rightarrow> 'a list \<times> 's" where
  "intern_all f [] s = ([], s)"
| "intern_all f (n # ns) s =
     (case f n s of (a, s1) \<Rightarrow> case intern_all f ns s1 of (as, s2) \<Rightarrow> (a # as, s2))"

context interning
begin

lemma intern_all_spec:
  "inv s \<Longrightarrow> length ns \<le> room s \<Longrightarrow> intern_all intern ns s = (as, s') \<Longrightarrow>
     inv s' \<and> map (\<lambda>n. lookup n s') ns = map Some as \<and>
     (\<forall>m b. lookup m s = Some b \<longrightarrow> lookup m s' = Some b)"
proof (induction ns arbitrary: s as s')
  case (Cons n ns)
  obtain a s1 where 1: "intern n s = (a, s1)" by fastforce
  obtain bs where 2: "intern_all intern ns s1 = (bs, s')" and as: "as = a # bs"
    using Cons.prems(3) 1 by (auto split: prod.splits)
  have r: "0 < room s" using Cons.prems(2) by auto
  have "inv s1" "length ns \<le> room s1"
    using intern_inv [OF Cons.prems(1) r 1] intern_room [OF Cons.prems(1) r 1] Cons.prems(2) by auto
  from Cons.IH [OF this 2] show ?case
    using intern_new [OF Cons.prems(1) r 1] intern_old [OF Cons.prems(1) r 1] as by auto
qed auto

end

definition atoms_left :: "atomtab \<Rightarrow> nat" where
  "atoms_left st = 2 ^ 32 - 1 - unat (lastAtom st)"

lemma atoms_left_room: "0 < atoms_left st \<longleftrightarrow> atom_room st"
  by (auto simp: atoms_left_def atom_room_def)

interpretation atoms: interning atoms_inv atoms_left lookup_atom "\<lambda>s. MakeAtom (\<lambda>_. True) s True"
proof
  fix st n a st'
  assume inv: "atoms_inv st" and "0 < atoms_left st" and mk: "MakeAtom (\<lambda>_. True) n True st = (a, st')"
  then have room: "atom_room st" by (simp add: atoms_left_room)
  note facts = inv room atoms_inv_add lookup_add_atom
  show "atoms_inv st'"
    using mk by (cases rule: MakeAtom_cases) (simp_all add: facts)
  show "atoms_left st \<le> atoms_left st' + 1"
    using mk by (cases rule: MakeAtom_cases) (simp_all add: atoms_left_def room_Suc [OF room])
  show "lookup_atom n st' = Some a"
    using mk by (cases rule: MakeAtom_cases) (simp_all add: facts)
  fix m b
  assume m: "lookup_atom m st = Some b"
  then have "lookup_atom n st = None \<Longrightarrow> akey m \<noteq> akey n"
    using lookup_atom_iff [OF inv, of m b] lookup_atom_iff [OF inv, of n b] by auto
  with mk show "lookup_atom m st' = Some b"
    by (cases rule: MakeAtom_cases) (use m in \<open>simp_all add: facts\<close>)
qed

subsection \<open>Correctness of the table\<close>

lemma MakeAtom_found:
  "lookup_atom s st = Some a \<Longrightarrow> MakeAtom ok s makeit st = (a, st)"
  by (simp add: MakeAtom_eq)

lemma MakeAtom_new:
  "lookup_atom s st = None \<Longrightarrow> alloc_ok ok st \<Longrightarrow>
     MakeAtom ok s True st = (lastAtom st + 1, add_atom s st)"
  by (simp add: MakeAtom_eq)

text \<open>A small table for the concrete instances below.\<close>

definition empty_atoms :: atomtab where
  "empty_atoms = \<lparr>lastAtom = 0, atomRoot = ANull, tableLength = 2, nodeTable = [None, None]\<rparr>"

lemma empty_atoms_inv: "atoms_inv empty_atoms" "atom_room empty_atoms"
  by (auto simp: empty_atoms_def atoms_inv_def atom_room_def)

text \<open>C17: Creating or looking up an atom keeps the table well formed (search tree, bijection
  between the numbers 1 to \<open>lastAtom\<close> and the tree nodes, array of sufficient length), whatever
  allocations fail, and the name of every atom that existed before the call is unchanged.\<close>

theorem MakeAtom_invariant:
  assumes "atoms_inv st" and "atom_room st" and "MakeAtom ok s makeit st = (a, st')"
  shows "atoms_inv st' \<and>
    (\<forall>b. ValidAtom b st \<longrightarrow> ValidAtom b st' \<and> NameForAtom b st' = NameForAtom b st)"
  using assms(3)
  by (cases rule: MakeAtom_cases)
    (use assms in \<open>simp_all add: atoms_inv_add ValidAtom_def room_le NameForAtom_add_atom\<close>)

theorem MakeAtom_invariant_witness:
  "atoms_inv (snd (MakeAtom (\<lambda>_. True) [65] True empty_atoms))"
  using MakeAtom_invariant [OF empty_atoms_inv, of "\<lambda>_. True" "[65]" True] by (metis prod.collapse)

text \<open>C18: Interning a name succeeds when memory suffices, and the atom is then valid, has the
  interned C string as its name, and is what every later lookup of the name returns, with the
  table unchanged.\<close>

theorem MakeAtom_roundtrip:
  assumes "atoms_inv st" and "atom_room st" and "\<forall>k. ok k"
    and "MakeAtom ok s True st = (a, st')"
  shows "ValidAtom a st' \<and> NameForAtom a st' = Some (cstr s) \<and>
    MakeAtom ok' s makeit st' = (a, st')"
proof -
  have ok: "ok = (\<lambda>_. True)" using assms(3) by auto
  have r: "0 < atoms_left st" by (simp add: atoms_left_room assms)
  note mk = assms(4) [unfolded ok]
  have "lookup_atom s st' = Some a" by (rule atoms.intern_new [OF assms(1) r mk])
  with atoms.intern_inv [OF assms(1) r mk] show ?thesis
    by (simp add: lookup_atom_named MakeAtom_found)
qed

theorem MakeAtom_roundtrip_witness:
  "\<exists>a st'. MakeAtom (\<lambda>_. True) [65] True empty_atoms = (a, st') \<and> NameForAtom a st' = Some [65]"
proof -
  obtain a st' where mk: "MakeAtom (\<lambda>_. True) [65] True empty_atoms = (a, st')" by fastforce
  from MakeAtom_roundtrip [OF empty_atoms_inv _ this] have "NameForAtom a st' = Some [65]"
    by (simp add: cstr_def)
  with mk show ?thesis by blast
qed

text \<open>Different names without NUL bytes never share an atom.\<close>

theorem MakeAtom_injective:
  assumes "atoms_inv st" and "nul_free s" and "nul_free t" and "s \<noteq> t"
    and "fst (MakeAtom ok s False st) \<noteq> 0"
  shows "fst (MakeAtom ok t False st) \<noteq> fst (MakeAtom ok s False st)"
proof
  assume "fst (MakeAtom ok t False st) = fst (MakeAtom ok s False st)"
  with assms(5) obtain a where "lookup_atom s st = Some a" "lookup_atom t st = Some a"
    by (auto simp: MakeAtom_eq split: option.splits)
  from lookup_atom_inj [OF assms(1) this] show False using assms(2-4) by (simp add: akey_nul_free)
qed

definition one_atom :: atomtab where
  "one_atom = snd (MakeAtom (\<lambda>_. True) [65] True empty_atoms)"

lemma one_atom_inv: "atoms_inv one_atom" "lookup_atom [65] one_atom = Some 1"
proof -
  have mk: "MakeAtom (\<lambda>_. True) [65] True empty_atoms = (1, one_atom)"
    by (simp add: one_atom_def MakeAtom_eq lookup_atom_def empty_atoms_def)
  have r: "0 < atoms_left empty_atoms" by (simp add: atoms_left_room empty_atoms_inv)
  show "atoms_inv one_atom" "lookup_atom [65] one_atom = Some 1"
    using atoms.intern_inv [OF empty_atoms_inv(1) r mk] atoms.intern_new [OF empty_atoms_inv(1) r mk]
    by auto
qed

theorem MakeAtom_injective_witness:
  "fst (MakeAtom (\<lambda>_. True) [66] False one_atom) \<noteq> fst (MakeAtom (\<lambda>_. True) [65] False one_atom)"
  by (rule MakeAtom_injective) (simp_all add: MakeAtom_eq one_atom_inv)

lemma lookup_atom_akey: "atoms_inv st \<Longrightarrow> akey s = akey t \<Longrightarrow> lookup_atom s st = lookup_atom t st"
  by (metis lookup_atom_iff option.exhaust)

lemma MakePredeclaredAtoms_spec:
  assumes "atoms_inv st" and "lastAtom st + 1 = xa" and "unat (lastAtom st) + length ns < 2 ^ 32"
    and "distinct (map (\<lambda>n. akey (bytes n)) ns)"
    and "\<forall>n \<in> set ns. lookup_atom (bytes n) st = None" and "\<forall>a k. ok a k"
  shows "\<exists>st'. MakePredeclaredAtoms ok ns xa st = Some st' \<and> atoms_inv st' \<and>
    unat (lastAtom st') = unat (lastAtom st) + length ns \<and>
    (\<forall>i < length ns. lookup_atom (bytes (ns ! i)) st' = Some (xa + of_nat i)) \<and>
    (\<forall>m b. lookup_atom m st = Some b \<longrightarrow> lookup_atom m st' = Some b)"
  using assms
proof (induction ns arbitrary: xa st)
  case (Cons n ns)
  let ?s = "bytes n" and ?st = "add_atom (bytes n) st"
  have room: "atom_room st" using Cons.prems(3) by (simp add: atom_room_def)
  have new: "lookup_atom ?s st = None" using Cons.prems(5) by simp
  have ok: "ok xa = (\<lambda>_. True)" using Cons.prems(6) by auto
  have mk: "MakeAtom (ok xa) ?s True st = (xa, ?st)"
    using Cons.prems(2) new by (simp add: MakeAtom_new ok)
  note look = lookup_add_atom [OF Cons.prems(1) room new]
  have "\<exists>st'. MakePredeclaredAtoms ok ns (xa + 1) ?st = Some st' \<and> atoms_inv st' \<and>
    unat (lastAtom st') = unat (lastAtom ?st) + length ns \<and>
    (\<forall>i < length ns. lookup_atom (bytes (ns ! i)) st' = Some (xa + 1 + of_nat i)) \<and>
    (\<forall>m b. lookup_atom m ?st = Some b \<longrightarrow> lookup_atom m st' = Some b)"
  proof (rule Cons.IH)
    show "atoms_inv ?st" by (rule atoms_inv_add [OF Cons.prems(1) room new])
    show "\<forall>n \<in> set ns. lookup_atom (bytes n) ?st = None"
      using Cons.prems(4,5) by (auto simp: look image_iff)
  qed (use Cons.prems room_Suc [OF room] in auto)
  then obtain st' where st': "MakePredeclaredAtoms ok ns (xa + 1) ?st = Some st'" "atoms_inv st'"
      "unat (lastAtom st') = unat (lastAtom ?st) + length ns"
      "\<And>i. i < length ns \<Longrightarrow> lookup_atom (bytes (ns ! i)) st' = Some (xa + 1 + of_nat i)"
      "\<And>m b. lookup_atom m ?st = Some b \<Longrightarrow> lookup_atom m st' = Some b"
    by blast
  have "lookup_atom (bytes ((n # ns) ! i)) st' = Some (xa + of_nat i)" if "i < length (n # ns)" for i
    using that st'(4) [of "i - 1"] st'(5) [of ?s xa] look Cons.prems(2)
    by (cases i) (auto simp: add.assoc)
  moreover have "lookup_atom m st' = Some b" if m: "lookup_atom m st = Some b" for m b
  proof -
    have "akey m \<noteq> akey ?s" using m new lookup_atom_akey [OF Cons.prems(1), of m ?s] by auto
    with m show ?thesis by (intro st'(5)) (simp add: look)
  qed
  ultimately show ?case using st'(1-3) mk room_Suc [OF room] by auto
qed auto

lemma predeclared_distinct: "length predeclared = 68" "distinct predeclared"
  by code_simp+

lemma predeclared_nul_free: "\<forall>n \<in> set predeclared. nul_free (bytes n)"
proof -
  have "list_all (\<lambda>n. CHR 0x00 \<notin> set n) predeclared" by code_simp
  then show ?thesis by (simp add: list_all_iff nul_free_bytes)
qed



end
