(* ===== verification/Dix.thy ===== *)
theory Dix
  imports Atoms
begin

text \<open>
  The part of the X server state that the request handlers of \<open>xserver/dix\<close> and the clipboard of
  \<open>lorie\<close> share: time stamps, windows with their property lists, selections, the log of what is
  written to clients, and the outcomes of the allocations to come. Clients are numbers, 0 being
  \<open>serverClient\<close>. The access control hooks (XACE) have no module in this build; they are the
  parameter \<open>pol\<close>, which gives the status of an access. \<open>CARD32\<close> fields are 32-bit words, sizes
  are natural numbers with the reduction written where the C code stores them in 32 bits.
\<close>

type_synonym client = nat
type_synonym xid = u32
type_synonym mask = u32

definition serverClient :: client where
  "serverClient = 0"

section \<open>Access modes (dixaccess.h)\<close>

definition DixReadAccess :: mask where "DixReadAccess = 0x1"
definition DixWriteAccess :: mask where "DixWriteAccess = 0x2"
definition DixDestroyAccess :: mask where "DixDestroyAccess = 0x4"
definition DixCreateAccess :: mask where "DixCreateAccess = 0x8"
definition DixGetAttrAccess :: mask where "DixGetAttrAccess = 0x10"
definition DixSetAttrAccess :: mask where "DixSetAttrAccess = 0x20"
definition DixListPropAccess :: mask where "DixListPropAccess = 0x40"
definition DixGetPropAccess :: mask where "DixGetPropAccess = 0x80"
definition DixSetPropAccess :: mask where "DixSetPropAccess = 0x100"
definition DixBlendAccess :: mask where "DixBlendAccess = 0x10000"
definition DixPostAccess :: mask where "DixPostAccess = 0x10000000"

datatype xobj = OWin xid | OProp xid atom | OSel atom

type_synonym policy = "client \<Rightarrow> xobj \<Rightarrow> mask \<Rightarrow> xstatus"

section \<open>Data\<close>

record tstamp =
  months :: u32
  milliseconds :: u32

datatype propstate = PropertyNewValue | PropertyDelete

datatype xevent =
    PropertyNotify xid propstate atom u32
  | SelectionClear u32 xid atom
  | SelectionRequest u32 xid xid atom atom atom
  | SelectionNotify u32 xid atom atom atom

record getprop_reply =
  r_format :: nat
  r_propertyType :: atom
  r_bytesAfter :: nat
  r_length :: nat
  r_nItems :: nat
  r_data :: "byte list"

datatype reply =
    GetPropertyReply getprop_reply
  | ListPropertiesReply "atom list"
  | GetSelectionOwnerReply xid
  | InternAtomReply atom
  | GetAtomNameReply "byte list"

datatype msg = ToClient client xevent | ToWindow xid xevent | ToReply client reply

record xprop =
  propertyName :: atom
  ptype :: atom
  pformat :: nat
  psize :: nat
  pdata :: "byte list"

text \<open>
  \<open>hasOptional\<close>: the window has its optional block, without which there are no properties;
  \<open>otherOptional\<close>: some other field of the block is in use, so that it is kept.
\<close>

record win =
  hasOptional :: bool
  otherOptional :: bool
  userProps :: "xprop list"

record sel =
  selection :: atom
  lastTimeChanged :: tstamp
  swindow :: xid
  spWin :: "xid option"
  sclient :: "client option"

record srv =
  atoms :: atomtab
  wins :: "xid \<Rightarrow> win option"
  rootId :: xid
  CurrentSelections :: "sel list"
  currentTime :: tstamp
  clockMillis :: u32
  clientGone :: "client \<Rightarrow> bool"
  errorValue :: "client \<Rightarrow> u32"
  sent :: "msg list"
  mallocs :: "bool list"

section \<open>Allocation and output\<close>

text \<open>The next allocation succeeds as the head of \<open>mallocs\<close> says, and always when it is empty.\<close>

definition malloc :: "'a srv_scheme \<Rightarrow> bool \<times> 'a srv_scheme" where
  "malloc st = (case mallocs st of [] \<Rightarrow> (True, st) | b # bs \<Rightarrow> (b, st\<lparr>mallocs := bs\<rparr>))"

definition set_error :: "client \<Rightarrow> u32 \<Rightarrow> 'a srv_scheme \<Rightarrow> 'a srv_scheme" where
  "set_error c v st = st\<lparr>errorValue := (errorValue st)(c := v)\<rparr>"

definition send :: "msg \<Rightarrow> 'a srv_scheme \<Rightarrow> 'a srv_scheme" where
  "send m st = st\<lparr>sent := sent st @ [m]\<rparr>"

definition WriteEventsToClient :: "client option \<Rightarrow> xevent \<Rightarrow> 'a srv_scheme \<Rightarrow> 'a srv_scheme" where
  "WriteEventsToClient c e st =
     (case c of None \<Rightarrow> st
      | Some c \<Rightarrow> if c = serverClient \<or> clientGone st c then st else send (ToClient c e) st)"

section \<open>Time stamps\<close>

datatype timeorder = EARLIER | SAMETIME | LATER

definition CompareTimeStamps :: "tstamp \<Rightarrow> tstamp \<Rightarrow> timeorder" where
  "CompareTimeStamps a b =
     (if months a < months b then EARLIER
      else if months a > months b then LATER
      else if milliseconds a < milliseconds b then EARLIER
      else if milliseconds a > milliseconds b then LATER
      else SAMETIME)"

definition HALFMONTH :: nat where
  "HALFMONTH = 2 ^ 31"

definition ClientTimeToServerTime :: "u32 \<Rightarrow> tstamp \<Rightarrow> tstamp" where
  "ClientTimeToServerTime c cur =
     (if c = 0 then cur
      else let ts = \<lparr>months = months cur, milliseconds = c\<rparr>
           in if c > milliseconds cur then
                (if unat c - unat (milliseconds cur) > HALFMONTH
                 then ts\<lparr>months := months ts - 1\<rparr> else ts)
              else if c < milliseconds cur then
                (if unat (milliseconds cur) - unat c > HALFMONTH
                 then ts\<lparr>months := months ts + 1\<rparr> else ts)
              else ts)"

definition UpdateCurrentTimeIf :: "'a srv_scheme \<Rightarrow> 'a srv_scheme" where
  "UpdateCurrentTimeIf st =
     (let now = \<lparr>months = months (currentTime st), milliseconds = clockMillis st\<rparr>;
          systime = (if milliseconds now < milliseconds (currentTime st)
                     then now\<lparr>months := months now + 1\<rparr> else now)
      in if CompareTimeStamps systime (currentTime st) = LATER
         then st\<lparr>currentTime := systime\<rparr> else st)"

text \<open>\<open>UpdateCurrentTime\<close> also drains pending input, which touches none of the state modelled here.\<close>

definition UpdateCurrentTime :: "'a srv_scheme \<Rightarrow> 'a srv_scheme" where
  "UpdateCurrentTime st = UpdateCurrentTimeIf st"

section \<open>Windows\<close>

definition dixLookupWindow ::
    "policy \<Rightarrow> client \<Rightarrow> xid \<Rightarrow> mask \<Rightarrow> 'a srv_scheme \<Rightarrow> xstatus \<times> 'a srv_scheme" where
  "dixLookupWindow pol c w m st =
     (let st1 = set_error c w st;
          rc = (case wins st w of None \<Rightarrow> BadDrawable | Some _ \<Rightarrow> pol c (OWin w) m)
      in (if rc = BadMatch \<or> rc = BadDrawable \<or> rc = BadValue then BadWindow else rc, st1))"

definition wUserProps :: "win \<Rightarrow> xprop list" where
  "wUserProps w = (if hasOptional w then userProps w else [])"

definition MakeWindowOptional :: "xid \<Rightarrow> 'a srv_scheme \<Rightarrow> bool \<times> 'a srv_scheme" where
  "MakeWindowOptional w st =
     (case wins st w of
        None \<Rightarrow> (False, st)
      | Some pWin \<Rightarrow>
          if hasOptional pWin then (True, st)
          else case malloc st of
                 (False, st1) \<Rightarrow> (False, st1)
               | (True, st1) \<Rightarrow>
                   (True, st1\<lparr>wins := (wins st1)(w \<mapsto> pWin\<lparr>hasOptional := True, userProps := []\<rparr>)\<rparr>))"

definition CheckWindowOptionalNeed :: "win \<Rightarrow> win" where
  "CheckWindowOptionalNeed w =
     (if hasOptional w \<and> \<not> otherOptional w \<and> userProps w = []
      then w\<lparr>hasOptional := False\<rparr> else w)"

section \<open>Atom requests (dispatch.c)\<close>

definition ProcInternAtom ::
    "(nat \<Rightarrow> bool) \<Rightarrow> client \<Rightarrow> nat \<Rightarrow> byte list \<Rightarrow> 'a srv_scheme \<Rightarrow> xstatus \<times> 'a srv_scheme" where
  "ProcInternAtom ok c onlyIfExists name st =
     (if onlyIfExists \<noteq> 1 \<and> onlyIfExists \<noteq> 0
      then (BadValue, set_error c (of_nat onlyIfExists) st)
      else case MakeAtom ok name (onlyIfExists = 0) (atoms st) of
             (a, tab) \<Rightarrow>
               if a \<noteq> BAD_RESOURCE
               then (Success, send (ToReply c (InternAtomReply a)) (st\<lparr>atoms := tab\<rparr>))
               else (BadAlloc, st\<lparr>atoms := tab\<rparr>))"

definition ProcGetAtomName :: "client \<Rightarrow> atom \<Rightarrow> 'a srv_scheme \<Rightarrow> xstatus \<times> 'a srv_scheme" where
  "ProcGetAtomName c a st =
     (case NameForAtom a (atoms st) of
        Some s \<Rightarrow> (Success, send (ToReply c (GetAtomNameReply s)) st)
      | None \<Rightarrow> (BadAtom, set_error c a st))"

section \<open>Frame lemmas\<close>

named_theorems frame_simps

lemma malloc_frame [frame_simps]:
  "malloc st = (b, st') \<Longrightarrow> \<exists>m. st' = st\<lparr>mallocs := m\<rparr>"
  by (cases "mallocs st") (auto simp: malloc_def intro: exI [of _ "[]"])

lemma set_error_sel [simp]:
  "atoms (set_error c v st) = atoms st" "wins (set_error c v st) = wins st"
  "rootId (set_error c v st) = rootId st" "CurrentSelections (set_error c v st) = CurrentSelections st"
  "currentTime (set_error c v st) = currentTime st" "sent (set_error c v st) = sent st"
  "clientGone (set_error c v st) = clientGone st" "mallocs (set_error c v st) = mallocs st"
  "clockMillis (set_error c v st) = clockMillis st"
  by (simp_all add: set_error_def)

lemma send_sel [simp]:
  "atoms (send m st) = atoms st" "wins (send m st) = wins st"
  "rootId (send m st) = rootId st" "CurrentSelections (send m st) = CurrentSelections st"
  "currentTime (send m st) = currentTime st" "sent (send m st) = sent st @ [m]"
  "clientGone (send m st) = clientGone st" "mallocs (send m st) = mallocs st"
  "clockMillis (send m st) = clockMillis st"
  by (simp_all add: send_def)

lemma UpdateCurrentTime_sel [simp]:
  "atoms (UpdateCurrentTime st) = atoms st" "wins (UpdateCurrentTime st) = wins st"
  "rootId (UpdateCurrentTime st) = rootId st"
  "CurrentSelections (UpdateCurrentTime st) = CurrentSelections st"
  "sent (UpdateCurrentTime st) = sent st" "clientGone (UpdateCurrentTime st) = clientGone st"
  "mallocs (UpdateCurrentTime st) = mallocs st" "clockMillis (UpdateCurrentTime st) = clockMillis st"
  by (simp_all add: UpdateCurrentTime_def UpdateCurrentTimeIf_def Let_def)

lemma WriteEvents_sel [simp]:
  "atoms (WriteEventsToClient c e st) = atoms st" "wins (WriteEventsToClient c e st) = wins st"
  "rootId (WriteEventsToClient c e st) = rootId st"
  "CurrentSelections (WriteEventsToClient c e st) = CurrentSelections st"
  "currentTime (WriteEventsToClient c e st) = currentTime st"
  "clientGone (WriteEventsToClient c e st) = clientGone st"
  "mallocs (WriteEventsToClient c e st) = mallocs st"
  by (simp_all add: WriteEventsToClient_def split: option.split)

lemma dixLookupWindow_frame [simp]:
  "snd (dixLookupWindow pol c w m st) = set_error c w st"
  by (simp add: dixLookupWindow_def Let_def)

lemma dixLookupWindow_Success:
  "dixLookupWindow pol c w m st = (Success, st') \<longleftrightarrow>
     st' = set_error c w st \<and> wins st w \<noteq> None \<and> pol c (OWin w) m = Success"
  by (auto simp: dixLookupWindow_def Let_def split: option.splits)

section \<open>Time never runs backwards\<close>

text \<open>Refreshing the server time never moves it backwards, and it then shows the clock even
  when the 32-bit millisecond counter has wrapped since the last reading.\<close>

theorem UpdateCurrentTime_clock:
  assumes "unat (months (currentTime st)) + 1 < 2 ^ 32"
  shows "CompareTimeStamps (currentTime (UpdateCurrentTime st)) (currentTime st) \<noteq> EARLIER \<and>
    milliseconds (currentTime (UpdateCurrentTime st)) = clockMillis st"
proof -
  have "months (currentTime st) < months (currentTime st) + 1"
    using assms by (simp add: word_less_nat_alt unat_word_ariths)
  then show ?thesis
    by (auto simp: UpdateCurrentTime_def UpdateCurrentTimeIf_def Let_def CompareTimeStamps_def
        split: if_splits)
qed

text \<open>A server with a root window and no properties, for the concrete instances.\<close>

definition srv0 :: srv where
  "srv0 = \<lparr>atoms = one_atom, wins = [1 \<mapsto> \<lparr>hasOptional = True, otherOptional = True, userProps = []\<rparr>],
     rootId = 1, CurrentSelections = [], currentTime = \<lparr>months = 0, milliseconds = 7\<rparr>,
     clockMillis = 9, clientGone = (\<lambda>_. False), errorValue = (\<lambda>_. 0), sent = [], mallocs = []\<rparr>"

theorem UpdateCurrentTime_clock_witness:
  "milliseconds (currentTime (UpdateCurrentTime srv0)) = 9"
  using UpdateCurrentTime_clock [of srv0] by (simp add: srv0_def)

definition tline :: "tstamp \<Rightarrow> int" where
  "tline t = int (unat (months t)) * 2 ^ 32 + int (unat (milliseconds t))"



end
