(* ===== verification/Property.thy ===== *)
theory Property
  imports Dix
begin

text \<open>
  Window properties, \<open>xserver/dix/property.c\<close>: the list of properties of a window, its lookup,
  change, deletion and rotation, and the request handlers that clients reach them through. The
  abstract view of a window is a finite map from property names to typed byte strings; the
  theorems show that every operation acts on that map as the protocol says.
\<close>

section \<open>Operations\<close>

datatype propmode = PropModeReplace | PropModePrepend | PropModeAppend

definition win_props :: "xid \<Rightarrow> 'a srv_scheme \<Rightarrow> xprop list" where
  "win_props w st = (case wins st w of None \<Rightarrow> [] | Some pWin \<Rightarrow> wUserProps pWin)"

definition set_props :: "xid \<Rightarrow> xprop list \<Rightarrow> 'a srv_scheme \<Rightarrow> 'a srv_scheme" where
  "set_props w ps st =
     (case wins st w of
        None \<Rightarrow> st
      | Some pWin \<Rightarrow> st\<lparr>wins := (wins st)(w \<mapsto> pWin\<lparr>userProps := ps\<rparr>)\<rparr>)"

definition dixLookupProperty ::
    "policy \<Rightarrow> xid \<Rightarrow> atom \<Rightarrow> client \<Rightarrow> mask \<Rightarrow> 'a srv_scheme
       \<Rightarrow> xstatus \<times> xprop option \<times> 'a srv_scheme" where
  "dixLookupProperty pol w name c m st =
     (let st1 = set_error c name st
      in case find_key propertyName name (win_props w st) of
           None \<Rightarrow> (BadMatch, None, st1)
         | Some p \<Rightarrow> (pol c (OProp w name) m, Some p, st1))"

definition deliverPropertyNotifyEvent ::
    "xid \<Rightarrow> propstate \<Rightarrow> atom \<Rightarrow> 'a srv_scheme \<Rightarrow> 'a srv_scheme" where
  "deliverPropertyNotifyEvent w state name st =
     (let st1 = UpdateCurrentTimeIf st
      in send (ToWindow w (PropertyNotify w state name (milliseconds (currentTime st1)))) st1)"

text \<open>The four fields that are rewritten in place; name and private data of the record stay.\<close>

definition put_value :: "atom \<times> nat \<times> nat \<times> byte list \<Rightarrow> xprop \<Rightarrow> xprop" where
  "put_value u p = (case u of (t, f, n, d) \<Rightarrow> p\<lparr>ptype := t, pformat := f, psize := n, pdata := d\<rparr>)"

text \<open>
  The new type, format, size and data of an existing property; \<open>None\<close> if the buffer for the
  data could not be allocated. The size field has 32 bits.
\<close>

definition changed_value ::
    "xprop \<Rightarrow> atom \<Rightarrow> nat \<Rightarrow> propmode \<Rightarrow> nat \<Rightarrow> byte list \<Rightarrow> 'a srv_scheme
       \<Rightarrow> (atom \<times> nat \<times> nat \<times> byte list) option \<times> 'a srv_scheme" where
  "changed_value p type format mode len value st =
     (let sizeInBytes = format div 8; totalSize = len * sizeInBytes
      in if mode = PropModeReplace then
           (case malloc st of (ok, st1) \<Rightarrow>
              if totalSize \<noteq> 0 \<and> \<not> ok then (None, st1)
              else (Some (type, format, len mod 2 ^ 32, take totalSize value), st1))
         else if len = 0 then (Some (ptype p, pformat p, psize p, pdata p), st)
         else
           (case malloc st of (ok, st1) \<Rightarrow>
              if \<not> ok then (None, st1)
              else let old = take (psize p * sizeInBytes) (pdata p); new = take totalSize value
                   in (Some (ptype p, pformat p, (psize p + len) mod 2 ^ 32,
                             (if mode = PropModeAppend then old @ new else new @ old)), st1)))"

definition add_property ::
    "policy \<Rightarrow> client \<Rightarrow> xid \<Rightarrow> atom \<Rightarrow> atom \<Rightarrow> nat \<Rightarrow> nat \<Rightarrow> byte list \<Rightarrow> 'a srv_scheme
       \<Rightarrow> xstatus \<times> 'a srv_scheme" where
  "add_property pol c w property type format len value st =
     (let totalSize = len * (format div 8)
      in case MakeWindowOptional w st of
           (False, st1) \<Rightarrow> (BadAlloc, st1)
         | (True, st1) \<Rightarrow>
             (case malloc st1 of
                (False, st2) \<Rightarrow> (BadAlloc, st2)
              | (True, st2) \<Rightarrow>
                  (case malloc st2 of (ok, st3) \<Rightarrow>
                     if totalSize \<noteq> 0 \<and> \<not> ok then (BadAlloc, st3)
                     else let rc = pol c (OProp w property) (DixCreateAccess OR DixWriteAccess)
                          in if rc \<noteq> Success then (rc, set_error c property st3)
                             else (Success,
                                   set_props w
                                     (\<lparr>propertyName = property, ptype = type, pformat = format,
                                       psize = len mod 2 ^ 32, pdata = take totalSize value\<rparr>
                                      # win_props w st3) st3))))"

definition update_property ::
    "policy \<Rightarrow> client \<Rightarrow> xid \<Rightarrow> xprop \<Rightarrow> atom \<Rightarrow> atom \<Rightarrow> nat \<Rightarrow> propmode \<Rightarrow> nat \<Rightarrow> byte list
       \<Rightarrow> mask \<Rightarrow> 'a srv_scheme \<Rightarrow> xstatus \<times> 'a srv_scheme" where
  "update_property pol c w p property type format mode len value access_mode st =
     (if format \<noteq> pformat p \<and> mode \<noteq> PropModeReplace then (BadMatch, st)
      else if ptype p \<noteq> type \<and> mode \<noteq> PropModeReplace then (BadMatch, st)
      else case changed_value p type format mode len value st of
             (None, st1) \<Rightarrow> (BadAlloc, st1)
           | (Some u, st1) \<Rightarrow>
               let rc = pol c (OProp w property) (access_mode OR DixPostAccess)
               in if rc = Success
                  then (Success,
                        set_props w (upd_key propertyName property (put_value u) (win_props w st1)) st1)
                  else (rc, st1))"

definition dixChangeWindowProperty ::
    "policy \<Rightarrow> client \<Rightarrow> xid \<Rightarrow> atom \<Rightarrow> atom \<Rightarrow> nat \<Rightarrow> propmode \<Rightarrow> nat \<Rightarrow> byte list \<Rightarrow> bool
       \<Rightarrow> 'a srv_scheme \<Rightarrow> xstatus \<times> 'a srv_scheme" where
  "dixChangeWindowProperty pol c w property type format mode len value sendevent st =
     (let access_mode = (if mode = PropModeReplace then DixWriteAccess else DixBlendAccess)
      in case dixLookupProperty pol w property c access_mode st of
           (rc, pProp, st1) \<Rightarrow>
             (case (if rc = BadMatch then add_property pol c w property type format len value st1
                    else case pProp of
                           Some p \<Rightarrow>
                             if rc = Success
                             then update_property pol c w p property type format mode len value
                                    access_mode st1
                             else (rc, st1)
                         | None \<Rightarrow> (rc, st1)) of
                (rc2, st2) \<Rightarrow>
                  if rc2 \<noteq> Success then (rc2, st2)
                  else if sendevent
                  then (Success, deliverPropertyNotifyEvent w PropertyNewValue property st2)
                  else (Success, st2)))"

text \<open>Unlinking a property may leave the window's optional block without a use.\<close>

definition unlink_property :: "xid \<Rightarrow> atom \<Rightarrow> 'a srv_scheme \<Rightarrow> 'a srv_scheme" where
  "unlink_property w name st =
     (case wins st w of
        None \<Rightarrow> st
      | Some pWin \<Rightarrow>
          let w1 = pWin\<lparr>userProps := del_key propertyName name (userProps pWin)\<rparr>
          in st\<lparr>wins := (wins st)(w \<mapsto>
                 (if userProps w1 = [] then CheckWindowOptionalNeed w1 else w1))\<rparr>)"

definition DeleteProperty ::
    "policy \<Rightarrow> client \<Rightarrow> xid \<Rightarrow> atom \<Rightarrow> 'a srv_scheme \<Rightarrow> xstatus \<times> 'a srv_scheme" where
  "DeleteProperty pol c w name st =
     (case dixLookupProperty pol w name c DixDestroyAccess st of
        (rc, pProp, st1) \<Rightarrow>
          if rc = BadMatch then (Success, st1)
          else if rc = Success
          then (rc, deliverPropertyNotifyEvent w PropertyDelete name (unlink_property w name st1))
          else (rc, st1))"

definition DeleteAllWindowProperties :: "xid \<Rightarrow> 'a srv_scheme \<Rightarrow> 'a srv_scheme" where
  "DeleteAllWindowProperties w st =
     (let st1 = fold (\<lambda>p. deliverPropertyNotifyEvent w PropertyDelete (propertyName p))
                     (win_props w st) st
      in set_props w [] st1)"

section \<open>Request handlers\<close>

text \<open>The length checks of \<open>dix.h\<close>; \<open>req_len\<close> counts 4-byte units, sizes are in bytes.\<close>

definition bytes_to_int32 :: "nat \<Rightarrow> nat" where
  "bytes_to_int32 n = n div 4 + (if n mod 4 \<noteq> 0 then 1 else 0)"

definition at_least_size :: "nat \<Rightarrow> nat \<Rightarrow> bool" where
  "at_least_size sz req_len \<longleftrightarrow> sz div 4 \<le> req_len"

definition fixed_size :: "nat \<Rightarrow> nat \<Rightarrow> nat \<Rightarrow> bool" where
  "fixed_size sz n req_len \<longleftrightarrow>
     sz div 4 \<le> req_len \<and> n div 4 < req_len \<and> (sz + n + 3) div 4 = req_len"

record change_req =
  cp_mode :: nat
  cp_window :: xid
  cp_property :: atom
  cp_type :: atom
  cp_format :: nat
  cp_nUnits :: nat
  cp_data :: "byte list"

definition prop_mode :: "nat \<Rightarrow> propmode option" where
  "prop_mode m = (if m = 0 then Some PropModeReplace else if m = 1 then Some PropModePrepend
                  else if m = 2 then Some PropModeAppend else None)"

definition sz_xChangePropertyReq :: nat where
  "sz_xChangePropertyReq = 24"

definition ProcChangeProperty ::
    "policy \<Rightarrow> client \<Rightarrow> nat \<Rightarrow> change_req \<Rightarrow> 'a srv_scheme \<Rightarrow> xstatus \<times> 'a srv_scheme" where
  "ProcChangeProperty pol c req_len r st =
     (if \<not> at_least_size sz_xChangePropertyReq req_len then (BadLength, st)
      else let st0 = UpdateCurrentTime st; format = cp_format r
           in case prop_mode (cp_mode r) of
                None \<Rightarrow> (BadValue, set_error c (of_nat (cp_mode r)) st0)
              | Some mode \<Rightarrow>
                  if format \<noteq> 8 \<and> format \<noteq> 16 \<and> format \<noteq> 32
                  then (BadValue, set_error c (of_nat format) st0)
                  else let len = cp_nUnits r
                       in if len > bytes_to_int32 (0xffffffff - sz_xChangePropertyReq)
                          then (BadLength, st0)
                          else if \<not> fixed_size sz_xChangePropertyReq (len * (format div 8)) req_len
                          then (BadLength, st0)
                          else case dixLookupWindow pol c (cp_window r) DixSetPropAccess st0 of
                                 (err, st1) \<Rightarrow>
                                   if err \<noteq> Success then (err, st1)
                                   else if \<not> ValidAtom (cp_property r) (atoms st1)
                                   then (BadAtom, set_error c (cp_property r) st1)
                                   else if \<not> ValidAtom (cp_type r) (atoms st1)
                                   then (BadAtom, set_error c (cp_type r) st1)
                                   else dixChangeWindowProperty pol c (cp_window r) (cp_property r)
                                          (cp_type r) format mode len (cp_data r) True st1)"

definition ProcDeleteProperty ::
    "policy \<Rightarrow> client \<Rightarrow> xid \<Rightarrow> atom \<Rightarrow> 'a srv_scheme \<Rightarrow> xstatus \<times> 'a srv_scheme" where
  "ProcDeleteProperty pol c w property st =
     (case dixLookupWindow pol c w DixSetPropAccess (UpdateCurrentTime st) of
        (rc, st1) \<Rightarrow>
          if rc \<noteq> Success then (rc, st1)
          else if \<not> ValidAtom property (atoms st1) then (BadAtom, set_error c property st1)
          else DeleteProperty pol c w property st1)"

record get_req =
  gp_delete :: nat
  gp_window :: xid
  gp_property :: atom
  gp_type :: atom
  gp_longOffset :: u32
  gp_longLength :: u32

definition NullPropertyReply ::
    "client \<Rightarrow> atom \<Rightarrow> nat \<Rightarrow> 'a srv_scheme \<Rightarrow> xstatus \<times> 'a srv_scheme" where
  "NullPropertyReply c type format st =
     (Success, send (ToReply c (GetPropertyReply
        \<lparr>r_format = format, r_propertyType = type, r_bytesAfter = 0, r_length = 0, r_nItems = 0,
         r_data = []\<rparr>)) st)"

text \<open>
  The reply for a property whose type matches: the slice of the data the request asks for, or
  \<open>None\<close> when the offset is beyond the end. Both \<open>longOffset << 2\<close> and \<open>4 * longLength\<close> are
  computed in 32 bits, and so is the size of the property in bytes.
\<close>

definition getprop_slice :: "xprop \<Rightarrow> u32 \<Rightarrow> u32 \<Rightarrow> getprop_reply option" where
  "getprop_slice p longOffset longLength =
     (let n = (pformat p div 8 * psize p) mod 2 ^ 32;
          ind = unat (push_bit 2 longOffset)
      in if n < ind then None
         else let len = min (n - ind) (unat (4 * longLength))
              in Some \<lparr>r_format = pformat p, r_propertyType = ptype p,
                       r_bytesAfter = n - (ind + len), r_length = bytes_to_int32 len,
                       r_nItems = len div (pformat p div 8),
                       r_data = take len (drop ind (pdata p))\<rparr>)"

definition ProcGetProperty ::
    "policy \<Rightarrow> client \<Rightarrow> get_req \<Rightarrow> 'a srv_scheme \<Rightarrow> xstatus \<times> 'a srv_scheme" where
  "ProcGetProperty pol c r st =
     (let del = gp_delete r \<noteq> 0;
          st0 = (if del then UpdateCurrentTime st else st);
          win_mode = (if del then DixGetPropAccess OR DixSetPropAccess else DixGetPropAccess);
          prop_mode = (if del then DixReadAccess OR DixDestroyAccess else DixReadAccess);
          w = gp_window r; name = gp_property r
      in case dixLookupWindow pol c w win_mode st0 of
           (rc, st1) \<Rightarrow>
             if rc \<noteq> Success then (rc, st1)
             else if \<not> ValidAtom name (atoms st1) then (BadAtom, set_error c name st1)
             else if gp_delete r \<noteq> 1 \<and> gp_delete r \<noteq> 0
             then (BadValue, set_error c (of_nat (gp_delete r)) st1)
             else if gp_type r \<noteq> 0 \<and> \<not> ValidAtom (gp_type r) (atoms st1)
             then (BadAtom, set_error c (gp_type r) st1)
             else case dixLookupProperty pol w name c prop_mode st1 of
                    (rc2, pProp, st2) \<Rightarrow>
                      if rc2 = BadMatch then NullPropertyReply c 0 0 st2
                      else if rc2 \<noteq> Success then (rc2, st2)
                      else case pProp of
                             None \<Rightarrow> (rc2, st2)
                           | Some p \<Rightarrow>
                               if gp_type r \<noteq> ptype p \<and> gp_type r \<noteq> 0
                               then (Success, send (ToReply c (GetPropertyReply
                                       \<lparr>r_format = pformat p, r_propertyType = ptype p,
                                        r_bytesAfter = psize p, r_length = 0, r_nItems = 0,
                                        r_data = []\<rparr>)) st2)
                               else case getprop_slice p (gp_longOffset r) (gp_longLength r) of
                                      None \<Rightarrow> (BadValue, set_error c (gp_longOffset r) st2)
                                    | Some reply \<Rightarrow>
                                        if del \<and> r_bytesAfter reply = 0
                                        then (Success, unlink_property w name
                                               (send (ToReply c (GetPropertyReply reply))
                                                 (deliverPropertyNotifyEvent w PropertyDelete name st2)))
                                        else (Success, send (ToReply c (GetPropertyReply reply)) st2))"

definition ProcListProperties ::
    "policy \<Rightarrow> client \<Rightarrow> xid \<Rightarrow> 'a srv_scheme \<Rightarrow> xstatus \<times> 'a srv_scheme" where
  "ProcListProperties pol c w st =
     (case dixLookupWindow pol c w DixListPropAccess st of
        (rc, st1) \<Rightarrow>
          if rc \<noteq> Success then (rc, st1)
          else let ps = win_props w st1
               in case (if ps = [] then (True, st1) else malloc st1) of
                    (False, st2) \<Rightarrow> (BadAlloc, st2)
                  | (True, st2) \<Rightarrow>
                      (Success, send (ToReply c (ListPropertiesReply
                         (map propertyName
                            (filter (\<lambda>p. pol c (OProp w (propertyName p)) DixGetAttrAccess = Success)
                               ps)))) st2))"

text \<open>The checking loop of \<open>ProcRotateProperties\<close>: the records of all named properties, in order.\<close>

fun rotate_collect ::
    "policy \<Rightarrow> client \<Rightarrow> xid \<Rightarrow> atom list \<Rightarrow> 'a srv_scheme
       \<Rightarrow> xstatus \<times> xprop list \<times> 'a srv_scheme" where
  "rotate_collect pol c w [] st = (Success, [], st)"
| "rotate_collect pol c w (a # as) st =
     (if \<not> ValidAtom a (atoms st) then (BadAtom, [], set_error c a st)
      else if a \<in> set as then (BadMatch, [], st)
      else case dixLookupProperty pol w a c (DixReadAccess OR DixWriteAccess) st of
             (rc, pProp, st1) \<Rightarrow>
               (case pProp of
                  None \<Rightarrow> (rc, [], st1)
                | Some p \<Rightarrow>
                    if rc \<noteq> Success then (rc, [], st1)
                    else case rotate_collect pol c w as st1 of
                           (rc2, ps, st2) \<Rightarrow> (rc2, p # ps, st2)))"

text \<open>\<open>while (delta < 0) delta += nAtoms;\<close>\<close>

function norm_delta :: "nat \<Rightarrow> int \<Rightarrow> int" where
  "norm_delta n delta = (if delta < 0 \<and> 0 < n then norm_delta n (delta + int n) else delta)"
  by auto
termination by (relation "measure (\<lambda>(n, delta). nat (- delta))") auto

declare norm_delta.simps [simp del]

fun rotate_move ::
    "xid \<Rightarrow> atom list \<Rightarrow> xprop list \<Rightarrow> nat \<Rightarrow> nat list \<Rightarrow> 'a srv_scheme \<Rightarrow> 'a srv_scheme" where
  "rotate_move w names saved delta [] st = st"
| "rotate_move w names saved delta (i # is) st =
     (let j = (i + delta) mod length names;
          st1 = deliverPropertyNotifyEvent w PropertyNewValue (names ! i) st;
          s = saved ! i;
          ps = upd_key propertyName (names ! j) (put_value (ptype s, pformat s, psize s, pdata s))
                 (win_props w st1)
      in rotate_move w names saved delta is (set_props w ps st1))"

definition sz_xRotatePropertiesReq :: nat where
  "sz_xRotatePropertiesReq = 12"

definition ProcRotateProperties ::
    "policy \<Rightarrow> client \<Rightarrow> nat \<Rightarrow> xid \<Rightarrow> int \<Rightarrow> atom list \<Rightarrow> 'a srv_scheme
       \<Rightarrow> xstatus \<times> 'a srv_scheme" where
  "ProcRotateProperties pol c req_len w nPositions names st =
     (let n = length names
      in if \<not> fixed_size sz_xRotatePropertiesReq (4 * n) req_len then (BadLength, st)
         else case dixLookupWindow pol c w DixSetPropAccess (UpdateCurrentTime st) of
                (rc, st1) \<Rightarrow>
                  if rc \<noteq> Success \<or> n = 0 then (rc, st1)
                  else case malloc st1 of (okp, st2) \<Rightarrow> case malloc st2 of (oks, st3) \<Rightarrow>
                    if \<not> okp \<or> \<not> oks then (BadAlloc, st3)
                    else case rotate_collect pol c w names st3 of
                           (rc2, saved, st4) \<Rightarrow>
                             if rc2 \<noteq> Success then (rc2, st4)
                             else if \<bar>nPositions\<bar> mod int n \<noteq> 0
                             then (rc2, rotate_move w names saved (nat (norm_delta n nPositions))
                                          [0..<n] st4)
                             else (rc2, st4))"

section \<open>The abstract view\<close>

interpretation props: keyed propertyName put_value
  by unfold_locales (simp add: put_value_def split: prod.split)

type_synonym pval = "atom \<times> nat \<times> byte list"

definition pview :: "xprop \<Rightarrow> pval" where
  "pview p = (ptype p, pformat p, pdata p)"

text \<open>What a client sees of a window: a map from property names to type, format and bytes.\<close>

definition wmap :: "xid \<Rightarrow> 'a srv_scheme \<Rightarrow> atom \<Rightarrow> pval option" where
  "wmap w st name = map_option pview (find_key propertyName name (win_props w st))"

definition prop_ok :: "xprop \<Rightarrow> bool" where
  "prop_ok p \<longleftrightarrow> pformat p \<in> {8, 16, 32} \<and> length (pdata p) = psize p * (pformat p div 8) \<and>
     length (pdata p) < 2 ^ 32"

definition win_ok :: "win \<Rightarrow> bool" where
  "win_ok pWin \<longleftrightarrow> props.uniq (userProps pWin) \<and> (\<forall>p \<in> set (userProps pWin). prop_ok p) \<and>
     (hasOptional pWin \<or> userProps pWin = [])"

definition props_inv :: "'a srv_scheme \<Rightarrow> bool" where
  "props_inv st \<longleftrightarrow> (\<forall>w pWin. wins st w = Some pWin \<longrightarrow> win_ok pWin)"

text \<open>The protocol's rule for the new value of a property.\<close>

fun change_spec :: "propmode \<Rightarrow> pval option \<Rightarrow> pval \<Rightarrow> pval" where
  "change_spec PropModeAppend (Some (t, f, d)) (_, _, new) = (t, f, d @ new)"
| "change_spec PropModePrepend (Some (t, f, d)) (_, _, new) = (t, f, new @ d)"
| "change_spec _ _ v = v"

lemma deliver_sel [simp]:
  "atoms (deliverPropertyNotifyEvent w s n st) = atoms st"
  "wins (deliverPropertyNotifyEvent w s n st) = wins st"
  "rootId (deliverPropertyNotifyEvent w s n st) = rootId st"
  "CurrentSelections (deliverPropertyNotifyEvent w s n st) = CurrentSelections st"
  "clientGone (deliverPropertyNotifyEvent w s n st) = clientGone st"
  "mallocs (deliverPropertyNotifyEvent w s n st) = mallocs st"
  by (simp_all add: deliverPropertyNotifyEvent_def Let_def UpdateCurrentTimeIf_def)

lemma sent_deliver:
  "sent (deliverPropertyNotifyEvent w s n st) =
     sent st @ [ToWindow w (PropertyNotify w s n (milliseconds (currentTime (UpdateCurrentTimeIf st))))]"
  by (simp add: deliverPropertyNotifyEvent_def Let_def UpdateCurrentTimeIf_def)

lemma unlink_sel [simp]:
  "sent (unlink_property w n st) = sent st" "atoms (unlink_property w n st) = atoms st"
  "currentTime (unlink_property w n st) = currentTime st"
  "CurrentSelections (unlink_property w n st) = CurrentSelections st"
  "rootId (unlink_property w n st) = rootId st" "clientGone (unlink_property w n st) = clientGone st"
  by (simp_all add: unlink_property_def Let_def split: option.split)

lemma malloc_sel:
  "malloc st = (b, st') \<Longrightarrow> wins st' = wins st \<and> atoms st' = atoms st \<and> sent st' = sent st \<and>
     CurrentSelections st' = CurrentSelections st \<and> currentTime st' = currentTime st \<and>
     rootId st' = rootId st \<and> clientGone st' = clientGone st"
  by (auto simp: malloc_def split: list.splits)

lemma wins_only:
  "wins st' = wins st \<Longrightarrow> win_props w st' = win_props w st"
  "wins st' = wins st \<Longrightarrow> wmap w st' = wmap w st"
  "wins st' = wins st \<Longrightarrow> props_inv st' \<longleftrightarrow> props_inv st"
  by (simp_all add: win_props_def wmap_def fun_eq_iff props_inv_def)

lemma props_invD: "props_inv st \<Longrightarrow> wins st w = Some pWin \<Longrightarrow> win_ok pWin"
  by (simp add: props_inv_def)

lemma win_props_inv:
  "props_inv st \<Longrightarrow> wins st w = Some pWin \<Longrightarrow> win_props w st = userProps pWin"
  using props_invD [of st w pWin] by (auto simp: win_props_def win_ok_def wUserProps_def)

lemma win_props_ok:
  "props_inv st \<Longrightarrow> props.uniq (win_props w st) \<and> (\<forall>p \<in> set (win_props w st). prop_ok p)"
  using props_invD [of st w]
  by (cases "wins st w") (auto simp: win_props_def wUserProps_def win_ok_def)

lemma props_inv_upd:
  "props_inv st \<Longrightarrow> win_ok pWin \<Longrightarrow> wins st' = (wins st)(w \<mapsto> pWin) \<Longrightarrow> props_inv st'"
  by (simp add: props_inv_def)

definition pmap :: "xprop list \<Rightarrow> atom \<Rightarrow> pval option" where
  "pmap ps name = map_option pview (find_key propertyName name ps)"

lemma wmap_upd:
  "wins st' = (wins st)(w \<mapsto> pWin) \<Longrightarrow>
     wmap w' st' = (if w' = w then pmap (wUserProps pWin) else wmap w' st)"
  by (simp add: wmap_def pmap_def win_props_def fun_eq_iff)

lemma wmap_pmap: "wmap w st = pmap (win_props w st)"
  by (simp add: wmap_def pmap_def fun_eq_iff)

lemma set_props_wins:
  "wins st w = Some pWin \<Longrightarrow>
     wins (set_props w ps st) = (wins st)(w \<mapsto> pWin\<lparr>userProps := ps\<rparr>)"
  by (simp add: set_props_def)

lemma set_props_wmap:
  "wins st w = Some pWin \<Longrightarrow> hasOptional pWin \<Longrightarrow>
     wmap w' (set_props w ps st) = (if w' = w then pmap ps else wmap w' st)"
  by (simp add: wmap_upd [OF set_props_wins] wUserProps_def)

lemma set_props_inv:
  "props_inv st \<Longrightarrow> wins st w = Some pWin \<Longrightarrow> hasOptional pWin \<Longrightarrow>
     props.uniq ps \<Longrightarrow> \<forall>p \<in> set ps. prop_ok p \<Longrightarrow> props_inv (set_props w ps st)"
  by (rule props_inv_upd [OF _ _ set_props_wins]) (simp_all add: win_ok_def)

lemma set_props_sel [simp]:
  "atoms (set_props w ps st) = atoms st" "mallocs (set_props w ps st) = mallocs st"
  "sent (set_props w ps st) = sent st" "currentTime (set_props w ps st) = currentTime st"
  "CurrentSelections (set_props w ps st) = CurrentSelections st"
  "rootId (set_props w ps st) = rootId st" "clientGone (set_props w ps st) = clientGone st"
  by (simp_all add: set_props_def split: option.split)

lemma MakeWindowOptional_cases:
  assumes "MakeWindowOptional w st = (ok, st')"
  obtains (same) "wins st' = wins st" "atoms st' = atoms st"
      "ok \<Longrightarrow> \<exists>pWin. wins st w = Some pWin \<and> hasOptional pWin"
  | (made) pWin where "wins st w = Some pWin" "\<not> hasOptional pWin" "ok" "atoms st' = atoms st"
      "wins st' = (wins st)(w \<mapsto> pWin\<lparr>hasOptional := True, userProps := []\<rparr>)"
proof -
  obtain b st1 where m: "malloc st = (b, st1)" by fastforce
  note sel = malloc_sel [OF m]
  consider "wins st w = None" | (opt) pWin where "wins st w = Some pWin" "hasOptional pWin"
    | (new) pWin where "wins st w = Some pWin" "\<not> hasOptional pWin" "b"
    | (oom) pWin where "wins st w = Some pWin" "\<not> hasOptional pWin" "\<not> b"
    by (cases "wins st w") auto
  then show thesis
  proof cases
    case 1
    then show thesis using assms by (intro same) (simp_all add: MakeWindowOptional_def)
  next
    case opt
    then show thesis using assms by (intro same) (simp_all add: MakeWindowOptional_def)
  next
    case new
    show thesis by (rule made [OF new(1,2)])
      (use new assms m sel in \<open>simp_all add: MakeWindowOptional_def\<close>, auto)
  next
    case oom
    then show thesis using assms m sel by (intro same) (simp_all add: MakeWindowOptional_def)
  qed
qed

lemma MakeWindowOptional_spec:
  assumes inv: "props_inv st" and mk: "MakeWindowOptional w st = (ok, st')"
  shows "props_inv st'" "wmap w' st' = wmap w' st" "atoms st' = atoms st"
    "ok \<Longrightarrow> \<exists>pWin. wins st' w = Some pWin \<and> hasOptional pWin"
proof -
  have "props_inv st' \<and> wmap w' st' = wmap w' st \<and> atoms st' = atoms st \<and>
      (ok \<longrightarrow> (\<exists>pWin. wins st' w = Some pWin \<and> hasOptional pWin))"
    using mk
  proof (cases rule: MakeWindowOptional_cases)
    case same
    then show ?thesis using inv by (simp add: wins_only [OF same(1)])
  next
    case (made pWin)
    have "wmap w st = pmap []" using made by (simp add: wmap_pmap win_props_def wUserProps_def)
    then have "wmap w' st' = wmap w' st" by (simp add: wmap_upd [OF made(5)] wUserProps_def)
    moreover have "props_inv st'" by (rule props_inv_upd [OF inv _ made(5)]) (simp add: win_ok_def)
    ultimately show ?thesis using made(4,5) by simp
  qed
  then show "props_inv st'" "wmap w' st' = wmap w' st" "atoms st' = atoms st"
    "ok \<Longrightarrow> \<exists>pWin. wins st' w = Some pWin \<and> hasOptional pWin" by simp_all
qed

section \<open>Effect of the operations on the abstract view\<close>

text \<open>\<open>kept\<close>: no property of any window changes; \<open>effect\<close>: exactly one of them does.\<close>

definition kept :: "'a srv_scheme \<Rightarrow> 'a srv_scheme \<Rightarrow> bool" where
  "kept st st' \<longleftrightarrow> props_inv st' \<and> (\<forall>w. wmap w st' = wmap w st) \<and> atoms st' = atoms st"

definition effect :: "'a srv_scheme \<Rightarrow> 'a srv_scheme \<Rightarrow> xid \<Rightarrow> atom \<Rightarrow> pval option \<Rightarrow> bool" where
  "effect st st' w name v \<longleftrightarrow>
     props_inv st' \<and> atoms st' = atoms st \<and>
     (\<forall>w'. wmap w' st' = (if w' = w then (wmap w st)(name := v) else wmap w' st))"

lemma kept_wins: "props_inv st \<Longrightarrow> wins st' = wins st \<Longrightarrow> atoms st' = atoms st \<Longrightarrow> kept st st'"
  using wins_only(2,3) [of st' st] by (simp add: kept_def)

lemma kept_inv: "kept st st' \<Longrightarrow> props_inv st'"
  by (simp add: kept_def)

lemma kept_trans: "kept st st1 \<Longrightarrow> kept st1 st2 \<Longrightarrow> kept st st2"
  by (simp add: kept_def)

lemma kept_effect: "kept st st1 \<Longrightarrow> effect st1 st2 w n v \<Longrightarrow> effect st st2 w n v"
  by (simp add: kept_def effect_def)

lemma effect_kept: "effect st st1 w n v \<Longrightarrow> kept st1 st2 \<Longrightarrow> effect st st2 w n v"
  by (simp add: kept_def effect_def)

lemma effect_inv: "effect st st' w n v \<Longrightarrow> props_inv st'"
  by (simp add: effect_def)

lemma malloc_kept: "props_inv st \<Longrightarrow> malloc st = (b, st') \<Longrightarrow> kept st st'"
  using malloc_sel [of st b st'] by (simp add: kept_wins)

lemma set_error_kept: "props_inv st \<Longrightarrow> kept st (set_error c v st)"
  by (simp add: kept_wins)

lemma send_kept: "props_inv st \<Longrightarrow> kept st (send m st)"
  by (simp add: kept_wins)

lemma deliver_kept: "props_inv st \<Longrightarrow> kept st (deliverPropertyNotifyEvent w s n st)"
  by (simp add: kept_wins)

lemma UpdateCurrentTime_kept: "props_inv st \<Longrightarrow> kept st (UpdateCurrentTime st)"
  by (simp add: kept_wins)

lemma MakeWindowOptional_kept:
  "props_inv st \<Longrightarrow> MakeWindowOptional w st = (ok, st') \<Longrightarrow> kept st st'"
  using MakeWindowOptional_spec(1,2,3) [of st w ok st'] by (simp add: kept_def)

lemma find_view: "wmap w st name = None \<longleftrightarrow> find_key propertyName name (win_props w st) = None"
  by (simp add: wmap_def)

lemma set_props_effect:
  assumes inv: "props_inv st" and w: "wins st w = Some pWin" "hasOptional pWin"
    and ps: "props.uniq ps" "\<forall>p \<in> set ps. prop_ok p"
    and m: "pmap ps = (wmap w st)(name := v)"
  shows "effect st (set_props w ps st) w name v"
  using set_props_inv [OF inv w ps] by (simp add: effect_def set_props_wmap [OF w] m)

lemma add_property_spec:
  assumes inv: "props_inv st" and new: "wmap w st property = None"
    and f: "format \<in> {8, 16, 32}" and len: "len * (format div 8) \<le> length value"
      "len * (format div 8) < 2 ^ 32"
    and add: "add_property pol c w property type format len value st = (rc, st')"
  shows "if rc = Success
    then effect st st' w property (Some (type, format, take (len * (format div 8)) value))
    else kept st st'"
proof -
  obtain o1 st1 where 1: "MakeWindowOptional w st = (o1, st1)" by fastforce
  obtain o2 st2 where 2: "malloc st1 = (o2, st2)" by fastforce
  obtain o3 st3 where 3: "malloc st2 = (o3, st3)" by fastforce
  let ?d = "take (len * (format div 8)) value"
  let ?p = "\<lparr>propertyName = property, ptype = type, pformat = format, psize = len mod 2 ^ 32, pdata = ?d\<rparr>"
  have k1: "kept st st1" by (rule MakeWindowOptional_kept [OF inv 1])
  then have k2: "kept st st2" using malloc_kept [OF kept_inv 2] kept_trans by blast
  then have k3: "kept st st3" using malloc_kept [OF kept_inv 3] kept_trans by blast
  note inv3 = kept_inv [OF k3]
  show ?thesis
  proof (cases "rc = Success")
    case True
    with add 1 2 3 have o1 and st': "st' = set_props w (?p # win_props w st3) st3"
      by (auto simp: add_property_def Let_def split: if_splits bool.splits)
    from MakeWindowOptional_spec(4) [OF inv 1 this(1)] obtain pWin
      where w: "wins st3 w = Some pWin" "hasOptional pWin"
      using malloc_sel [OF 2] malloc_sel [OF 3] by auto
    have "len < 2 ^ 32" using f len(2) by auto
    then have ok: "prop_ok ?p" using f len by (simp add: prop_ok_def min_def)
    have "wmap w st3 property = None" using k3 new by (simp add: kept_def)
    then have "effect st3 st' w property (Some (type, format, ?d))"
      unfolding st' using ok win_props_ok [OF inv3, of w]
      by (intro set_props_effect [OF inv3 w])
        (auto simp: props.uniq_Cons find_view pmap_def pview_def wmap_def fun_eq_iff)
    with True show ?thesis using kept_effect [OF k3] by simp
  next
    case False
    with add 1 2 3 have "st' = st1 \<or> st' = st2 \<or> st' = st3 \<or> st' = set_error c property st3"
      by (auto simp: add_property_def Let_def split: if_splits bool.splits)
    with False show ?thesis using k1 k2 k3 kept_trans [OF k3 set_error_kept [OF inv3]] by auto
  qed
qed

lemma changed_value_spec:
  assumes p: "prop_ok p" and f: "format \<in> {8, 16, 32}" and len: "len * (format div 8) \<le> length value"
    and match: "mode \<noteq> PropModeReplace \<Longrightarrow> format = pformat p"
    and fits: "length (snd (snd (change_spec mode (Some (pview p))
                 (type, format, take (len * (format div 8)) value)))) < 2 ^ 32"
    and cv: "changed_value p type format mode len value st = (Some u, st')"
  shows "prop_ok (put_value u p)"
    and "pview (put_value u p) =
      change_spec mode (Some (pview p)) (type, format, take (len * (format div 8)) value)"
proof -
  let ?b = "format div 8"
  have b: "1 \<le> ?b" using f by auto
  have lt: "n < 2 ^ 32" if "n * ?b < 2 ^ 32" for n
    using that b by (metis le_less_trans mult.right_neutral mult_le_mono2)
  have "prop_ok (put_value u p) \<and> pview (put_value u p) =
      change_spec mode (Some (pview p)) (type, format, take (len * ?b) value)"
  proof (cases mode)
    case PropModeReplace
    with cv len fits lt [of len] f show ?thesis
      by (auto simp: changed_value_def Let_def put_value_def pview_def prop_ok_def min_def
          split: prod.splits if_splits)
  next
    case PropModePrepend
    with cv len fits lt [of "psize p + len"] match p show ?thesis
      by (auto simp: changed_value_def Let_def put_value_def pview_def prop_ok_def min_def
          add_mult_distrib ac_simps split: prod.splits if_splits)
  next
    case PropModeAppend
    with cv len fits lt [of "psize p + len"] match p show ?thesis
      by (auto simp: changed_value_def Let_def put_value_def pview_def prop_ok_def min_def
          add_mult_distrib ac_simps split: prod.splits if_splits)
  qed
  then show "prop_ok (put_value u p)" and "pview (put_value u p) =
      change_spec mode (Some (pview p)) (type, format, take (len * ?b) value)" by simp_all
qed

lemma upd_key_set: "p \<in> set (upd_key key k f es) \<Longrightarrow> p \<in> set es \<or> (\<exists>e \<in> set es. key e = k \<and> p = f e)"
  by (induction es) (auto split: if_splits)

lemma upd_key_find:
  "find_key key k es = Some e \<Longrightarrow> p \<in> set (upd_key key k f es) \<Longrightarrow> p \<in> set es \<or> p = f e"
  by (induction es) (auto split: if_splits)

lemma changed_value_kept:
  assumes inv: "props_inv st" and cv: "changed_value p type format mode len value st = (u, st')"
  shows "wins st' = wins st" "kept st st'"
proof -
  obtain b st1 where m: "malloc st = (b, st1)" by fastforce
  with cv have "st' = st \<or> st' = st1"
    by (auto simp: changed_value_def Let_def split: if_splits)
  then show "wins st' = wins st" "kept st st'"
    using malloc_sel [OF m] malloc_kept [OF inv m] kept_wins [OF inv, of st] by auto
qed

lemma update_property_spec:
  assumes inv: "props_inv st" and p: "find_key propertyName property (win_props w st) = Some p"
    and f: "format \<in> {8, 16, 32}" and len: "len * (format div 8) \<le> length value"
    and fits: "length (snd (snd (change_spec mode (wmap w st property)
                 (type, format, take (len * (format div 8)) value)))) < 2 ^ 32"
    and upd: "update_property pol c w p property type format mode len value am st = (rc, st')"
  shows "if rc = Success
    then effect st st' w property (Some (change_spec mode (wmap w st property)
           (type, format, take (len * (format div 8)) value)))
    else kept st st'"
proof -
  obtain u st1 where cv: "changed_value p type format mode len value st = (u, st1)" by fastforce
  note k1 = changed_value_kept(2) [OF inv cv]
  have wp: "win_props w st1 = win_props w st"
    by (rule wins_only(1) [OF changed_value_kept(1) [OF inv cv]])
  have view: "wmap w st property = Some (pview p)" by (simp add: wmap_def p)
  show ?thesis
  proof (cases "rc = Success")
    case True
    with upd cv obtain u' where u: "u = Some u'"
      and st': "st' = set_props w (upd_key propertyName property (put_value u') (win_props w st1)) st1"
      and m: "mode \<noteq> PropModeReplace \<Longrightarrow> format = pformat p"
      by (auto simp: update_property_def Let_def split: if_splits option.splits)
    let ?ps = "upd_key propertyName property (put_value u') (win_props w st)"
    have "p \<in> set (win_props w st)" using props.find_some_key [OF p] by simp
    then have "prop_ok p" using win_props_ok [OF inv] by blast
    note cvs = changed_value_spec [OF this f len m fits [unfolded view] cv [unfolded u]]
    obtain pWin where w: "wins st1 w = Some pWin" "hasOptional pWin"
      using p wp by (auto simp: win_props_def wUserProps_def split: option.splits if_splits)
    have "effect st1 st' w property (Some (change_spec mode (wmap w st property)
           (type, format, take (len * (format div 8)) value)))"
      unfolding st' wp
    proof (rule set_props_effect [OF kept_inv [OF k1] w])
      show "props.uniq ?ps" using win_props_ok [OF inv] by (simp add: props.uniq_touch)
      show "\<forall>q \<in> set ?ps. prop_ok q"
        using upd_key_find [OF p] cvs(1) win_props_ok [OF inv, of w] by blast
      show "pmap ?ps = (wmap w st1)(property := Some (change_spec mode (wmap w st property)
           (type, format, take (len * (format div 8)) value)))"
        using p cvs(2) wp by (auto simp: pmap_def wmap_def fun_eq_iff props.find_touch)
    qed
    with True show ?thesis using kept_effect [OF k1] by simp
  next
    case False
    with upd cv have "st' = st \<or> st' = st1"
      by (auto simp: update_property_def Let_def split: if_splits option.splits)
    with False k1 show ?thesis using kept_wins [OF inv, of st] by auto
  qed
qed

text \<open>
  The access control never answers with the status that means "no such property" (the hooks
  return \<open>Success\<close>, \<open>BadAccess\<close>, \<open>BadAlloc\<close> or \<open>BadValue\<close>).
\<close>

definition pol_ok :: "policy \<Rightarrow> bool" where
  "pol_ok pol \<longleftrightarrow> (\<forall>c ob m. pol c ob m \<noteq> BadMatch)"

lemma change_spec_None: "change_spec mode None v = v"
  by (cases mode) auto

lemma dixChange_spec:
  assumes inv: "props_inv st" and pol: "pol_ok pol"
    and f: "format \<in> {8, 16, 32}" and len: "len * (format div 8) \<le> length value"
    and fits: "length (snd (snd (change_spec mode (wmap w st property)
                 (type, format, take (len * (format div 8)) value)))) < 2 ^ 32"
    and ch: "dixChangeWindowProperty pol c w property type format mode len value ev st = (rc, st')"
  shows "if rc = Success
    then effect st st' w property (Some (change_spec mode (wmap w st property)
           (type, format, take (len * (format div 8)) value)))
    else kept st st'"
proof -
  let ?am = "if mode = PropModeReplace then DixWriteAccess else DixBlendAccess"
  let ?st1 = "set_error c property st"
  let ?v = "change_spec mode (wmap w st property) (type, format, take (len * (format div 8)) value)"
  note k1 = set_error_kept [OF inv, of c property] and inv1 = kept_inv [OF set_error_kept [OF inv]]
  have wm: "wmap w ?st1 = wmap w st" "win_props w ?st1 = win_props w st"
    by (simp_all add: wmap_def win_props_def fun_eq_iff)
  have step: "?thesis" if mid: "if rc2 = Success then effect ?st1 st2 w property (Some ?v) else kept ?st1 st2"
    and res: "(rc, st') = (if rc2 \<noteq> Success then (rc2, st2)
                else if ev then (Success, deliverPropertyNotifyEvent w PropertyNewValue property st2)
                else (Success, st2))" for rc2 st2
    using mid res kept_effect [OF k1, of st2 w property "Some ?v"] kept_trans [OF k1, of st2]
      effect_kept [OF _ deliver_kept [OF effect_inv]]
    by (auto split: if_splits)
  show ?thesis
  proof (cases "find_key propertyName property (win_props w st)")
    case None
    obtain rc2 st2 where add: "add_property pol c w property type format len value ?st1 = (rc2, st2)"
      by fastforce
    have new: "wmap w ?st1 property = None" using None wm by (simp add: wmap_def)
    have "len * (format div 8) < 2 ^ 32" "?v = (type, format, take (len * (format div 8)) value)"
      using fits new wm len by (auto simp: change_spec_None)
    with add_property_spec [OF inv1 new f len _ add]
    have "if rc2 = Success then effect ?st1 st2 w property (Some ?v) else kept ?st1 st2" by simp
    then show ?thesis
      by (rule step) (use ch add None in \<open>simp add: dixChangeWindowProperty_def dixLookupProperty_def Let_def\<close>)
  next
    case (Some p)
    show ?thesis
    proof (cases "pol c (OProp w property) ?am = Success")
      case True
      obtain rc2 st2 where upd:
        "update_property pol c w p property type format mode len value ?am ?st1 = (rc2, st2)" by fastforce
      from update_property_spec [OF inv1 _ f len _ upd, unfolded wm] Some fits
      have "if rc2 = Success then effect ?st1 st2 w property (Some ?v) else kept ?st1 st2" by simp
      then show ?thesis
        by (rule step) (use ch upd Some True in \<open>simp add: dixChangeWindowProperty_def
            dixLookupProperty_def Let_def split: if_splits\<close>)
    next
      case False
      with pol Some ch have "rc \<noteq> Success" "st' = ?st1"
        by (auto simp: dixChangeWindowProperty_def dixLookupProperty_def Let_def pol_ok_def
            split: if_splits)
      then show ?thesis using k1 by simp
    qed
  qed
qed

lemma unlink_property_effect:
  assumes inv: "props_inv st" shows "effect st (unlink_property w name st) w name None"
proof (cases "wins st w")
  case None
  then have "wmap w st = (wmap w st)(name := None)"
    by (simp add: wmap_def win_props_def fun_eq_iff)
  with None inv show ?thesis by (simp add: unlink_property_def effect_def)
next
  case (Some pWin)
  let ?w1 = "pWin\<lparr>userProps := del_key propertyName name (userProps pWin)\<rparr>"
  define w2 where "w2 = (if userProps ?w1 = [] then CheckWindowOptionalNeed ?w1 else ?w1)"
  have st': "wins (unlink_property w name st) = (wins st)(w \<mapsto> w2)"
    "atoms (unlink_property w name st) = atoms st"
    using Some by (simp_all add: unlink_property_def Let_def w2_def)
  have ok: "win_ok pWin" by (rule props_invD [OF inv Some])
  then have "win_ok ?w1"
    using props.set_del [of name "userProps pWin"] props.uniq_del [of "userProps pWin"]
    by (auto simp: win_ok_def)
  then have "win_ok w2" by (auto simp: w2_def win_ok_def CheckWindowOptionalNeed_def)
  then have "props_inv (unlink_property w name st)" by (rule props_inv_upd [OF inv _ st'(1)])
  moreover have "wUserProps w2 = del_key propertyName name (win_props w st)"
    using ok win_props_inv [OF inv Some] 
    by (auto simp: w2_def wUserProps_def CheckWindowOptionalNeed_def win_ok_def)
  then have "pmap (wUserProps w2) = (wmap w st)(name := None)"
    using win_props_ok [OF inv, of w] by (auto simp: pmap_def wmap_def fun_eq_iff props.find_del)
  ultimately show ?thesis by (simp add: effect_def st' wmap_upd [OF st'(1)])
qed

section \<open>Changing properties\<close>

lemma fixed_size_avail:
  "fixed_size sz n req_len \<Longrightarrow> avail + sz = 4 * req_len \<Longrightarrow> n \<le> avail"
  unfolding fixed_size_def by (auto; presburger)

lemma change_spec_length:
  "length (snd (snd (change_spec mode old (t, f, d)))) \<le>
     (case old of None \<Rightarrow> 0 | Some (_, _, e) \<Rightarrow> length e) + length d"
  by (cases mode; cases old) (auto split: prod.splits)

lemma dixLookupWindow_kept:
  "props_inv st \<Longrightarrow> dixLookupWindow pol c w m st = (rc, st') \<Longrightarrow> kept st st'"
  using dixLookupWindow_frame [of pol c w m st] by (simp add: kept_wins)


definition allow :: policy where
  "allow c ob m = Success"

lemma allow_ok: "pol_ok allow"
  by (simp add: pol_ok_def allow_def)

lemma srv0_inv: "props_inv srv0"
  by (simp add: props_inv_def srv0_def win_ok_def)

definition change_req0 :: change_req where
  "change_req0 = \<lparr>cp_mode = 0, cp_window = 1, cp_property = 1, cp_type = 1, cp_format = 8, cp_nUnits = 4,
     cp_data = [1, 2, 3, 4]\<rparr>"

lemma one_atom_valid: "ValidAtom 1 one_atom"
  using lookup_atom_named [OF one_atom_inv] by simp

lemmas change_ops = ProcChangeProperty_def at_least_size_def fixed_size_def sz_xChangePropertyReq_def
  prop_mode_def bytes_to_int32_def dixLookupWindow_def dixChangeWindowProperty_def
  dixLookupProperty_def add_property_def MakeWindowOptional_def malloc_def win_props_def wUserProps_def

lemma change_req0_Success: "fst (ProcChangeProperty allow 3 7 change_req0 srv0) = Success"
  by (simp add: change_ops change_req0_def srv0_def one_atom_valid allow_def Let_def)


section \<open>Reading properties\<close>

lemma getprop_slice_eq:
  assumes "prop_ok p"
  shows "getprop_slice p off len =
    (let ind = unat (push_bit 2 off); n = min (length (pdata p) - ind) (unat (4 * len))
     in if length (pdata p) < ind then None
        else Some \<lparr>r_format = pformat p, r_propertyType = ptype p,
                   r_bytesAfter = length (pdata p) - (ind + n), r_length = bytes_to_int32 n,
                   r_nItems = n div (pformat p div 8), r_data = take n (drop ind (pdata p))\<rparr>)"
proof -
  have "(pformat p div 8 * psize p) mod 2 ^ 32 = length (pdata p)"
    using assms by (simp add: prop_ok_def mult.commute)
  then show ?thesis by (simp add: getprop_slice_def Let_def)
qed

text \<open>What the last message of the log, a GetProperty reply, carries.\<close>

definition last_reply :: "'a srv_scheme \<Rightarrow> getprop_reply option" where
  "last_reply st = (if sent st = [] then None
     else case last (sent st) of ToReply _ (GetPropertyReply r) \<Rightarrow> Some r | _ \<Rightarrow> None)"

lemma last_reply_send [simp]: "last_reply (send (ToReply c (GetPropertyReply r)) st) = Some r"
  by (simp add: last_reply_def)

lemma wmap_SomeE:
  assumes "props_inv st" and "wmap w st name = Some (t, f, d)"
  obtains p where "find_key propertyName name (win_props w st) = Some p" "prop_ok p"
    "ptype p = t" "pformat p = f" "pdata p = d" "wins st w \<noteq> None"
proof -
  from assms(2) obtain p where p: "find_key propertyName name (win_props w st) = Some p"
    and v: "pview p = (t, f, d)" by (auto simp: wmap_def)
  have "p \<in> set (win_props w st)" using props.find_some_key [OF p] by simp
  then have "prop_ok p" using win_props_ok [OF assms(1)] by blast
  moreover have "wins st w \<noteq> None" using p by (auto simp: win_props_def split: option.splits)
  ultimately show thesis using that p v by (simp add: pview_def)
qed

lemma ProcGetProperty_any:
  assumes "props_inv st" and "wmap w st name = Some (t, f, d)" and "ValidAtom name (atoms st)"
    and "unat (push_bit 2 off) \<le> length d"
  shows "\<exists>rep st'. ProcGetProperty allow c \<lparr>gp_delete = 0, gp_window = w, gp_property = name,
      gp_type = 0, gp_longOffset = off, gp_longLength = len\<rparr> st = (Success, st') \<and>
    last_reply st' = Some rep \<and> r_format rep = f \<and> r_propertyType rep = t \<and>
    r_data rep = take (unat (4 * len)) (drop (unat (push_bit 2 off)) d) \<and>
    r_bytesAfter rep = length d - unat (push_bit 2 off) - length (r_data rep)"
proof -
  from assms(1,2) obtain p where p: "find_key propertyName name (win_props w st) = Some p" "prop_ok p"
    "ptype p = t" "pformat p = f" "pdata p = d" "wins st w \<noteq> None" by (rule wmap_SomeE)
  have wp: "win_props w (set_error c' v st) = win_props w st" for c' v by (simp add: win_props_def)
  obtain win where w: "wins st w = Some win" using p(6) by blast
  from p w wp assms(3,4) show ?thesis
    by (simp add: ProcGetProperty_def dixLookupWindow_def allow_def dixLookupProperty_def
        getprop_slice_eq Let_def min_def)
qed

lemma concat_chunks: "concat (map (\<lambda>i. take c (drop (c * i) xs)) [0..<k]) = take (c * k) xs"
  by (induction k) (simp_all add: take_add [symmetric] add.commute)

lemma unat_shift2: "4 * k < 2 ^ 32 \<Longrightarrow> unat (push_bit 2 (of_nat k :: u32)) = 4 * k"
  by (simp add: push_bit_eq_mult unat_word_ariths unat_of_nat mod_mult_left_eq mult.commute)

text \<open>C9: A client that reads a property in successive pieces of \<open>4 * n\<close> bytes, as clients with
  bounded requests do, and joins the pieces gets exactly the bytes stored in the property.\<close>

theorem GetProperty_chunks:
  assumes "props_inv st" and "wmap w st name = Some (t, f, d)" and "ValidAtom name (atoms st)"
    and "0 < n" and "4 * n < 2 ^ 32" and "length d \<le> 4 * n * k" and "4 * n * (k - 1) \<le> length d"
  shows "concat (map (\<lambda>i. r_data (the (last_reply (snd (ProcGetProperty allow c
      \<lparr>gp_delete = 0, gp_window = w, gp_property = name, gp_type = 0,
       gp_longOffset = of_nat (n * i), gp_longLength = of_nat n\<rparr> st))))) [0..<k]) = d"
proof -
  from assms(1,2) have lt: "length d < 2 ^ 32" by (rule wmap_SomeE) (simp add: prop_ok_def)
  have len: "unat (4 * (of_nat n :: u32)) = 4 * n"
    using assms(5) by (simp add: unat_word_ariths unat_of_nat mod_mult_right_eq)
  have "r_data (the (last_reply (snd (ProcGetProperty allow c
      \<lparr>gp_delete = 0, gp_window = w, gp_property = name, gp_type = 0,
       gp_longOffset = of_nat (n * i), gp_longLength = of_nat n\<rparr> st)))) = take (4 * n) (drop (4 * n * i) d)"
    if "i < k" for i
  proof -
    have "i \<le> k - 1" using that by simp
    then have "4 * n * i \<le> length d" using assms(7) mult_le_mono2 order_trans by blast
    then have "4 * (n * i) < 2 ^ 32" using lt by (metis le_less_trans mult.assoc)
    then have off: "unat (push_bit 2 (of_nat (n * i) :: u32)) = 4 * n * i"
      unfolding mult.assoc by (rule unat_shift2)
    from \<open>4 * n * i \<le> length d\<close> ProcGetProperty_any [OF assms(1-3), of "of_nat (n * i)" c "of_nat n"]
    show ?thesis unfolding off len by auto
  qed
  then have "map (\<lambda>i. r_data (the (last_reply (snd (ProcGetProperty allow c
      \<lparr>gp_delete = 0, gp_window = w, gp_property = name, gp_type = 0,
       gp_longOffset = of_nat (n * i), gp_longLength = of_nat n\<rparr> st))))) [0..<k] =
      map (\<lambda>i. take (4 * n) (drop (4 * n * i) d)) [0..<k]" by (intro map_cong) auto
  then show ?thesis by (simp only: concat_chunks take_all [OF assms(6)])
qed

definition srv1 :: srv where
  "srv1 = srv0\<lparr>wins := [1 \<mapsto> \<lparr>hasOptional = True, otherOptional = True,
     userProps = [\<lparr>propertyName = 1, ptype = 1, pformat = 8, psize = 6, pdata = [1, 2, 3, 4, 5, 6]\<rparr>]\<rparr>]\<rparr>"

lemma srv1_inv: "props_inv srv1" "wmap 1 srv1 1 = Some (1, 8, [1, 2, 3, 4, 5, 6])" "ValidAtom 1 (atoms srv1)"
  using one_atom_valid
  by (simp_all add: srv1_def props_inv_def win_ok_def props.uniq_Cons prop_ok_def srv0_def
      wmap_def win_props_def wUserProps_def pview_def)

theorem GetProperty_chunks_witness:
  "concat (map (\<lambda>i. r_data (the (last_reply (snd (ProcGetProperty allow 3
      \<lparr>gp_delete = 0, gp_window = 1, gp_property = 1, gp_type = 0,
       gp_longOffset = of_nat (1 * i), gp_longLength = of_nat 1\<rparr> srv1))))) [0..<2]) = [1, 2, 3, 4, 5, 6]"
  by (rule GetProperty_chunks [OF srv1_inv]) simp_all

lemma ProcGetProperty_cases:
  fixes c :: client and r :: get_req and st :: "'a srv_scheme"
  defines "w \<equiv> gp_window r" and "n \<equiv> gp_property r"
  defines "st1 \<equiv> set_error c w (if gp_delete r \<noteq> 0 then UpdateCurrentTime st else st)"
  defines "st2 \<equiv> set_error c n st1"
  assumes get: "ProcGetProperty pol c r st = (rc, st')"
  shows "(\<exists>v. st' = st1 \<or> st' = set_error c v st1 \<or> st' = st2 \<or> st' = set_error c v st2) \<or>
    (\<exists>rep. st' = send (ToReply c (GetPropertyReply rep)) st2) \<or>
    (\<exists>p rep. rc = Success \<and> gp_delete r = 1 \<and> find_key propertyName n (win_props w st1) = Some p \<and>
       getprop_slice p (gp_longOffset r) (gp_longLength r) = Some rep \<and> r_bytesAfter rep = 0 \<and>
       st' = unlink_property w n (send (ToReply c (GetPropertyReply rep))
               (deliverPropertyNotifyEvent w PropertyDelete n st2)))"
proof -
  obtain rc1 where lw: "dixLookupWindow pol c w
      (if gp_delete r \<noteq> 0 then DixGetPropAccess OR DixSetPropAccess else DixGetPropAccess)
      (if gp_delete r \<noteq> 0 then UpdateCurrentTime st else st) = (rc1, st1)"
    by (metis dixLookupWindow_frame prod.collapse st1_def)
  show ?thesis
    using get unfolding ProcGetProperty_def Let_def w_def [symmetric] n_def [symmetric] lw prod.case
      dixLookupProperty_def st2_def [symmetric] NullPropertyReply_def
    by (simp split: if_splits option.splits) blast+
qed


definition get_del0 :: get_req where
  "get_del0 = \<lparr>gp_delete = 1, gp_window = 1, gp_property = 1, gp_type = 0, gp_longOffset = 1,
     gp_longLength = 8\<rparr>"


section \<open>Deleting properties\<close>

lemma DeleteProperty_spec:
  assumes inv: "props_inv st" and pol: "pol_ok pol" and del: "DeleteProperty pol c w name st = (rc, st')"
  shows "if rc = Success then effect st st' w name None else kept st st'"
proof -
  let ?st1 = "set_error c name st"
  note k1 = set_error_kept [OF inv, of c name]
  show ?thesis
  proof (cases "find_key propertyName name (win_props w st)")
    case None
    then have "rc = Success" "st' = ?st1" "wmap w st name = None"
      using del by (auto simp: DeleteProperty_def dixLookupProperty_def Let_def wmap_def)
    then show ?thesis using k1 by (auto simp: kept_def effect_def)
  next
    case (Some p)
    show ?thesis
    proof (cases "pol c (OProp w name) DixDestroyAccess = Success")
      case True
      have "effect st (unlink_property w name ?st1) w name None"
        by (rule kept_effect [OF k1 unlink_property_effect [OF kept_inv [OF k1]]])
      from effect_kept [OF this deliver_kept [OF effect_inv [OF this]]]
      show ?thesis using del Some True
        by (auto simp: DeleteProperty_def dixLookupProperty_def Let_def)
    next
      case False
      then have "rc \<noteq> Success" "st' = ?st1"
        using del Some pol by (auto simp: DeleteProperty_def dixLookupProperty_def Let_def pol_ok_def)
      then show ?thesis using k1 by simp
    qed
  qed
qed

lemma ProcDeleteProperty_spec:
  assumes inv: "props_inv st" and pol: "pol_ok pol" and del: "ProcDeleteProperty pol c w name st = (rc, st')"
  shows "if rc = Success then effect st st' w name None else kept st st'"
proof -
  let ?st0 = "UpdateCurrentTime st"
  obtain rc1 st1 where lw: "dixLookupWindow pol c w DixSetPropAccess ?st0 = (rc1, st1)" by fastforce
  note k0 = UpdateCurrentTime_kept [OF inv]
  note k1 = kept_trans [OF k0 dixLookupWindow_kept [OF kept_inv [OF k0] lw]]
  consider "rc \<noteq> Success" "st' = st1 \<or> st' = set_error c name st1"
    | "DeleteProperty pol c w name st1 = (rc, st')"
    using del lw by (auto simp: ProcDeleteProperty_def split: if_splits)
  then show ?thesis
  proof cases
    case 1
    then show ?thesis using k1 kept_trans [OF k1 set_error_kept [OF kept_inv [OF k1]]] by auto
  next
    case 2
    from DeleteProperty_spec [OF kept_inv [OF k1] pol this] show ?thesis
      using kept_effect [OF k1] kept_trans [OF k1] by (auto split: if_splits)
  qed
qed

lemma fold_deliver_kept:
  "props_inv st \<Longrightarrow> kept st (fold (\<lambda>p. deliverPropertyNotifyEvent w s (propertyName p)) ps st)"
proof (induction ps arbitrary: st)
  case Nil
  then show ?case by (simp add: kept_wins)
next
  case (Cons p ps)
  from deliver_kept [OF Cons.prems] show ?case
    using Cons.IH kept_inv kept_trans by fastforce
qed

lemma DeleteAllWindowProperties_spec:
  assumes inv: "props_inv st" and w: "wins st w = Some pWin"
  shows "props_inv (DeleteAllWindowProperties w st) \<and>
    wmap w' (DeleteAllWindowProperties w st) = (if w' = w then \<lambda>_. None else wmap w' st)"
proof -
  let ?st1 = "fold (\<lambda>p. deliverPropertyNotifyEvent w PropertyDelete (propertyName p)) (win_props w st) st"
  have wins: "wins (fold (\<lambda>p. deliverPropertyNotifyEvent w PropertyDelete (propertyName p)) ps s) = wins s"
    for ps and s :: "'a srv_scheme" by (induction ps arbitrary: s) simp_all
  have st': "wins (DeleteAllWindowProperties w st) = (wins st)(w \<mapsto> pWin\<lparr>userProps := []\<rparr>)"
    using w by (simp add: DeleteAllWindowProperties_def set_props_def wins)
  have "pmap (wUserProps (pWin\<lparr>userProps := []\<rparr>)) = (\<lambda>_. None)"
    by (simp add: pmap_def wUserProps_def fun_eq_iff)
  moreover have "props_inv (DeleteAllWindowProperties w st)"
    by (rule props_inv_upd [OF inv _ st']) (simp add: win_ok_def)
  ultimately show ?thesis by (simp add: wmap_upd [OF st'])
qed

section \<open>Rotating properties\<close>

lemma norm_delta_spec:
  "0 < n \<Longrightarrow> 0 \<le> norm_delta n d \<and> norm_delta n d mod int n = d mod int n"
proof (induction n d rule: norm_delta.induct)
  case (1 n d)
  then show ?case
    by (cases "d < 0") (simp_all add: norm_delta.simps [of n d])
qed

lemma rotate_collect_spec:
  assumes "props_inv st" and "rotate_collect pol c w names st = (rc, saved, st')"
  shows "kept st st'" "wins st' = wins st"
    "rc = Success \<Longrightarrow> distinct names \<and> length saved = length names \<and>
       (\<forall>i < length names. find_key propertyName (names ! i) (win_props w st) = Some (saved ! i))"
proof -
  have "kept st st' \<and> wins st' = wins st \<and> (rc = Success \<longrightarrow> distinct names \<and> length saved = length names \<and>
       (\<forall>i < length names. find_key propertyName (names ! i) (win_props w st) = Some (saved ! i)))"
    using assms
  proof (induction names arbitrary: st saved)
    case Nil
    then show ?case by (auto simp: kept_wins)
  next
    case (Cons a as)
    let ?st1 = "set_error c a st"
    note k1 = set_error_kept [OF Cons.prems(1), of c a]
    have refl: "kept st st" by (rule kept_wins [OF Cons.prems(1)]) auto
    have wp: "win_props w ?st1 = win_props w st" by (simp add: win_props_def)
    consider (stop) "rc \<noteq> Success" "st' = st \<or> st' = ?st1"
      | (go) p ps where "find_key propertyName a (win_props w st) = Some p" "a \<notin> set as"
          "saved = p # ps" "rotate_collect pol c w as ?st1 = (rc, ps, st')"
      using Cons.prems(2)
      by (auto simp: dixLookupProperty_def Let_def split: if_splits option.splits prod.splits)
    then show ?case
    proof cases
      case stop
      then show ?thesis using k1 refl by auto
    next
      case go
      from Cons.IH [OF kept_inv [OF k1] go(4)] show ?thesis
        using go(1-3) kept_trans [OF k1] by (auto simp: wp nth_Cons split: nat.split)
    qed
  qed
  then show "kept st st'" "wins st' = wins st"
    "rc = Success \<Longrightarrow> distinct names \<and> length saved = length names \<and>
       (\<forall>i < length names. find_key propertyName (names ! i) (win_props w st) = Some (saved ! i))" by auto
qed

text \<open>The map after the moves of the indices \<open>is\<close>.\<close>

fun moved :: "atom list \<Rightarrow> xprop list \<Rightarrow> nat \<Rightarrow> nat list \<Rightarrow> (atom \<Rightarrow> pval option) \<Rightarrow> atom \<Rightarrow> pval option" where
  "moved names saved delta [] m = m"
| "moved names saved delta (i # is) m =
     moved names saved delta is (m(names ! ((i + delta) mod length names) := Some (pview (saved ! i))))"

lemma put_saved: "pview (put_value (ptype s, pformat s, psize s, pdata s) p) = pview s"
    "prop_ok s \<Longrightarrow> prop_ok (put_value (ptype s, pformat s, psize s, pdata s) p)"
  by (simp_all add: pview_def put_value_def prop_ok_def)

lemma rotate_step:
  assumes inv: "props_inv st" and s: "prop_ok s" and here: "wmap w st name \<noteq> None"
  shows "effect st (set_props w (upd_key propertyName name
      (put_value (ptype s, pformat s, psize s, pdata s)) (win_props w st)) st) w name (Some (pview s))"
proof -
  let ?u = "(ptype s, pformat s, psize s, pdata s)"
  obtain p where p: "find_key propertyName name (win_props w st) = Some p"
    using here by (auto simp: wmap_def)
  obtain pWin where w: "wins st w = Some pWin" "hasOptional pWin"
    using p by (auto simp: win_props_def wUserProps_def split: option.splits if_splits)
  show ?thesis
  proof (rule set_props_effect [OF inv w])
    show "props.uniq (upd_key propertyName name (put_value ?u) (win_props w st))"
      using win_props_ok [OF inv] by (simp add: props.uniq_touch)
    show "\<forall>q \<in> set (upd_key propertyName name (put_value ?u) (win_props w st)). prop_ok q"
      using upd_key_find [OF p] put_saved(2) [OF s] win_props_ok [OF inv, of w] by blast
    show "pmap (upd_key propertyName name (put_value ?u) (win_props w st)) =
        (wmap w st)(name := Some (pview s))"
      using p by (auto simp: pmap_def wmap_def fun_eq_iff props.find_touch put_saved(1))
  qed
qed

lemma rotate_move_spec:
  assumes "props_inv st" and "\<forall>s \<in> set saved. prop_ok s" and "length saved = length names"
    and "\<forall>n \<in> set names. wmap w st n \<noteq> None" and "\<forall>i \<in> set is. i < length names"
  shows "props_inv (rotate_move w names saved delta is st) \<and>
    atoms (rotate_move w names saved delta is st) = atoms st \<and>
    (\<forall>w'. wmap w' (rotate_move w names saved delta is st) =
       (if w' = w then moved names saved delta is (wmap w st) else wmap w' st))"
  using assms
proof (induction "is" arbitrary: st)
  case (Cons i "is")
  let ?j = "names ! ((i + delta) mod length names)"
  let ?st1 = "deliverPropertyNotifyEvent w PropertyNewValue (names ! i) st"
  let ?s = "saved ! i"
  let ?st2 = "set_props w (upd_key propertyName ?j
      (put_value (ptype ?s, pformat ?s, psize ?s, pdata ?s)) (win_props w ?st1)) ?st1"
  note k1 = deliver_kept [OF Cons.prems(1), of w PropertyNewValue "names ! i"]
  have "?j \<in> set names" using Cons.prems(5) by (intro nth_mem mod_less_divisor) auto
  then have "wmap w ?st1 ?j \<noteq> None" using k1 Cons.prems(4) by (auto simp: kept_def)
  moreover have "prop_ok ?s" using Cons.prems(2,3,5) by simp
  ultimately have eff: "effect st ?st2 w ?j (Some (pview ?s))"
    by (intro kept_effect [OF k1] rotate_step kept_inv [OF k1])
  then have "\<forall>n \<in> set names. wmap w ?st2 n \<noteq> None"
    using Cons.prems(4) by (simp add: effect_def del: not_None_eq)
  with Cons.IH [of ?st2] Cons.prems eff show ?case
    by (simp add: Let_def effect_def)
qed simp

lemma mod_shift_inj:
  assumes "(i + d) mod n = (k + d) mod n" and "i < n" and "k < (n :: nat)"
  shows "i = k"
proof -
  have "int (i + d) mod int n = int (k + d) mod int n" using assms(1) by (metis zmod_int)
  from mod_diff_cong [OF this refl, of "int d"] have "int i mod int n = int k mod int n" by simp
  with assms(2,3) show ?thesis by simp
qed

lemma moved_other:
  "\<forall>i \<in> set is. name \<noteq> names ! ((i + delta) mod length names) \<Longrightarrow>
     moved names saved delta is m name = m name"
  by (induction "is" arbitrary: m) auto

lemma moved_at:
  assumes "distinct names" and "distinct is" and "\<forall>k \<in> set is. k < length names" and "i \<in> set is"
  shows "moved names saved delta is m (names ! ((i + delta) mod length names)) = Some (pview (saved ! i))"
  using assms(2-4)
proof (induction "is" arbitrary: m)
  case (Cons k "is")
  have n: "0 < length names" using Cons.prems(2) by (cases names) auto
  show ?case
  proof (cases "i = k")
    case True
    have "names ! ((i + delta) mod length names) \<noteq> names ! ((l + delta) mod length names)"
      if l: "l \<in> set is" for l
    proof
      assume "names ! ((i + delta) mod length names) = names ! ((l + delta) mod length names)"
      then have "(i + delta) mod length names = (l + delta) mod length names"
        using assms(1) n by (simp add: nth_eq_iff_index_eq)
      then have "i = l" by (rule mod_shift_inj) (use Cons.prems l in auto)
      with True l Cons.prems(1) show False by simp
    qed
    then have "\<forall>l \<in> set is. names ! ((i + delta) mod length names) \<noteq> names ! ((l + delta) mod length names)"
      by blast
    from moved_other [OF this] True show ?thesis by simp
  next
    case False
    then show ?thesis using Cons by simp
  qed
qed simp

lemma rotate_index:
  assumes "0 < n"
  shows "nat ((int i + d) mod int n) = (i + nat (norm_delta n d)) mod n"
proof -
  have "(int i + d) mod int n = (int i + norm_delta n d) mod int n"
    using norm_delta_spec [OF assms, of d] mod_add_right_eq [of "int i" d "int n"]
      mod_add_right_eq [of "int i" "norm_delta n d" "int n"] by simp
  also have "\<dots> = int ((i + nat (norm_delta n d)) mod n)"
    using norm_delta_spec [OF assms, of d] by (simp add: zmod_int)
  finally show ?thesis by simp
qed

lemma rotate_full_circle:
  assumes "\<bar>d\<bar> mod int n = 0" and "i < n"
  shows "nat ((int i + d) mod int n) = i"
proof -
  have "d mod int n = 0" using assms(1) by (simp add: mod_eq_0_iff_dvd)
  then show ?thesis using assms(2) mod_add_right_eq [of "int i" d "int n"] by simp
qed

text \<open>C8: A successful RotateProperties request moves the value of the \<open>i\<close>-th named property to
  the property \<open>nPositions\<close> places further (cyclically, backwards if negative) and touches no
  other property of any window.\<close>

theorem ProcRotateProperties_rotates:
  assumes "props_inv st" and "ProcRotateProperties pol c req_len w nPositions names st = (Success, st')"
  shows "props_inv st' \<and> (\<forall>w'. w' \<noteq> w \<longrightarrow> wmap w' st' = wmap w' st) \<and>
    (\<forall>name. name \<notin> set names \<longrightarrow> wmap w st' name = wmap w st name) \<and>
    (\<forall>i < length names. wmap w st' (names ! nat ((int i + nPositions) mod int (length names)))
                          = wmap w st (names ! i))"
proof -
  let ?n = "length names" and ?st0 = "UpdateCurrentTime st"
  let ?d = "nat (norm_delta ?n nPositions)"
  obtain rc1 st1 where lw: "dixLookupWindow pol c w DixSetPropAccess ?st0 = (rc1, st1)" by fastforce
  obtain b2 st2 where m2: "malloc st1 = (b2, st2)" by fastforce
  obtain b3 st3 where m3: "malloc st2 = (b3, st3)" by fastforce
  obtain rc saved st4 where rcol: "rotate_collect pol c w names st3 = (rc, saved, st4)" by (metis prod_cases3)
  note k0 = UpdateCurrentTime_kept [OF assms(1)]
  note k1 = kept_trans [OF k0 dixLookupWindow_kept [OF kept_inv [OF k0] lw]]
  note k2 = kept_trans [OF k1 malloc_kept [OF kept_inv [OF k1] m2]]
  note k3 = kept_trans [OF k2 malloc_kept [OF kept_inv [OF k2] m3]]
  note col = rotate_collect_spec [OF kept_inv [OF k3] rcol]
  note k4 = kept_trans [OF k3 col(1)]
  have wm: "wmap w' st4 = wmap w' st" for w' using k4 by (simp add: kept_def)
  show ?thesis
  proof (cases "?n = 0")
    case True
    with assms(2) lw have "st' = st1" by (auto simp: ProcRotateProperties_def split: if_splits)
    with True k1 show ?thesis by (simp add: kept_def)
  next
    case False
    with assms(2) lw m2 m3 rcol have rc: "rc = Success" and
      st': "st' = (if \<bar>nPositions\<bar> mod int ?n \<noteq> 0 then rotate_move w names saved ?d [0..<?n] st4 else st4)"
      by (auto simp: ProcRotateProperties_def Let_def split: if_splits)
    have dist: "distinct names" and ls: "length saved = ?n"
      and fs: "\<And>i. i < ?n \<Longrightarrow> find_key propertyName (names ! i) (win_props w st3) = Some (saved ! i)"
      using col(3) [OF rc] by auto
    have view: "wmap w st (names ! i) = Some (pview (saved ! i))" if "i < ?n" for i
    proof -
      have "wmap w st (names ! i) = wmap w st3 (names ! i)" using k3 by (simp add: kept_def)
      then show ?thesis by (simp add: wmap_def fs [OF that])
    qed
    have idx: "nat ((int i + nPositions) mod int ?n) = (i + ?d) mod ?n" for i
      using False by (intro rotate_index) simp
    show ?thesis
    proof (cases "\<bar>nPositions\<bar> mod int ?n = 0")
      case True
      note rotate_full_circle [OF True]
      with True st' k4 show ?thesis by (simp add: kept_def)
    next
      case False
      have "prop_ok (saved ! i)" if "i < ?n" for i
        using props.find_some_key [OF fs [OF that]] win_props_ok [OF kept_inv [OF k3], of w] by blast
      then have "\<forall>s \<in> set saved. prop_ok s" by (auto simp: in_set_conv_nth ls)
      moreover have "\<forall>n \<in> set names. wmap w st4 n \<noteq> None"
        unfolding wm by (metis view in_set_conv_nth option.distinct(1))
      ultimately have mv: "props_inv st'" "\<And>w'. wmap w' st' =
          (if w' = w then moved names saved ?d [0..<?n] (wmap w st) else wmap w' st)"
        using rotate_move_spec [OF kept_inv [OF k4] _ ls, of w "[0..<?n]" ?d] False st' by (auto simp: wm)
      have "names ! ((i + ?d) mod ?n) \<in> set names" for i using \<open>?n \<noteq> 0\<close> by simp
      then have "name \<notin> set names \<Longrightarrow> moved names saved ?d [0..<?n] (wmap w st) name = wmap w st name" for name
        by (intro moved_other) metis
      moreover have "moved names saved ?d [0..<?n] (wmap w st) (names ! ((i + ?d) mod ?n)) = wmap w st (names ! i)"
        if "i < ?n" for i
        using moved_at [OF dist, of "[0..<?n]" i] that view by simp
      ultimately show ?thesis using mv by (simp add: idx)
    qed
  qed
qed

definition two_atoms :: atomtab where
  "two_atoms = snd (MakeAtom (\<lambda>_. True) [66] True one_atom)"

definition srv2 :: srv where
  "srv2 = srv0\<lparr>wins := [1 \<mapsto> \<lparr>hasOptional = True, otherOptional = True,
     userProps = [\<lparr>propertyName = 1, ptype = 1, pformat = 8, psize = 1, pdata = [7]\<rparr>,
                  \<lparr>propertyName = 2, ptype = 1, pformat = 8, psize = 1, pdata = [8]\<rparr>]\<rparr>],
     atoms := two_atoms\<rparr>"

lemma two_atoms_valid: "ValidAtom 1 two_atoms" "ValidAtom 2 two_atoms"
proof -
  have "fp_loop [x] 0 1 0 = ucast x * 28" for x :: byte by simp
  then have fp: "fingerprint [65] = 65 * 28" "fingerprint [66] = 66 * 28" by (simp_all add: fingerprint_def)
  have one: "lastAtom one_atom = 1" "lookup_atom [66] one_atom = None"
    by (simp_all add: one_atom_def MakeAtom_eq lookup_atom_def empty_atoms_def fp atom_turn_def)
  show "ValidAtom 1 two_atoms" "ValidAtom 2 two_atoms"
    by (simp_all add: two_atoms_def MakeAtom_eq one ValidAtom_def)
qed

lemma srv2_inv: "props_inv srv2"
  by (simp add: srv2_def props_inv_def win_ok_def props.uniq_Cons prop_ok_def)

theorem ProcRotateProperties_rotates_witness:
  "wmap 1 (snd (ProcRotateProperties allow 3 5 1 (- 1) [1, 2] srv2)) 1 = Some (1, 8, [8])"
proof -
  let ?r = "ProcRotateProperties allow 3 5 1 (- 1) [1, 2] srv2"
  have "fst ?r = Success"
    by (simp add: ProcRotateProperties_def fixed_size_def sz_xRotatePropertiesReq_def dixLookupWindow_def
        allow_def malloc_def dixLookupProperty_def srv2_def srv0_def two_atoms_valid win_props_def
        wUserProps_def Let_def)
  then have "?r = (Success, snd ?r)" by (metis prod.collapse)
  from ProcRotateProperties_rotates [OF srv2_inv this] have
    "\<forall>i < length [1, 2 :: atom]. wmap 1 (snd ?r) ([1, 2] ! nat ((int i + - 1) mod int (length [1, 2 :: atom])))
       = wmap 1 srv2 ([1, 2] ! i)" by blast
  from this [rule_format, of 1] have "wmap 1 (snd ?r) 1 = wmap 1 srv2 2" by simp
  also have "\<dots> = Some (1, 8, [8])" by (simp add: wmap_def srv2_def win_props_def wUserProps_def pview_def)
  finally show ?thesis .
qed

section \<open>What the property operations leave alone\<close>

text \<open>The events written to clients directly, as opposed to delivered through a window.\<close>

definition client_msgs :: "msg list \<Rightarrow> msg list" where
  "client_msgs ms = filter (\<lambda>m. case m of ToClient _ _ \<Rightarrow> True | _ \<Rightarrow> False) ms"

definition tabs :: "'a srv_scheme \<Rightarrow> atomtab \<times> sel list \<times> xid \<times> (client \<Rightarrow> bool) \<times> msg list \<times> 'a" where
  "tabs st = (atoms st, CurrentSelections st, rootId st, clientGone st, client_msgs (sent st), srv.more st)"

lemma tabs_simps [simp]:
  "tabs (set_error c v st) = tabs st" "tabs (UpdateCurrentTimeIf st) = tabs st"
  "tabs (UpdateCurrentTime st) = tabs st" "tabs (deliverPropertyNotifyEvent w s n st) = tabs st"
  "tabs (set_props w ps st) = tabs st" "tabs (unlink_property w n st) = tabs st"
  by (simp_all add: tabs_def set_error_def send_def UpdateCurrentTimeIf_def UpdateCurrentTime_def Let_def
      deliverPropertyNotifyEvent_def set_props_def unlink_property_def client_msgs_def split: option.split)

lemma tabs_malloc: "malloc st = (b, st') \<Longrightarrow> tabs st' = tabs st"
  by (auto simp: malloc_def tabs_def split: list.splits)

lemma tabs_MakeWindowOptional: "MakeWindowOptional w st = (b, st') \<Longrightarrow> tabs st' = tabs st"
proof -
  assume a: "MakeWindowOptional w st = (b, st')"
  obtain b1 st1 where m: "malloc st = (b1, st1)" by fastforce
  with a have "st' = st \<or> st' = st1 \<or> (\<exists>ws. st' = st1\<lparr>wins := ws\<rparr>)"
    by (auto simp: MakeWindowOptional_def split: option.splits if_splits bool.splits)
  then show ?thesis using tabs_malloc [OF m] by (auto simp: tabs_def)
qed

lemma tabs_add_property:
  assumes "add_property pol c w property type format len value st = (rc, st')"
  shows "tabs st' = tabs st"
proof -
  obtain o1 st1 where 1: "MakeWindowOptional w st = (o1, st1)" by fastforce
  obtain o2 st2 where 2: "malloc st1 = (o2, st2)" by fastforce
  obtain o3 st3 where 3: "malloc st2 = (o3, st3)" by fastforce
  from assms 1 2 3 have "st' = st1 \<or> st' = st2 \<or> st' = st3 \<or> st' = set_error c property st3 \<or>
      (\<exists>ps. st' = set_props w ps st3)"
    by (auto simp: add_property_def Let_def split: if_splits bool.splits)
  then show ?thesis
    using tabs_MakeWindowOptional [OF 1] tabs_malloc [OF 2] tabs_malloc [OF 3] by auto
qed

lemma tabs_update_property:
  assumes "update_property pol c w p property type format mode len value am st = (rc, st')"
  shows "tabs st' = tabs st"
proof -
  obtain u st1 where cv: "changed_value p type format mode len value st = (u, st1)" by fastforce
  obtain b st2 where m: "malloc st = (b, st2)" by fastforce
  from cv m have "st1 = st \<or> st1 = st2" by (auto simp: changed_value_def Let_def split: if_splits)
  moreover from assms cv have "st' = st \<or> st' = st1 \<or> (\<exists>ps. st' = set_props w ps st1)"
    by (auto simp: update_property_def Let_def split: if_splits option.splits)
  ultimately show ?thesis using tabs_malloc [OF m] by auto
qed

lemma tabs_dixChange:
  assumes "dixChangeWindowProperty pol c w property type format mode len value ev st = (rc, st')"
  shows "tabs st' = tabs st"
proof -
  let ?st1 = "set_error c property st" and ?am = "if mode = PropModeReplace then DixWriteAccess else DixBlendAccess"
  have dlv: "tabs st' = tabs st" if "tabs st2 = tabs st"
    and "st' = st2 \<or> st' = deliverPropertyNotifyEvent w PropertyNewValue property st2" for st2
    using that by auto
  show ?thesis
  proof (cases "find_key propertyName property (win_props w st)")
    case None
    obtain rc2 st2 where add: "add_property pol c w property type format len value ?st1 = (rc2, st2)" by fastforce
    have "tabs st2 = tabs st" using tabs_add_property [OF add] by simp
    then show ?thesis by (rule dlv) (use assms None add in
        \<open>auto simp: dixChangeWindowProperty_def dixLookupProperty_def Let_def split: if_splits\<close>)
  next
    case (Some p)
    obtain rc2 st2 where upd:
      "update_property pol c w p property type format mode len value ?am ?st1 = (rc2, st2)" by fastforce
    obtain rc3 st3 where add: "add_property pol c w property type format len value ?st1 = (rc3, st3)" by fastforce
    have t: "tabs st2 = tabs st" "tabs st3 = tabs st"
      using tabs_update_property [OF upd] tabs_add_property [OF add] by simp_all
    from assms Some upd add have "st' = ?st1 \<or> st' = st2 \<or> st' = deliverPropertyNotifyEvent w PropertyNewValue property st2 \<or>
        st' = st3 \<or> st' = deliverPropertyNotifyEvent w PropertyNewValue property st3"
      by (auto simp: dixChangeWindowProperty_def dixLookupProperty_def Let_def split: if_splits)
    then show ?thesis using t by auto
  qed
qed

end
