(* ===== verification/Selection.thy ===== *)
theory Selection
  imports Property
begin

text \<open>
  Selections, \<open>xserver/dix/selection.c\<close>: which window and client own each selection, the
  requests that change, query and convert them, and their cleanup when a window or a client
  goes away. The registered \<open>SelectionCallback\<close> is the parameter \<open>cb\<close> of the operations; the
  locale \<open>sel_callback\<close> states what the operations rely on, and the lemmas about them are
  proved there once. \<open>Clipboard\<close> interprets it with the callback the program registers.
\<close>

section \<open>Operations\<close>

datatype selkind = SelectionSetOwner | SelectionWindowDestroy | SelectionClientClose

type_synonym 'a selcb = "sel \<Rightarrow> client option \<Rightarrow> selkind \<Rightarrow> 'a srv_scheme \<Rightarrow> 'a srv_scheme"

definition dixLookupSelection ::
    "policy \<Rightarrow> atom \<Rightarrow> client \<Rightarrow> mask \<Rightarrow> 'a srv_scheme \<Rightarrow> xstatus \<times> sel option \<times> 'a srv_scheme" where
  "dixLookupSelection pol name c m st =
     (let st1 = set_error c name st
      in case find_key selection name (CurrentSelections st) of
           None \<Rightarrow> (BadMatch, None, st1)
         | Some s \<Rightarrow> (pol c (OSel name) m, Some s, st1))"

definition InitSelections :: "'a srv_scheme \<Rightarrow> 'a srv_scheme" where
  "InitSelections st = st\<lparr>CurrentSelections := []\<rparr>"

definition put_owner :: "tstamp \<times> xid \<times> xid option \<times> client option \<Rightarrow> sel \<Rightarrow> sel" where
  "put_owner u s = (case u of (t, w, pw, c) \<Rightarrow>
     s\<lparr>lastTimeChanged := t, swindow := w, spWin := pw, sclient := c\<rparr>)"

definition no_owner :: "sel \<Rightarrow> sel" where
  "no_owner s = s\<lparr>spWin := None, swindow := 0, sclient := None\<rparr>"

text \<open>
  The two cleanup loops: for every record that refers to the window or client, in list order,
  the callback is called and the owner is then cleared.
\<close>

fun clear_owners :: "'a selcb \<Rightarrow> (sel \<Rightarrow> bool) \<Rightarrow> selkind \<Rightarrow> nat list \<Rightarrow> 'a srv_scheme \<Rightarrow> 'a srv_scheme" where
  "clear_owners cb hit kind [] st = st"
| "clear_owners cb hit kind (i # is) st =
     (let s = CurrentSelections st ! i
      in if hit s
         then let st1 = cb s None kind st
              in clear_owners cb hit kind is
                   (st1\<lparr>CurrentSelections := (CurrentSelections st1)[i := no_owner (CurrentSelections st1 ! i)]\<rparr>)
         else clear_owners cb hit kind is st)"

definition DeleteWindowFromAnySelections :: "'a selcb \<Rightarrow> xid \<Rightarrow> 'a srv_scheme \<Rightarrow> 'a srv_scheme" where
  "DeleteWindowFromAnySelections cb w st =
     clear_owners cb (\<lambda>s. spWin s = Some w) SelectionWindowDestroy [0..<length (CurrentSelections st)] st"

definition DeleteClientFromAnySelections :: "'a selcb \<Rightarrow> client \<Rightarrow> 'a srv_scheme \<Rightarrow> 'a srv_scheme" where
  "DeleteClientFromAnySelections cb c st =
     clear_owners cb (\<lambda>s. sclient s = Some c) SelectionClientClose [0..<length (CurrentSelections st)] st"

text \<open>
  The second half of \<open>ProcSetSelectionOwner\<close>: the record of the selection is rewritten (it is the
  one found or the one just added at the head) and the callback is told.
\<close>

definition take_ownership ::
    "'a selcb \<Rightarrow> client \<Rightarrow> atom \<Rightarrow> tstamp \<times> xid \<times> xid option \<times> client option
       \<Rightarrow> 'a srv_scheme \<Rightarrow> 'a srv_scheme" where
  "take_ownership cb c name u st =
     (let st1 = st\<lparr>CurrentSelections := upd_key selection name (put_owner u) (CurrentSelections st)\<rparr>
      in case find_key selection name (CurrentSelections st1) of
           None \<Rightarrow> st1
         | Some s \<Rightarrow> cb s (Some c) SelectionSetOwner st1)"

text \<open>A new record, zero-filled but for its name, linked at the head of the list.\<close>

definition add_selection ::
    "policy \<Rightarrow> client \<Rightarrow> atom \<Rightarrow> 'a srv_scheme \<Rightarrow> xstatus \<times> 'a srv_scheme" where
  "add_selection pol c name st =
     (case malloc st of
        (False, st1) \<Rightarrow> (BadAlloc, st1)
      | (True, st1) \<Rightarrow>
          let rc = pol c (OSel name) (DixCreateAccess OR DixSetAttrAccess)
          in if rc \<noteq> Success then (rc, st1)
             else (Success, st1\<lparr>CurrentSelections :=
                     \<lparr>selection = name, lastTimeChanged = \<lparr>months = 0, milliseconds = 0\<rparr>, swindow = 0,
                      spWin = None, sclient = None\<rparr> # CurrentSelections st1\<rparr>))"

definition ProcSetSelectionOwner ::
    "policy \<Rightarrow> 'a selcb \<Rightarrow> client \<Rightarrow> xid \<Rightarrow> atom \<Rightarrow> u32 \<Rightarrow> 'a srv_scheme \<Rightarrow> xstatus \<times> 'a srv_scheme" where
  "ProcSetSelectionOwner pol cb c window name reqtime st =
     (let st0 = UpdateCurrentTime st;
          time = ClientTimeToServerTime reqtime (currentTime st0)
      in if CompareTimeStamps time (currentTime st0) = LATER then (Success, st0)
         else case (if window \<noteq> 0 then dixLookupWindow pol c window DixSetAttrAccess st0
                    else (Success, st0)) of
                (rc, st1) \<Rightarrow>
                  let pWin = (if window \<noteq> 0 then Some window else None);
                      owner = (time, window, pWin, if pWin = None then None else Some c)
                  in if rc \<noteq> Success then (rc, st1)
                     else if \<not> ValidAtom name (atoms st1) then (BadAtom, set_error c name st1)
                     else case dixLookupSelection pol name c DixSetAttrAccess st1 of
                            (rc2, pSel, st2) \<Rightarrow>
                              if rc2 = BadMatch then
                                (case add_selection pol c name st2 of
                                   (rc3, st3) \<Rightarrow>
                                     if rc3 \<noteq> Success then (rc3, st3)
                                     else (Success, take_ownership cb c name owner st3))
                              else case pSel of
                                     None \<Rightarrow> (rc2, st2)
                                   | Some s \<Rightarrow>
                                       if rc2 \<noteq> Success then (rc2, st2)
                                       else if CompareTimeStamps time (lastTimeChanged s) = EARLIER
                                       then (Success, st2)
                                       else let st3 = (if sclient s \<noteq> None \<and> (pWin = None \<or> sclient s \<noteq> Some c)
                                                       then WriteEventsToClient (sclient s)
                                                              (SelectionClear (milliseconds time) (swindow s) (selection s)) st2
                                                       else st2)
                                            in (Success, take_ownership cb c name owner st3))"

definition ProcGetSelectionOwner ::
    "policy \<Rightarrow> client \<Rightarrow> atom \<Rightarrow> 'a srv_scheme \<Rightarrow> xstatus \<times> 'a srv_scheme" where
  "ProcGetSelectionOwner pol c name st =
     (if \<not> ValidAtom name (atoms st) then (BadAtom, set_error c name st)
      else case dixLookupSelection pol name c DixGetAttrAccess st of
             (rc, pSel, st1) \<Rightarrow>
               if rc = BadMatch then (Success, send (ToReply c (GetSelectionOwnerReply 0)) st1)
               else case pSel of
                      Some s \<Rightarrow> if rc = Success
                                then (Success, send (ToReply c (GetSelectionOwnerReply (swindow s))) st1)
                                else (rc, st1)
                    | None \<Rightarrow> (rc, st1))"

record convert_req =
  cs_requestor :: xid
  cs_selection :: atom
  cs_target :: atom
  cs_property :: atom
  cs_time :: u32

definition convert_params_ok :: "convert_req \<Rightarrow> 'a srv_scheme \<Rightarrow> bool" where
  "convert_params_ok r st \<longleftrightarrow>
     ValidAtom (cs_selection r) (atoms st) \<and> ValidAtom (cs_target r) (atoms st) \<and>
     (cs_property r = 0 \<or> ValidAtom (cs_property r) (atoms st))"

definition ProcConvertSelection ::
    "policy \<Rightarrow> client \<Rightarrow> convert_req \<Rightarrow> 'a srv_scheme \<Rightarrow> xstatus \<times> 'a srv_scheme" where
  "ProcConvertSelection pol c r st =
     (case dixLookupWindow pol c (cs_requestor r) DixSetAttrAccess st of
        (rc, st1) \<Rightarrow>
          if rc \<noteq> Success then (rc, st1)
          else if \<not> convert_params_ok r st1 then (BadAtom, set_error c (cs_property r) st1)
          else let st2 = (if cs_time r = 0 then UpdateCurrentTime st1 else st1)
               in case dixLookupSelection pol (cs_selection r) c DixReadAccess st2 of
                    (rc2, pSel, st3) \<Rightarrow>
                      let refuse = WriteEventsToClient (Some c)
                            (SelectionNotify (cs_time r) (cs_requestor r) (cs_selection r) (cs_target r) 0)
                      in if rc2 \<noteq> Success \<and> rc2 \<noteq> BadMatch then (rc2, st3)
                         else case pSel of
                                None \<Rightarrow> (Success, refuse st3)
                              | Some s \<Rightarrow>
                                  (case sclient s of
                                     Some oc \<Rightarrow>
                                       if rc2 = Success \<and> swindow s \<noteq> 0 \<and> oc \<noteq> serverClient \<and> \<not> clientGone st3 oc
                                       then (Success, WriteEventsToClient (Some oc)
                                              (SelectionRequest (cs_time r) (swindow s) (cs_requestor r)
                                                 (cs_selection r) (cs_target r) (cs_property r)) st3)
                                       else (Success, refuse st3)
                                   | None \<Rightarrow> (Success, refuse st3)))"

section \<open>The invariant of the selection table\<close>

interpretation sels: keyed selection put_owner
  by unfold_locales (simp add: put_owner_def split: prod.split)

text \<open>
  One record per selection; its window, window pointer and client agree, and an owner window
  exists.
\<close>

definition sel_ok :: "(xid \<Rightarrow> win option) \<Rightarrow> sel \<Rightarrow> bool" where
  "sel_ok ws s \<longleftrightarrow> spWin s = (if swindow s = 0 then None else Some (swindow s)) \<and>
     (sclient s = None \<longleftrightarrow> swindow s = 0) \<and> (swindow s \<noteq> 0 \<longrightarrow> ws (swindow s) \<noteq> None)"

definition sels_inv :: "'a srv_scheme \<Rightarrow> bool" where
  "sels_inv st \<longleftrightarrow> sels.uniq (CurrentSelections st) \<and> (\<forall>s \<in> set (CurrentSelections st). sel_ok (wins st) s)"

type_synonym owner = "tstamp \<times> xid \<times> client option"

definition oview :: "sel \<Rightarrow> owner" where
  "oview s = (lastTimeChanged s, swindow s, sclient s)"

text \<open>Who owns which selection since when.\<close>

definition owns :: "'a srv_scheme \<Rightarrow> atom \<Rightarrow> owner option" where
  "owns st name = map_option oview (find_key selection name (CurrentSelections st))"

lemma oview_put: "oview (put_owner (t, w, pw, oc) s) = (t, w, oc)"
  by (simp add: oview_def put_owner_def)

text \<open>The callback may send messages but leaves the tables alone.\<close>

locale sel_callback =
  fixes cb :: "'a selcb"
  assumes cb_sels: "CurrentSelections (cb s c k st) = CurrentSelections st"
    and cb_wins: "wins (cb s c k st) = wins st"
    and cb_atoms: "atoms (cb s c k st) = atoms st"
    and cb_gone: "clientGone (cb s c k st) = clientGone st"
    and cb_root: "rootId (cb s c k st) = rootId st"
begin

lemma take_ownership_sel:
  "CurrentSelections (take_ownership cb c name u st) = upd_key selection name (put_owner u) (CurrentSelections st)"
  "wins (take_ownership cb c name u st) = wins st" "atoms (take_ownership cb c name u st) = atoms st"
  "clientGone (take_ownership cb c name u st) = clientGone st" "rootId (take_ownership cb c name u st) = rootId st"
  by (simp_all add: take_ownership_def Let_def cb_sels cb_wins cb_atoms cb_gone cb_root split: option.split)

lemma take_ownership_owns:
  "find_key selection name (CurrentSelections st) \<noteq> None \<Longrightarrow>
     owns (take_ownership cb c name (t, w, pw, oc) st) = (owns st)(name \<mapsto> (t, w, oc))"
  by (auto simp: owns_def take_ownership_sel fun_eq_iff sels.find_touch oview_put)

lemma take_ownership_inv:
  assumes "sels_inv st" and "w \<noteq> 0 \<Longrightarrow> wins st w \<noteq> None"
  shows "sels_inv (take_ownership cb c name
    (t, w, if w = 0 then None else Some w, if w = 0 then None else Some c) st)"
proof -
  let ?u = "(t, w, if w = 0 then None else Some w, if w = 0 then None else Some c)"
  have new: "sel_ok (wins st) (put_owner ?u s)" for s
    using assms(2) by (simp add: sel_ok_def put_owner_def)
  have "sel_ok (wins st) s" if "s \<in> set (upd_key selection name (put_owner ?u) (CurrentSelections st))" for s
    using upd_key_set [OF that] assms(1) new by (auto simp: sels_inv_def)
  with assms(1) show ?thesis by (simp add: sels_inv_def take_ownership_sel sels.uniq_touch)
qed

lemma clear_owners_sel:
  "wins (clear_owners cb hit kind is st) = wins st \<and> atoms (clear_owners cb hit kind is st) = atoms st \<and>
   length (CurrentSelections (clear_owners cb hit kind is st)) = length (CurrentSelections st) \<and>
   clientGone (clear_owners cb hit kind is st) = clientGone st \<and>
   rootId (clear_owners cb hit kind is st) = rootId st"
  by (induction "is" arbitrary: st) (simp_all add: Let_def cb_sels cb_wins cb_atoms cb_gone cb_root)

lemma clear_owners_nth:
  "\<forall>i \<in> set is. i < length (CurrentSelections st) \<Longrightarrow> distinct is \<Longrightarrow> j < length (CurrentSelections st) \<Longrightarrow>
   CurrentSelections (clear_owners cb hit kind is st) ! j =
     (if j \<in> set is \<and> hit (CurrentSelections st ! j) then no_owner (CurrentSelections st ! j)
      else CurrentSelections st ! j)"
proof (induction "is" arbitrary: st)
  case (Cons i "is")
  show ?case
  proof (cases "hit (CurrentSelections st ! i)")
    case True
    let ?st1 = "cb (CurrentSelections st ! i) None kind st"
    let ?st2 = "?st1\<lparr>CurrentSelections := (CurrentSelections ?st1)[i := no_owner (CurrentSelections ?st1 ! i)]\<rparr>"
    have "CurrentSelections ?st2 = (CurrentSelections st)[i := no_owner (CurrentSelections st ! i)]"
      by (simp add: cb_sels)
    with Cons.IH [of ?st2] Cons.prems True show ?thesis
      by (auto simp: Let_def cb_sels nth_list_update)
  next
    case False
    with Cons show ?thesis by (auto simp: Let_def)
  qed
qed simp

lemma clear_all_owners:
  "CurrentSelections (clear_owners cb hit kind [0..<length (CurrentSelections st)] st) =
     map (\<lambda>s. if hit s then no_owner s else s) (CurrentSelections st)"
  by (rule nth_equalityI) (simp_all add: clear_owners_sel clear_owners_nth)

end

lemma sels_inv_map_no_owner:
  assumes "sels_inv st" and "CurrentSelections st' = map (\<lambda>s. if hit s then no_owner s else s) (CurrentSelections st)"
    and "\<And>s. s \<in> set (CurrentSelections st) \<Longrightarrow> \<not> hit s \<Longrightarrow> swindow s \<noteq> 0 \<Longrightarrow> wins st' (swindow s) = wins st (swindow s)"
  shows "sels_inv st'"
proof -
  have "map selection (CurrentSelections st') = map selection (CurrentSelections st)"
    by (simp add: assms(2) no_owner_def)
  then have "sels.uniq (CurrentSelections st')" using assms(1) by (simp add: sels_inv_def sels.uniq_def)
  moreover have "\<forall>s \<in> set (CurrentSelections st'). sel_ok (wins st') s"
    using assms by (auto simp: sels_inv_def sel_ok_def no_owner_def)
  ultimately show ?thesis by (simp add: sels_inv_def)
qed

section \<open>Changing the owner\<close>

text \<open>\<open>quiet\<close>: tables and output are as before; only time, error value and allocator may differ.\<close>

definition quiet :: "'a srv_scheme \<Rightarrow> 'a srv_scheme \<Rightarrow> bool" where
  "quiet st st' \<longleftrightarrow> CurrentSelections st' = CurrentSelections st \<and> wins st' = wins st \<and>
     atoms st' = atoms st \<and> sent st' = sent st \<and> clientGone st' = clientGone st \<and> rootId st' = rootId st"

lemma quiet_refl [simp]: "quiet st st"
  by (simp add: quiet_def)

lemma quiet_trans: "quiet st st1 \<Longrightarrow> quiet st1 st2 \<Longrightarrow> quiet st st2"
  by (simp add: quiet_def)

lemma quiet_steps [simp]:
  "quiet st (set_error c v st)" "quiet st (UpdateCurrentTime st)"
  by (simp_all add: quiet_def)

lemma quiet_window: "dixLookupWindow pol c w m st = (rc, st') \<Longrightarrow> quiet st st'"
  using dixLookupWindow_frame [of pol c w m st] by simp

lemma quiet_malloc: "malloc st = (b, st') \<Longrightarrow> quiet st st'"
  using malloc_sel [of st b st'] by (simp add: quiet_def)

lemma quiet_inv: "quiet st st' \<Longrightarrow> sels_inv st' \<longleftrightarrow> sels_inv st"
  by (simp add: quiet_def sels_inv_def)

lemma quiet_owns: "quiet st st' \<Longrightarrow> owns st' = owns st"
  by (simp add: quiet_def owns_def fun_eq_iff)

text \<open>The server time a request's time stamp stands for.\<close>

definition req_time :: "u32 \<Rightarrow> 'a srv_scheme \<Rightarrow> tstamp" where
  "req_time t st = ClientTimeToServerTime t (currentTime (UpdateCurrentTime st))"

lemma add_selection_cases:
  assumes "add_selection pol c name st = (rc, st')"
  shows "(rc \<noteq> Success \<and> quiet st st') \<or>
    (rc = Success \<and> (\<exists>new st1. quiet st st1 \<and> st' = st1\<lparr>CurrentSelections := new # CurrentSelections st\<rparr> \<and>
       selection new = name \<and> swindow new = 0 \<and> spWin new = None \<and> sclient new = None))"
proof -
  obtain b st1 where m: "malloc st = (b, st1)" by fastforce
  note q = quiet_malloc [OF m]
  then have "CurrentSelections st1 = CurrentSelections st" by (simp add: quiet_def)
  with assms m q show ?thesis
    by (cases b) (auto simp: add_selection_def Let_def split: if_splits
        intro!: exI [of _ "\<lparr>selection = name, lastTimeChanged = \<lparr>months = 0, milliseconds = 0\<rparr>,
          swindow = 0, spWin = None, sclient = None\<rparr>"] exI [of _ st1])
qed

text \<open>
  \<open>owner_step\<close>: what a request that takes effect does before the ownership is recorded: an existing
  record that is not younger than the request loses its owner, who is told, or a record is added.
\<close>

definition owner_step ::
    "client \<Rightarrow> xid \<Rightarrow> atom \<Rightarrow> tstamp \<Rightarrow> 'a srv_scheme \<Rightarrow> 'a srv_scheme \<Rightarrow> bool" where
  "owner_step c window name time st st3 \<longleftrightarrow>
     (case find_key selection name (CurrentSelections st) of
        None \<Rightarrow> \<exists>new st2. quiet st st2 \<and> st3 = st2\<lparr>CurrentSelections := new # CurrentSelections st\<rparr> \<and>
                  selection new = name \<and> swindow new = 0 \<and> spWin new = None \<and> sclient new = None
      | Some s \<Rightarrow> CompareTimeStamps time (lastTimeChanged s) \<noteq> EARLIER \<and>
                  (\<exists>st2. quiet st st2 \<and>
                     st3 = (if sclient s \<noteq> None \<and> (window = 0 \<or> sclient s \<noteq> Some c)
                            then WriteEventsToClient (sclient s)
                                   (SelectionClear (milliseconds time) (swindow s) name) st2
                            else st2)))"

lemma ProcSetSelectionOwner_cases:
  assumes pol: "pol_ok pol" and set: "ProcSetSelectionOwner pol cb c window name t st = (rc, st')"
  shows "quiet st st' \<or>
    (\<exists>st3. rc = Success \<and> (window \<noteq> 0 \<longrightarrow> wins st window \<noteq> None) \<and>
       CompareTimeStamps (req_time t st) (currentTime (UpdateCurrentTime st)) \<noteq> LATER \<and>
       owner_step c window name (req_time t st) st st3 \<and>
       st' = take_ownership cb c name (req_time t st, window, if window = 0 then None else Some window,
               if window = 0 then None else Some c) st3)"
proof -
  let ?st0 = "UpdateCurrentTime st" and ?time = "req_time t st"
  let ?u = "(?time, window, if window = 0 then None else Some window, if window = 0 then None else Some c)"
  define lw where "lw = (if window \<noteq> 0 then dixLookupWindow pol c window DixSetAttrAccess ?st0 else (Success, ?st0))"
  obtain rc1 st1 where lw1: "lw = (rc1, st1)" by fastforce
  have q1: "quiet st st1"
    using lw1 quiet_trans [OF quiet_steps(2) quiet_window] by (auto simp: lw_def split: if_splits)
  have w: "rc1 = Success \<Longrightarrow> window \<noteq> 0 \<Longrightarrow> wins st window \<noteq> None"
    using lw1 by (auto simp: lw_def dixLookupWindow_Success split: if_splits)
  let ?st2 = "set_error c name st1"
  have q2: "quiet st ?st2" by (rule quiet_trans [OF q1 quiet_steps(1)])
  have cs: "CurrentSelections st1 = CurrentSelections st" "atoms st1 = atoms st" using q1 by (auto simp: quiet_def)
  have pick: ?thesis if "rc = Success" "rc1 = Success" "CompareTimeStamps ?time (currentTime ?st0) \<noteq> LATER"
      "owner_step c window name ?time st st3" "st' = take_ownership cb c name ?u st3" for st3
    using that w by blast
  note unf = set [unfolded ProcSetSelectionOwner_def Let_def req_time_def [symmetric] lw_def [symmetric] lw1 prod.case]
  show ?thesis
  proof (cases "CompareTimeStamps ?time (currentTime ?st0) = LATER \<or> rc1 \<noteq> Success \<or> \<not> ValidAtom name (atoms st1)")
    case True
    then have "st' = ?st0 \<or> st' = st1 \<or> st' = ?st2" using unf by (auto split: if_splits)
    with q1 q2 show ?thesis by auto
  next
    case False
    show ?thesis
    proof (cases "find_key selection name (CurrentSelections st)")
      case None
      obtain rc3 st3 where add: "add_selection pol c name ?st2 = (rc3, st3)" by fastforce
      have res: "(rc, st') = (if rc3 \<noteq> Success then (rc3, st3) else (Success, take_ownership cb c name ?u st3))"
        using unf False None add by (simp add: dixLookupSelection_def cs split: if_splits)
      from add_selection_cases [OF add] show ?thesis
      proof
        assume "rc3 \<noteq> Success \<and> quiet ?st2 st3"
        with res show ?thesis using quiet_trans [OF q2] by auto
      next
        assume new: "rc3 = Success \<and> (\<exists>new st1. quiet ?st2 st1 \<and>
          st3 = st1\<lparr>CurrentSelections := new # CurrentSelections ?st2\<rparr> \<and>
          selection new = name \<and> swindow new = 0 \<and> spWin new = None \<and> sclient new = None)"
        then have "owner_step c window name ?time st st3"
          using None quiet_trans [OF q2] by (auto simp: owner_step_def cs)
        with False new res show ?thesis by (intro pick) auto
      qed
    next
      case (Some s)
      have nm: "selection s = name" using sels.find_some_key [OF Some] by simp
      have pol2: "pol c (OSel name) DixSetAttrAccess \<noteq> BadMatch" using pol by (simp add: pol_ok_def)
      show ?thesis
      proof (cases "pol c (OSel name) DixSetAttrAccess = Success \<and> CompareTimeStamps ?time (lastTimeChanged s) \<noteq> EARLIER")
        case True
        let ?st3 = "if sclient s \<noteq> None \<and> (window = 0 \<or> sclient s \<noteq> Some c)
            then WriteEventsToClient (sclient s) (SelectionClear (milliseconds ?time) (swindow s) name) ?st2
            else ?st2"
        have "(rc, st') = (Success, take_ownership cb c name ?u ?st3)"
          using unf False Some True by (auto simp: dixLookupSelection_def cs nm split: if_splits)
        moreover have "owner_step c window name ?time st ?st3"
          using Some True q2 by (auto simp: owner_step_def)
        ultimately show ?thesis using False by (intro pick [of ?st3]) simp_all
      next
        case F: False
        then have "st' = ?st2" using unf False Some pol2
          by (auto simp: dixLookupSelection_def cs Let_def split: if_splits)
        with q2 show ?thesis by simp
      qed
    qed
  qed
qed

lemma owner_step_facts:
  assumes "sels_inv st" and "owner_step c window name time st st3"
  shows "sels_inv st3" "wins st3 = wins st" "atoms st3 = atoms st" "clientGone st3 = clientGone st"
    "rootId st3 = rootId st" "find_key selection name (CurrentSelections st3) \<noteq> None"
    "n \<noteq> name \<Longrightarrow> owns st3 n = owns st n"
proof -
  have "sels_inv st3 \<and> wins st3 = wins st \<and> atoms st3 = atoms st \<and> clientGone st3 = clientGone st \<and>
      rootId st3 = rootId st \<and> find_key selection name (CurrentSelections st3) \<noteq> None \<and>
      (\<forall>n. n \<noteq> name \<longrightarrow> owns st3 n = owns st n)"
  proof (cases "find_key selection name (CurrentSelections st)")
    case None
    with assms(2) obtain new st2 where q: "quiet st st2"
      and st3: "st3 = st2\<lparr>CurrentSelections := new # CurrentSelections st\<rparr>"
      and new: "selection new = name" "swindow new = 0" "spWin new = None" "sclient new = None"
      by (auto simp: owner_step_def)
    have "sels_inv st3"
      using assms(1) None q new by (auto simp: st3 sels_inv_def sels.uniq_Cons sel_ok_def quiet_def)
    then show ?thesis using q new by (auto simp: st3 quiet_def owns_def)
  next
    case (Some s)
    with assms(2) obtain st2 where q: "quiet st st2" and
      st3: "st3 = st2 \<or> (\<exists>oc e. st3 = WriteEventsToClient oc e st2)" by (auto simp: owner_step_def split: if_splits)
    then have "CurrentSelections st3 = CurrentSelections st" "wins st3 = wins st" "atoms st3 = atoms st"
      "clientGone st3 = clientGone st" "rootId st3 = rootId st" by (auto simp: quiet_def)
    with assms(1) Some show ?thesis by (simp add: sels_inv_def owns_def)
  qed
  then show "sels_inv st3" "wins st3 = wins st" "atoms st3 = atoms st" "clientGone st3 = clientGone st"
    "rootId st3 = rootId st" "find_key selection name (CurrentSelections st3) \<noteq> None"
    "n \<noteq> name \<Longrightarrow> owns st3 n = owns st n" by blast+
qed

context sel_callback
begin

lemma set_owner_inv:
  assumes "sels_inv st" and "pol_ok pol" and "ProcSetSelectionOwner pol cb c window name t st = (rc, st')"
  shows "sels_inv st' \<and> wins st' = wins st \<and> atoms st' = atoms st \<and> clientGone st' = clientGone st \<and>
    rootId st' = rootId st"
  using ProcSetSelectionOwner_cases [OF assms(2,3)]
proof
  assume "quiet st st'"
  with assms(1) show ?thesis by (simp add: quiet_inv) (simp add: quiet_def)
next
  assume "\<exists>st3. rc = Success \<and> (window \<noteq> 0 \<longrightarrow> wins st window \<noteq> None) \<and>
       CompareTimeStamps (req_time t st) (currentTime (UpdateCurrentTime st)) \<noteq> LATER \<and>
       owner_step c window name (req_time t st) st st3 \<and>
       st' = take_ownership cb c name (req_time t st, window, if window = 0 then None else Some window,
               if window = 0 then None else Some c) st3"
  then obtain st3 where w: "window \<noteq> 0 \<Longrightarrow> wins st window \<noteq> None"
    and own: "owner_step c window name (req_time t st) st st3"
    and st': "st' = take_ownership cb c name (req_time t st, window,
        if window = 0 then None else Some window, if window = 0 then None else Some c) st3" by blast
  note f = owner_step_facts [OF assms(1) own]
  have "sels_inv st'" unfolding st' by (rule take_ownership_inv [OF f(1)]) (use w f(2) in auto)
  then show ?thesis using f(2-5) by (simp add: st' take_ownership_sel)
qed

lemma set_owner_owns:
  assumes "sels_inv st" and "pol_ok pol" and "ProcSetSelectionOwner pol cb c window name t st = (rc, st')"
  shows "owns st' = owns st \<or>
    (rc = Success \<and> owns st' = (owns st)(name \<mapsto> (req_time t st, window, if window = 0 then None else Some c)) \<and>
     (case owns st name of None \<Rightarrow> True
      | Some (since, _) \<Rightarrow> CompareTimeStamps (req_time t st) since \<noteq> EARLIER))"
  using ProcSetSelectionOwner_cases [OF assms(2,3)]
proof
  assume "quiet st st'"
  then show ?thesis by (simp add: quiet_owns)
next
  assume "\<exists>st3. rc = Success \<and> (window \<noteq> 0 \<longrightarrow> wins st window \<noteq> None) \<and>
       CompareTimeStamps (req_time t st) (currentTime (UpdateCurrentTime st)) \<noteq> LATER \<and>
       owner_step c window name (req_time t st) st st3 \<and>
       st' = take_ownership cb c name (req_time t st, window, if window = 0 then None else Some window,
               if window = 0 then None else Some c) st3"
  then obtain st3 where rc: "rc = Success"
    and own: "owner_step c window name (req_time t st) st st3"
    and st': "st' = take_ownership cb c name (req_time t st, window,
        if window = 0 then None else Some window, if window = 0 then None else Some c) st3" by blast
  note f = owner_step_facts [OF assms(1) own]
  have "owns st' = (owns st)(name \<mapsto> (req_time t st, window, if window = 0 then None else Some c))"
    unfolding st' take_ownership_owns [OF f(6)] using f(7) by (auto simp: fun_eq_iff)
  moreover have "case owns st name of None \<Rightarrow> True
      | Some (since, _) \<Rightarrow> CompareTimeStamps (req_time t st) since \<noteq> EARLIER"
    using own by (auto simp: owner_step_def owns_def oview_def split: option.splits)
  ultimately show ?thesis using rc by blast
qed

lemma delete_client_spec:
  assumes "sels_inv st"
  shows "sels_inv (DeleteClientFromAnySelections cb c st) \<and>
    (\<forall>s \<in> set (CurrentSelections (DeleteClientFromAnySelections cb c st)). sclient s \<noteq> Some c) \<and>
    wins (DeleteClientFromAnySelections cb c st) = wins st"
proof -
  note eq = clear_all_owners [of "\<lambda>s. sclient s = Some c" SelectionClientClose st,
      folded DeleteClientFromAnySelections_def]
  have w: "wins (DeleteClientFromAnySelections cb c st) = wins st"
    by (simp add: DeleteClientFromAnySelections_def clear_owners_sel)
  have "sels_inv (DeleteClientFromAnySelections cb c st)"
    by (rule sels_inv_map_no_owner [OF assms eq]) (simp add: w)
  then show ?thesis using w eq by (auto simp: no_owner_def)
qed

lemma delete_window_spec:
  assumes "sels_inv st" and "st' = (DeleteWindowFromAnySelections cb w st)\<lparr>wins := (wins st)(w := None)\<rparr>"
  shows "sels_inv st' \<and> (\<forall>s \<in> set (CurrentSelections st'). swindow s \<noteq> w \<or> w = 0)"
proof -
  have eq: "CurrentSelections st' = map (\<lambda>s. if spWin s = Some w then no_owner s else s) (CurrentSelections st)"
    unfolding assms(2) by (simp add: DeleteWindowFromAnySelections_def clear_all_owners)
  have win: "spWin s = Some (swindow s)" if "s \<in> set (CurrentSelections st)" "swindow s \<noteq> 0" for s
    using assms(1) that by (auto simp: sels_inv_def sel_ok_def)
  have "sels_inv st'"
    by (rule sels_inv_map_no_owner [OF assms(1) eq]) (use win in \<open>auto simp: assms(2)\<close>)
  moreover have "\<forall>s \<in> set (CurrentSelections st'). swindow s \<noteq> w \<or> w = 0"
    using win by (auto simp: eq no_owner_def)
  ultimately show ?thesis by blast
qed

end

section \<open>Conversion requests\<close>

definition reachable_owner :: "'a srv_scheme \<Rightarrow> atom \<Rightarrow> (xid \<times> client) option" where
  "reachable_owner st name =
     (case owns st name of
        Some (_, w, Some oc) \<Rightarrow>
          if w \<noteq> 0 \<and> oc \<noteq> serverClient \<and> \<not> clientGone st oc then Some (w, oc) else None
      | _ \<Rightarrow> None)"

text \<open>C12: A conversion request that does not fail is answered by exactly one event: the owner is
  asked for the data if there is one that can be reached, otherwise the requestor is refused.\<close>

theorem ProcConvertSelection_answered:
  assumes "pol_ok pol" and "c \<noteq> serverClient" and "\<not> clientGone st c"
    and "ProcConvertSelection pol c r st = (Success, st')"
  shows "sent st' = sent st @
    [case reachable_owner st (cs_selection r) of
       Some (w, oc) \<Rightarrow> ToClient oc (SelectionRequest (cs_time r) w (cs_requestor r) (cs_selection r)
                                    (cs_target r) (cs_property r))
     | None \<Rightarrow> ToClient c (SelectionNotify (cs_time r) (cs_requestor r) (cs_selection r) (cs_target r) 0)] \<and>
    CurrentSelections st' = CurrentSelections st"
proof -
  obtain rc1 st1 where lw: "dixLookupWindow pol c (cs_requestor r) DixSetAttrAccess st = (rc1, st1)" by fastforce
  let ?st2 = "if cs_time r = 0 then UpdateCurrentTime st1 else st1"
  let ?st3 = "set_error c (cs_selection r) ?st2"
  have "quiet st ?st2" using quiet_window [OF lw] quiet_trans [OF _ quiet_steps(2)] by auto
  then have q: "CurrentSelections ?st2 = CurrentSelections st" "sent ?st3 = sent st"
      "clientGone ?st3 = clientGone st" by (auto simp: quiet_def)
  have pol': "pol c (OSel (cs_selection r)) DixReadAccess \<noteq> BadMatch" using assms(1) by (simp add: pol_ok_def)
  note unf = assms(4) [unfolded ProcConvertSelection_def Let_def lw prod.case dixLookupSelection_def q(1)]
  show ?thesis
  proof (cases "find_key selection (cs_selection r) (CurrentSelections st)")
    case None
    then have "st' = WriteEventsToClient (Some c)
        (SelectionNotify (cs_time r) (cs_requestor r) (cs_selection r) (cs_target r) 0) ?st3"
      using unf by (auto split: if_splits)
    with None show ?thesis using assms(2,3) q
      by (simp add: reachable_owner_def owns_def WriteEventsToClient_def)
  next
    case (Some s)
    show ?thesis
    proof (cases "\<exists>oc. sclient s = Some oc \<and> swindow s \<noteq> 0 \<and> oc \<noteq> serverClient \<and> \<not> clientGone st oc")
      case True
      then obtain oc where oc: "sclient s = Some oc" "swindow s \<noteq> 0" "oc \<noteq> serverClient" "\<not> clientGone st oc"
        by blast
      then have "st' = WriteEventsToClient (Some oc) (SelectionRequest (cs_time r) (swindow s)
          (cs_requestor r) (cs_selection r) (cs_target r) (cs_property r)) ?st3"
        using unf Some pol' q(3) by (auto split: if_splits)
      with oc Some show ?thesis using q
        by (simp add: reachable_owner_def owns_def oview_def WriteEventsToClient_def)
    next
      case False
      then have "st' = WriteEventsToClient (Some c)
          (SelectionNotify (cs_time r) (cs_requestor r) (cs_selection r) (cs_target r) 0) ?st3"
        using unf Some pol' q(3) by (auto split: if_splits option.splits)
      moreover have "reachable_owner st (cs_selection r) = None"
        using False Some by (auto simp: reachable_owner_def owns_def oview_def split: option.splits)
      ultimately show ?thesis using assms(2,3) q by (simp add: WriteEventsToClient_def)
    qed
  qed
qed

definition convert_req0 :: convert_req where
  "convert_req0 = \<lparr>cs_requestor = 1, cs_selection = 1, cs_target = 1, cs_property = 1, cs_time = 0\<rparr>"

theorem ProcConvertSelection_answered_witness:
  "sent (snd (ProcConvertSelection allow 3 convert_req0 srv0)) = [ToClient 3 (SelectionNotify 0 1 1 1 0)]"
proof -
  let ?r = "ProcConvertSelection allow 3 convert_req0 srv0"
  have "fst ?r = Success"
    by (simp add: ProcConvertSelection_def convert_req0_def dixLookupWindow_def allow_def srv0_def
        convert_params_ok_def one_atom_valid dixLookupSelection_def Let_def)
  then have "?r = (Success, snd ?r)" by (metis prod.collapse)
  from ProcConvertSelection_answered [OF allow_ok _ _ this] show ?thesis
    by (simp add: serverClient_def srv0_def reachable_owner_def owns_def convert_req0_def)
qed

end
