(* ===== verification/ByteClass.thy ===== *)
theory ByteClass
  imports Prelude
begin

text \<open>
  The bit tests that the UTF-8 code applies to bytes, as intervals of byte values, and the bit
  fields it assembles, as arithmetic.
\<close>

definition byte_class :: "int \<Rightarrow> bool" where
  "byte_class n = (let b = (word_of_int n :: byte) in
     ((b AND 0x80 = 0) = (n < 128)) \<and> ((b AND 0xe0 = 0xc0) = (192 \<le> n \<and> n < 224)) \<and>
     ((b AND 0xf0 = 0xe0) = (224 \<le> n \<and> n < 240)) \<and> ((b AND 0xf8 = 0xf0) = (240 \<le> n \<and> n < 248)) \<and>
     ((b AND 0xc0 = 0x80) = (128 \<le> n \<and> n < 192)) \<and> ((b AND 0xe0 = 0xe0) = (224 \<le> n)) \<and>
     ((b AND 0xf0 = 0xf0) = (240 \<le> n)))"

lemma byte_class_all: "list_all byte_class [2..255]" "byte_class 0" "byte_class 1"
  by (simp_all add: upto_rec_numeral byte_class_def)

lemma byte_tests:
  fixes b :: byte
  shows "b AND 0x80 = 0 \<longleftrightarrow> unat b < 128" "b AND 0xe0 = 0xc0 \<longleftrightarrow> 192 \<le> unat b \<and> unat b < 224"
    "b AND 0xf0 = 0xe0 \<longleftrightarrow> 224 \<le> unat b \<and> unat b < 240" "b AND 0xf8 = 0xf0 \<longleftrightarrow> 240 \<le> unat b \<and> unat b < 248"
    "b AND 0xc0 = 0x80 \<longleftrightarrow> 128 \<le> unat b \<and> unat b < 192" "b AND 0xe0 = 0xe0 \<longleftrightarrow> 224 \<le> unat b"
    "b AND 0xf0 = 0xf0 \<longleftrightarrow> 240 \<le> unat b"
proof -
  have range: "byte_class n" if "2 \<le> n \<and> n \<le> 255" for n
    using byte_class_all(1) [unfolded list_all_iff set_upto] that by (simp only: atLeastAtMost_iff Ball_def)
  have "int (unat b) < 256" using unsigned_less [of b] by simp
  then consider "int (unat b) = 0" | "int (unat b) = 1" | "2 \<le> int (unat b) \<and> int (unat b) \<le> 255" by linarith
  then have c: "byte_class (int (unat b))"
    by cases (use byte_class_all(2,3) in \<open>simp_all only: range\<close>)
  have w: "word_of_int (int (unat b)) = b" by simp
  show "b AND 0x80 = 0 \<longleftrightarrow> unat b < 128" "b AND 0xe0 = 0xc0 \<longleftrightarrow> 192 \<le> unat b \<and> unat b < 224"
    "b AND 0xf0 = 0xe0 \<longleftrightarrow> 224 \<le> unat b \<and> unat b < 240" "b AND 0xf8 = 0xf0 \<longleftrightarrow> 240 \<le> unat b \<and> unat b < 248"
    "b AND 0xc0 = 0x80 \<longleftrightarrow> 128 \<le> unat b \<and> unat b < 192" "b AND 0xe0 = 0xe0 \<longleftrightarrow> 224 \<le> unat b"
    "b AND 0xf0 = 0xf0 \<longleftrightarrow> 240 \<le> unat b"
    using c unfolding byte_class_def Let_def w of_nat_less_numeral_iff numeral_nat_le_iff
    by simp_all
qed

lemma low_bits:
  fixes b :: byte
  shows "unat (b AND 0x3f) = unat b mod 64" "unat (b AND 0x1f) = unat b mod 32"
    "unat (b AND 0x0f) = unat b mod 16" "unat (b AND 0x07) = unat b mod 8"
proof -
  have m: "(0x3f :: byte) = mask 6" "(0x1f :: byte) = mask 5" "(0x0f :: byte) = mask 4" "(0x07 :: byte) = mask 3"
    by (simp_all add: mask_eq_exp_minus_1)
  show "unat (b AND 0x3f) = unat b mod 64" "unat (b AND 0x1f) = unat b mod 32"
    "unat (b AND 0x0f) = unat b mod 16" "unat (b AND 0x07) = unat b mod 8"
    unfolding m take_bit_eq_mask [symmetric] take_bit_eq_mod by (simp_all add: unat_mod)
qed

lemma or_low6:
  fixes d x :: u32
  assumes "unat x < 64"
  shows "push_bit 6 d OR x = d * 64 + x"
proof -
  have "unat (take_bit 6 x) = unat x" using assms by (simp add: take_bit_eq_mod unat_mod)
  then have x: "take_bit 6 x = x" by (simp add: word_unat_eq_iff)
  have "\<not> bit (push_bit 6 d) n \<or> \<not> bit x n" for n
    using arg_cong [where f = "\<lambda>y. bit y n", OF x] by (auto simp: bit_simps)
  then have "push_bit 6 d + x = push_bit 6 d OR x" by (intro disjunctive_add) auto
  then show ?thesis by (simp add: push_bit_eq_mult)
qed

lemma ucast_of_nat: "ucast (b :: byte) = (of_nat (unat b) :: u32)"
  by simp

lemma cont_field:
  fixes b :: byte and d :: u32
  shows "push_bit 6 d OR ucast (b AND 0x3f) = d * 64 + of_nat (unat b mod 64)"
proof -
  have u: "ucast (b AND 0x3f) = (of_nat (unat b mod 64) :: u32)"
    unfolding ucast_of_nat low_bits by (rule refl)
  have "unat (of_nat (unat b mod 64) :: u32) < 64" by (simp add: unat_of_nat)
  then show ?thesis unfolding u by (rule or_low6)
qed

lemma ucast_low:
  fixes b :: byte
  shows "(ucast (b AND 0x1f) :: u32) = of_nat (unat b mod 32)"
    "(ucast (b AND 0x0f) :: u32) = of_nat (unat b mod 16)" "(ucast (b AND 0x07) :: u32) = of_nat (unat b mod 8)"
  unfolding ucast_of_nat low_bits by (rule refl)+

end
