(* ===== verification/TextConv.thy ===== *)
theory TextConv
  imports ByteClass
begin

text \<open>
  The text conversions of \<open>lorie/clipboard.c\<close>. Every function works on arrays whose bounds are
  checked: a read or write outside the allocated cells makes the result \<open>None\<close>. A pointer into an
  array is the list of the cells from there on. \<open>size_t\<close> values are natural numbers with the
  reduction modulo 2 ^ 64 written where they can wrap. \<open>char\<close> is unsigned, as on ARM.
\<close>

section \<open>Operations\<close>

text \<open>\<open>lorieConvertLF\<close>: copy \<open>bytes\<close> bytes without the carriage returns.\<close>

function convertLF_loop :: "byte list \<Rightarrow> byte list \<Rightarrow> nat \<Rightarrow> nat \<Rightarrow> nat \<Rightarrow> byte list option" where
  "convertLF_loop src dst n i j =
     (if i < n then
        (case rd src i of
           None \<Rightarrow> None
         | Some c \<Rightarrow>
             if c \<noteq> 13 then
               (case wr dst j c of None \<Rightarrow> None | Some dst' \<Rightarrow> convertLF_loop src dst' n (Suc i) (Suc j))
             else convertLF_loop src dst n (Suc i) j)
      else Some dst)"
  by auto
termination by (relation "measure (\<lambda>(src, dst, n, i, j). n - i)") auto

declare convertLF_loop.simps [simp del]

definition lorieConvertLF :: "byte list \<Rightarrow> byte list \<Rightarrow> nat \<Rightarrow> byte list option" where
  "lorieConvertLF src dst n = convertLF_loop src dst n 0 0"

text \<open>\<open>lorieLatin1ToUTF8\<close>: the input pointer is the rest of the input array.\<close>

fun latin1_loop :: "byte list \<Rightarrow> nat \<Rightarrow> byte list \<Rightarrow> byte list option" where
  "latin1_loop out k [] = None"
| "latin1_loop out k (c # ins) =
     (if c = 0 then Some out
      else if c < 128 then
        (case wr out k c of None \<Rightarrow> None | Some out1 \<Rightarrow> latin1_loop out1 (k + 1) ins)
      else
        (case wr out k (0xc2 + (if c > 0xbf then 1 else 0)) of
           None \<Rightarrow> None
         | Some out1 \<Rightarrow>
             (case wr out1 (k + 1) ((c AND 0x3f) + 0x80) of
                None \<Rightarrow> None
              | Some out2 \<Rightarrow> latin1_loop out2 (k + 2) ins)))"

definition lorieLatin1ToUTF8 :: "byte list \<Rightarrow> byte list \<Rightarrow> byte list option" where
  "lorieLatin1ToUTF8 out ins = latin1_loop out 0 ins"

text \<open>\<open>lorieCheckUTF8\<close>: note that \<open>utf[ix]\<close> is read before \<open>ix < size\<close> is tested.\<close>

function checkUTF8_loop :: "byte list \<Rightarrow> nat \<Rightarrow> nat \<Rightarrow> bool option" where
  "checkUTF8_loop utf sz ix =
     (case rd utf ix of
        None \<Rightarrow> None
      | Some c \<Rightarrow>
          if c \<noteq> 0 \<and> ix < sz then
            if c AND 0x80 \<noteq> 0 then
              (case rd utf (ix + 1) of
                 None \<Rightarrow> None
               | Some c1 \<Rightarrow>
                   if c1 AND 0xc0 \<noteq> 0x80 then Some False
                   else if c AND 0xe0 = 0xe0 then
                     (case rd utf (ix + 2) of
                        None \<Rightarrow> None
                      | Some c2 \<Rightarrow>
                          if c2 AND 0xc0 \<noteq> 0x80 then Some False
                          else if c AND 0xf0 = 0xf0 then
                            if c AND 0xf8 \<noteq> 0xf0 then Some False
                            else (case rd utf (ix + 3) of
                                    None \<Rightarrow> None
                                  | Some c3 \<Rightarrow>
                                      if c3 AND 0xc0 \<noteq> 0x80 then Some False
                                      else checkUTF8_loop utf sz (ix + 4))
                          else checkUTF8_loop utf sz (ix + 3))
                   else checkUTF8_loop utf sz (ix + 2))
            else checkUTF8_loop utf sz (ix + 1)
          else Some True)"
  by auto
termination by (relation "measure (\<lambda>(utf, sz, ix). length utf - ix)") (auto simp: rd_Some_iff)

declare checkUTF8_loop.simps [simp del]

definition lorieCheckUTF8 :: "byte list \<Rightarrow> nat \<Rightarrow> bool option" where
  "lorieCheckUTF8 utf sz = checkUTF8_loop utf sz 0"

text \<open>\<open>lorieUtf8ToUCS4\<close>: the number of bytes consumed and the code point.\<close>

fun skip_cont :: "byte list \<Rightarrow> nat \<Rightarrow> nat \<Rightarrow> nat option" where
  "skip_cont [] lim consumed = (if lim = 0 then Some consumed else None)"
| "skip_cont (b # src) lim consumed =
     (if lim = 0 then Some consumed
      else if b AND 0xc0 = 0x80 then skip_cont src (lim - 1) (consumed + 1)
      else Some consumed)"

fun cont_bytes :: "nat \<Rightarrow> byte list \<Rightarrow> nat \<Rightarrow> nat \<Rightarrow> u32 \<Rightarrow> (nat \<times> u32) option" where
  "cont_bytes 0 src lim consumed dst =
     Some (consumed, if 0xd800 \<le> dst \<and> dst < 0xe000 then 0xfffd else dst)"
| "cont_bytes (Suc n) src lim consumed dst =
     (if lim = 0 then Some (consumed + 1, 0xfffd)
      else case src of
             [] \<Rightarrow> None
           | b # src' \<Rightarrow>
               if b AND 0xc0 \<noteq> 0x80 then Some (consumed + 1, 0xfffd)
               else cont_bytes n src' (lim - 1) (consumed + 1)
                      (push_bit 6 dst OR ucast (b AND 0x3f)))"

definition lorieUtf8ToUCS4 :: "byte list \<Rightarrow> nat \<Rightarrow> (nat \<times> u32) option" where
  "lorieUtf8ToUCS4 src lim =
     (if lim = 0 then Some (0, 0xfffd)
      else case src of
             [] \<Rightarrow> None
           | b # src' \<Rightarrow>
               if b AND 0x80 = 0 then cont_bytes 0 src' (lim - 1) 1 (ucast b)
               else if b AND 0xe0 = 0xc0 then cont_bytes 1 src' (lim - 1) 1 (ucast (b AND 0x1f))
               else if b AND 0xf0 = 0xe0 then cont_bytes 2 src' (lim - 1) 1 (ucast (b AND 0x0f))
               else if b AND 0xf8 = 0xf0 then cont_bytes 3 src' (lim - 1) 1 (ucast (b AND 0x07))
               else map_option (\<lambda>k. (k, 0xfffd)) (skip_cont src' (lim - 1) 1))"

text \<open>
  \<open>lorieUtf8ToLatin1\<close>: the two passes over the input. The first counts the code points, the
  second stores them in an array with one cell more. Each advances \<open>in\<close> and decreases \<open>in_len\<close>, a
  \<open>size_t\<close>, by what was consumed; advancing beyond the array leaves nothing to read.
\<close>

definition sub64 :: "nat \<Rightarrow> nat \<Rightarrow> nat" where
  "sub64 a b = (a + 2 ^ 64 - b) mod 2 ^ 64"

function latin1_count :: "byte list \<Rightarrow> nat \<Rightarrow> nat \<Rightarrow> nat option" where
  "latin1_count ins in_len sz =
     (if 0 < in_len then
        (case ins of
           [] \<Rightarrow> None
         | b # _ \<Rightarrow>
             if b \<noteq> 0 then
               (case lorieUtf8ToUCS4 ins in_len of
                  None \<Rightarrow> None
                | Some (len, ucs) \<Rightarrow>
                    if len = 0 then None
                    else latin1_count (drop len ins) (sub64 in_len len) (sz + 1))
             else Some sz)
      else Some sz)"
  by auto
termination by (relation "measure (\<lambda>(ins, in_len, sz). length ins)") auto

function latin1_store :: "byte list \<Rightarrow> nat \<Rightarrow> byte list \<Rightarrow> nat \<Rightarrow> byte list option" where
  "latin1_store ins in_len out position =
     (if 0 < in_len then
        (case ins of
           [] \<Rightarrow> None
         | b # _ \<Rightarrow>
             if b \<noteq> 0 then
               (case lorieUtf8ToUCS4 ins in_len of
                  None \<Rightarrow> None
                | Some (len, ucs) \<Rightarrow>
                    if len = 0 then None
                    else case wr out position (if ucs > 0xff then 0x3f else ucast ucs) of
                           None \<Rightarrow> None
                         | Some out' \<Rightarrow> latin1_store (drop len ins) (sub64 in_len len) out' (position + 1))
             else Some out)
      else Some out)"
  by auto
termination by (relation "measure (\<lambda>(ins, in_len, out, position). length ins)") auto

declare latin1_count.simps [simp del] latin1_store.simps [simp del]

text \<open>The result is the string that \<open>strdup\<close> copies, when its allocation succeeds.\<close>

definition lorieUtf8ToLatin1 :: "byte list \<Rightarrow> byte list option" where
  "lorieUtf8ToLatin1 src =
     (case latin1_count src (2 ^ 64 - 1) 0 of
        None \<Rightarrow> None
      | Some sz \<Rightarrow>
          (case latin1_store src 4294967295 (replicate (sz + 1) 0) 0 of
             None \<Rightarrow> None
           | Some out \<Rightarrow> Some (cstr out)))"

section \<open>UTF-8\<close>

text \<open>The encoding of a code point, and the code points that have one.\<close>

definition utf8_enc :: "nat \<Rightarrow> byte list" where
  "utf8_enc n =
     (if n < 0x80 then [of_nat n]
      else if n < 0x800 then [of_nat (0xc0 + n div 64), of_nat (0x80 + n mod 64)]
      else if n < 0x10000 then
        [of_nat (0xe0 + n div 4096), of_nat (0x80 + n div 64 mod 64), of_nat (0x80 + n mod 64)]
      else [of_nat (0xf0 + n div 262144), of_nat (0x80 + n div 4096 mod 64),
            of_nat (0x80 + n div 64 mod 64), of_nat (0x80 + n mod 64)])"

definition scalar :: "nat \<Rightarrow> bool" where
  "scalar n \<longleftrightarrow> 0 < n \<and> n < 0x110000 \<and> \<not> (0xd800 \<le> n \<and> n < 0xe000)"

definition utf8 :: "nat list \<Rightarrow> byte list" where
  "utf8 cs = concat (map utf8_enc cs)"

lemma unat_byte: "n < 256 \<Longrightarrow> unat (of_nat n :: byte) = n"
  by (simp add: unat_of_nat)

lemma no_surrogate:
  "scalar n \<Longrightarrow> (if 0xd800 \<le> (of_nat n :: u32) \<and> (of_nat n :: u32) < 0xe000 then 0xfffd else (of_nat n :: u32)) = of_nat n"
  by (auto simp: scalar_def word_le_nat_alt word_less_nat_alt unat_of_nat)

lemma cont_byte:
  assumes "128 \<le> unat b" "unat b < 192" and "0 < lim"
  shows "cont_bytes (Suc m) (b # src) lim consumed dst =
    cont_bytes m src (lim - 1) (consumed + 1) (dst * 64 + of_nat (unat b mod 64))"
  using assms by (simp add: byte_tests cont_field)

lemma cont_step:
  assumes "0 < lim" and "k < 64"
  shows "cont_bytes (Suc m) (of_nat (0x80 + k) # src) lim consumed dst =
    cont_bytes m src (lim - 1) (consumed + 1) (dst * 64 + of_nat k)"
proof -
  have u: "unat (of_nat (0x80 + k) :: byte) = 0x80 + k" using assms by (intro unat_byte) simp
  have e: "(0x80 + k) mod 64 = k" using assms(2) by (simp add: mod_if)
  show ?thesis
    using cont_byte [of "of_nat (0x80 + k)" lim m src consumed dst] assms unfolding u e by simp
qed

definition nosurr :: "u32 \<Rightarrow> u32" where
  "nosurr d = (if 0xd800 \<le> d \<and> d < 0xe000 then 0xfffd else d)"

lemma cont_all:
  "list_all (\<lambda>k. k < 64) ks \<Longrightarrow> length ks \<le> lim \<Longrightarrow>
     cont_bytes (length ks) (map (\<lambda>k. of_nat (0x80 + k)) ks @ rest) lim consumed (of_nat d) =
       Some (consumed + length ks, nosurr (of_nat (foldl (\<lambda>d k. d * 64 + k) d ks)))"
proof (induction ks arbitrary: lim consumed d)
  case (Cons k ks)
  have "(of_nat d * 64 + of_nat k :: u32) = of_nat (d * 64 + k)" by simp
  then show ?case
    using Cons cont_step [of lim k "length ks"] by (simp del: of_nat_add of_nat_mult cont_bytes.simps)
qed (simp add: nosurr_def)

lemma utf8_enc_length: "1 \<le> length (utf8_enc n)" "length (utf8_enc n) \<le> 4"
  by (simp_all add: utf8_enc_def)

lemma nosurr_scalar: "scalar n \<Longrightarrow> nosurr (of_nat n) = of_nat n"
  using no_surrogate [of n] by (simp add: nosurr_def)

lemma ucs4_byte:
  assumes "0 < lim"
  shows "192 \<le> unat b \<Longrightarrow> unat b < 224 \<Longrightarrow>
      lorieUtf8ToUCS4 (b # src) lim = cont_bytes 1 src (lim - 1) 1 (of_nat (unat b mod 32))"
    "224 \<le> unat b \<Longrightarrow> unat b < 240 \<Longrightarrow>
      lorieUtf8ToUCS4 (b # src) lim = cont_bytes 2 src (lim - 1) 1 (of_nat (unat b mod 16))"
    "240 \<le> unat b \<Longrightarrow> unat b < 248 \<Longrightarrow>
      lorieUtf8ToUCS4 (b # src) lim = cont_bytes 3 src (lim - 1) 1 (of_nat (unat b mod 8))"
  using assms by (simp_all add: lorieUtf8ToUCS4_def byte_tests ucast_low del: cont_bytes.simps)

text \<open>A lead byte of class \<open>c\<close> with payload \<open>h\<close>, followed by the payloads \<open>ks\<close>.\<close>

lemma ucs4_lead:
  assumes h: "h < m" and m: "(c, m, length ks) \<in> {(0xc0, 32, 1), (0xe0, 16, 2), (0xf0, 8, 3)}"
    and ks: "list_all (\<lambda>k. k < 64) ks" and lim: "4 \<le> lim"
  shows "lorieUtf8ToUCS4 (of_nat (c + h) # map (\<lambda>k. of_nat (0x80 + k)) ks @ rest) lim =
    Some (1 + length ks, nosurr (of_nat (foldl (\<lambda>d k. d * 64 + k) h ks)))"
proof -
  let ?b = "of_nat (c + h) :: byte" and ?src = "map (\<lambda>k. of_nat (0x80 + k)) ks @ rest"
  have u: "unat ?b = c + h" using h m by (intro unat_byte) auto
  have "length ks \<le> lim - 1" using m lim by auto
  note all = cont_all [OF ks this, of rest 1 h]
  have l: "0 < lim" using lim by simp
  consider (2) "c = 0xc0" "m = 32" "length ks = 1" | (3) "c = 0xe0" "m = 16" "length ks = 2"
    | (4) "c = 0xf0" "m = 8" "length ks = 3" using m by auto
  then have "lorieUtf8ToUCS4 (?b # ?src) lim = cont_bytes (length ks) ?src (lim - 1) 1 (of_nat h)"
  proof cases
    case 2
    have e: "(c + h) mod 32 = h" using h 2 by (simp add: mod_if)
    show ?thesis using ucs4_byte(1) [OF l, of ?b ?src] h 2 unfolding u e by simp
  next
    case 3
    have e: "(c + h) mod 16 = h" using h 3 by (simp add: mod_if)
    show ?thesis using ucs4_byte(2) [OF l, of ?b ?src] h 3 unfolding u e by simp
  next
    case 4
    have e: "(c + h) mod 8 = h" using h 4 by (simp add: mod_if)
    show ?thesis using ucs4_byte(3) [OF l, of ?b ?src] h 4 unfolding u e by simp
  qed
  then show ?thesis unfolding all .
qed

lemma utf8_enc_lead:
  assumes "scalar n" and "0x80 \<le> n"
  obtains c h m ks where "utf8_enc n = of_nat (c + h) # map (\<lambda>k. of_nat (0x80 + k)) ks" "h < m"
    "(c, m, length ks) \<in> {(0xc0, 32, 1), (0xe0, 16, 2), (0xf0, 8, 3)}" "list_all (\<lambda>k. k < 64) ks"
    "foldl (\<lambda>d k. d * 64 + k) h ks = n"
proof -
  note pick = that
  have d: "n div 64 * 64 + n mod 64 = n" "n div 4096 * 64 + n div 64 mod 64 = n div 64"
    "n div 262144 * 64 + n div 4096 mod 64 = n div 4096"
    using div_mult2_eq [of n 64 64] div_mult2_eq [of n 4096 64] by simp_all
  consider (2) "n < 0x800" | (3) "0x800 \<le> n" "n < 0x10000" | (4) "0x10000 \<le> n" by linarith
  then show thesis
  proof cases
    case 2
    show thesis by (rule pick [where c = "0xc0" and h = "n div 64" and ks = "[n mod 64]" and m = 32])
      (use 2 assms d in \<open>simp_all add: utf8_enc_def\<close>)
  next
    case 3
    show thesis by (rule pick [where c = "0xe0" and h = "n div 4096" and ks = "[n div 64 mod 64, n mod 64]" and m = 16])
      (use 3 assms d in \<open>simp_all add: utf8_enc_def\<close>)
  next
    case 4
    show thesis by (rule pick [where c = "0xf0" and h = "n div 262144" and
        ks = "[n div 4096 mod 64, n div 64 mod 64, n mod 64]" and m = 8])
      (use 4 assms d in \<open>simp_all add: utf8_enc_def scalar_def\<close>)
  qed
qed

lemma ucs4_utf8_enc:
  assumes n: "scalar n" and lim: "4 \<le> lim"
  shows "lorieUtf8ToUCS4 (utf8_enc n @ rest) lim = Some (length (utf8_enc n), of_nat n)"
proof (cases "n < 0x80")
  case True
  have "unat (of_nat n :: byte) = n" using True by (intro unat_byte) simp
  then show ?thesis using True lim no_surrogate [OF n]
    by (simp add: lorieUtf8ToUCS4_def utf8_enc_def byte_tests ucast_of_nat)
next
  case False
  then have "0x80 \<le> n" by simp
  with n obtain c h m ks where e: "utf8_enc n = of_nat (c + h) # map (\<lambda>k. of_nat (0x80 + k)) ks" "h < m"
    "(c, m, length ks) \<in> {(0xc0, 32, 1), (0xe0, 16, 2), (0xf0, 8, 3)}" "list_all (\<lambda>k. k < 64) ks"
    "foldl (\<lambda>d k. d * 64 + k) h ks = n" by (rule utf8_enc_lead)
  show ?thesis
    using ucs4_lead [OF e(2-4) lim, of rest] by (simp add: e(1,5) nosurr_scalar [OF n])
qed

section \<open>From UTF-8 to Latin-1\<close>

definition latin1 :: "nat \<Rightarrow> byte" where
  "latin1 n = (if n > 0xff then 0x3f else of_nat n)"

lemma utf8_enc_hd: "scalar n \<Longrightarrow> \<exists>b bs. utf8_enc n = b # bs \<and> b \<noteq> 0"
proof (cases "n < 0x80")
  case True
  assume "scalar n"
  then have "(of_nat n :: byte) \<noteq> 0" using True unat_byte [of n] by (auto simp: scalar_def word_unat_eq_iff)
  with True show ?thesis by (simp add: utf8_enc_def)
next
  case False
  assume n: "scalar n"
  from False have "0x80 \<le> n" by simp
  from n this obtain c h m ks where e: "utf8_enc n = of_nat (c + h) # map (\<lambda>k. of_nat (0x80 + k)) ks" "h < m"
    "(c, m, length ks) \<in> {(0xc0, 32, 1), (0xe0, 16, 2), (0xf0, 8, 3)}" by (rule utf8_enc_lead)
  have "unat (of_nat (c + h) :: byte) = c + h" using e(2,3) by (intro unat_byte) auto
  moreover have "0 < c + h" using e(3) by auto
  ultimately have "(of_nat (c + h) :: byte) \<noteq> 0" by (metis unat_0 less_irrefl)
  with e(1) show ?thesis by simp
qed

lemma utf8_simps: "utf8 [] = []" "utf8 (n # cs) = utf8_enc n @ utf8 cs"
  by (simp_all add: utf8_def)

lemma sub64_le: "b \<le> a \<Longrightarrow> a < 2 ^ 64 \<Longrightarrow> sub64 a b = a - b"
proof -
  assume "b \<le> a" "a < 2 ^ 64"
  then have "a + 2 ^ 64 - b = (a - b) + 2 ^ 64" "a - b < 2 ^ 64" by auto
  then show ?thesis by (simp only: sub64_def mod_add_self2 mod_less)
qed

lemma latin1_ucs:
  "scalar n \<Longrightarrow> (if (of_nat n :: u32) > 0xff then 0x3f else ucast (of_nat n :: u32)) = latin1 n"
proof -
  assume "scalar n"
  then have u: "unat (of_nat n :: u32) = n" by (simp add: scalar_def unat_of_nat)
  have "(of_nat n :: u32) > 0xff \<longleftrightarrow> n > 0xff" by (simp add: word_less_nat_alt u)
  moreover have "n \<le> 0xff \<Longrightarrow> (ucast (of_nat n :: u32) :: byte) = of_nat n"
    by (rule word_unat_eq_iff [THEN iffD2]) (simp add: unsigned_ucast_eq u unat_of_nat take_bit_eq_mod unat_mod)
  ultimately show ?thesis by (simp add: latin1_def)
qed

lemma latin1_count_skip:
  "list_all scalar cs \<Longrightarrow> length (utf8 cs) + 4 \<le> in_len \<Longrightarrow> in_len < 2 ^ 64 \<Longrightarrow>
     latin1_count (utf8 cs @ tail) in_len sz =
       latin1_count tail (in_len - length (utf8 cs)) (sz + length cs)"
proof (induction cs arbitrary: in_len sz)
  case Nil
  then show ?case by (simp add: utf8_simps)
next
  case (Cons n cs)
  then have n: "scalar n" by simp
  from utf8_enc_hd [OF n] obtain b bs where b: "utf8_enc n = b # bs" "b \<noteq> 0" by blast
  let ?l = "length (utf8_enc n)" and ?tail = "utf8 cs @ tail"
  have l: "?l \<le> in_len" "4 \<le> in_len" "0 < ?l" using Cons.prems(2) utf8_enc_length [of n] by (auto simp: utf8_simps)
  have dec: "lorieUtf8ToUCS4 (b # bs @ ?tail) in_len = Some (?l, of_nat n)"
    using ucs4_utf8_enc [OF n l(2), of ?tail] by (simp add: b(1))
  have drp: "drop ?l (b # bs @ ?tail) = ?tail" by (simp add: b(1))
  have "latin1_count (utf8 (n # cs) @ tail) in_len sz = latin1_count ?tail (in_len - ?l) (sz + 1)"
    using b l dec drp Cons.prems(3) by (simp add: utf8_simps latin1_count.simps [of "b # bs @ ?tail"] sub64_le)
  also have "\<dots> = latin1_count tail (in_len - ?l - length (utf8 cs)) (sz + 1 + length cs)"
    using Cons.prems by (intro Cons.IH) (auto simp: utf8_simps)
  finally show ?case by (simp add: utf8_simps)
qed

lemma latin1_count_utf8:
  "list_all scalar cs \<Longrightarrow> length (utf8 cs) + 4 \<le> in_len \<Longrightarrow> in_len < 2 ^ 64 \<Longrightarrow>
     latin1_count (utf8 cs @ 0 # rest) in_len sz = Some (sz + length cs)"
  by (simp add: latin1_count_skip latin1_count.simps [of "0 # rest"])

lemma latin1_store_utf8:
  "list_all scalar cs \<Longrightarrow> length (utf8 cs) + 4 \<le> in_len \<Longrightarrow> in_len < 2 ^ 64 \<Longrightarrow>
     latin1_store (utf8 cs @ 0 # rest) in_len (pre @ replicate (length cs) 0 @ post) (length pre) =
       Some (pre @ map latin1 cs @ post)"
proof (induction cs arbitrary: in_len pre)
  case Nil
  then show ?case by (simp add: utf8_simps latin1_store.simps)
next
  case (Cons n cs)
  then have n: "scalar n" by simp
  from utf8_enc_hd [OF n] obtain b bs where b: "utf8_enc n = b # bs" "b \<noteq> 0" by blast
  let ?l = "length (utf8_enc n)" and ?tail = "utf8 cs @ 0 # rest"
  have l: "?l \<le> in_len" "4 \<le> in_len" "0 < ?l" using Cons.prems(2) utf8_enc_length [of n] by (auto simp: utf8_simps)
  have dec: "lorieUtf8ToUCS4 (b # bs @ ?tail) in_len = Some (?l, of_nat n)"
    using ucs4_utf8_enc [OF n l(2), of ?tail] by (simp add: b(1))
  have drp: "drop ?l (b # bs @ ?tail) = ?tail" by (simp add: b(1))
  have "latin1_store (utf8 (n # cs) @ 0 # rest) in_len (pre @ replicate (length (n # cs)) 0 @ post) (length pre) =
      latin1_store ?tail (in_len - ?l) ((pre @ [latin1 n]) @ replicate (length cs) 0 @ post) (length (pre @ [latin1 n]))"
    using b l dec drp Cons.prems(3) latin1_ucs [OF n]
    by (simp add: utf8_simps latin1_store.simps [of "b # bs @ ?tail"] sub64_le)
  also have "\<dots> = Some ((pre @ [latin1 n]) @ map latin1 cs @ post)"
    using Cons.prems by (intro Cons.IH) (auto simp: utf8_simps)
  finally show ?case by simp
qed

lemma latin1_nonzero: "scalar n \<Longrightarrow> latin1 n \<noteq> 0"
  using unat_byte [of n] by (auto simp: latin1_def scalar_def word_unat_eq_iff)

lemma Utf8ToLatin1_spec:
  assumes "list_all scalar cs" and "length (utf8 cs) + 4 < 2 ^ 32"
  shows "lorieUtf8ToLatin1 (utf8 cs @ 0 # rest) = Some (map latin1 cs)"
proof -
  have "latin1_count (utf8 cs @ 0 # rest) (2 ^ 64 - 1) 0 = Some (length cs)"
    using latin1_count_utf8 [OF assms(1)] assms(2) by simp
  moreover have "latin1_store (utf8 cs @ 0 # rest) 4294967295 (replicate (length cs + 1) 0) 0 =
      Some (map latin1 cs @ [0])"
    using latin1_store_utf8 [OF assms(1), of 4294967295 rest "[]" "[0]"] assms(2)
    by (simp add: replicate_append_same [symmetric])
  moreover have "nul_free (map latin1 cs)"
    using assms(1) latin1_nonzero by (auto simp: nul_free_def list_all_iff)
  ultimately show ?thesis by (simp add: lorieUtf8ToLatin1_def)
qed

text \<open>C14: A NUL-terminated UTF-8 text of less than 4 GB is converted without touching memory
  outside the two arrays; every code point up to 0xff becomes its Latin-1 byte and every other
  one a question mark.\<close>

theorem lorieUtf8ToLatin1_correct:
  assumes "list_all scalar cs" and "length (utf8 cs) + 4 < 2 ^ 32"
  shows "lorieUtf8ToLatin1 (utf8 cs @ 0 # rest) = Some (map latin1 cs)"
  by (rule Utf8ToLatin1_spec [OF assms])

theorem lorieUtf8ToLatin1_correct_witness:
  "lorieUtf8ToLatin1 (utf8 [0x61, 0xe9, 0x20ac, 0x1f600] @ [0]) = Some [0x61, 0xe9, 0x3f, 0x3f]"
  using lorieUtf8ToLatin1_correct [of "[0x61, 0xe9, 0x20ac, 0x1f600]" "[]"]
  by (simp add: scalar_def utf8_def utf8_enc_def latin1_def)

section \<open>From Latin-1 to UTF-8\<close>

lemma byte_of_unat: "unat (b :: byte) = n \<Longrightarrow> b = of_nat n"
  by auto

lemma latin1_pair:
  fixes c :: byte
  assumes "\<not> c < 128"
  shows "[0xc2 + (if c > 0xbf then 1 else 0), (c AND 0x3f) + 0x80] = utf8_enc (unat c)"
proof -
  have c: "128 \<le> unat c" "unat c < 256"
    using assms unsigned_less [of c] by (auto simp: word_less_nat_alt)
  have "unat (0xc2 + (if c > 0xbf then 1 else 0) :: byte) = 0xc0 + unat c div 64"
    using c by (auto simp: word_less_nat_alt)
  then have 1: "0xc2 + (if c > 0xbf then 1 else 0) = (of_nat (0xc0 + unat c div 64) :: byte)"
    by (rule byte_of_unat)
  have "unat ((c AND 0x3f) + 0x80) = 0x80 + unat c mod 64"
    by (simp add: unat_word_ariths low_bits)
  then have 2: "(c AND 0x3f) + 0x80 = (of_nat (0x80 + unat c mod 64) :: byte)"
    by (rule byte_of_unat)
  show ?thesis using c 1 2 by (simp add: utf8_enc_def)
qed

lemma latin1_single: "(c :: byte) < 128 \<Longrightarrow> utf8_enc (unat c) = [c]"
  by (simp add: utf8_enc_def word_less_nat_alt)

lemma latin1_loop_utf8:
  "nul_free s \<Longrightarrow>
     latin1_loop (pre @ replicate (length (utf8 (map unat s)) + k) 0) (length pre) (s @ 0 # rest) =
       Some (pre @ utf8 (map unat s) @ replicate k 0)"
proof (induction s arbitrary: pre)
  case Nil
  then show ?case by (simp add: utf8_simps)
next
  case (Cons c s)
  let ?n = "length (utf8 (map unat s)) + k"
  from Cons.prems have c: "c \<noteq> 0" "nul_free s" by auto
  show ?case
  proof (cases "c < 128")
    case True
    have "latin1_loop (pre @ 0 # replicate ?n 0) (length pre) ((c # s) @ 0 # rest) =
        latin1_loop ((pre @ [c]) @ replicate ?n 0) (length (pre @ [c])) (s @ 0 # rest)"
      using c True by simp
    with Cons.IH [OF c(2), of "pre @ [c]"] show ?thesis by (simp add: utf8_simps latin1_single [OF True])
  next
    case False
    define x y where "x = (0xc2 + (if c > 0xbf then 1 else 0) :: byte)" and "y = (c AND 0x3f) + 0x80"
    have e: "utf8_enc (unat c) = [x, y]" using latin1_pair [OF False] by (simp add: x_def y_def)
    have w: "wr (pre @ x # 0 # replicate ?n 0) (length pre + 1) y = Some (pre @ x # y # replicate ?n 0)"
      using wr_append [of "pre @ [x]" 0 "replicate ?n 0" y] by simp
    have "latin1_loop (pre @ 0 # 0 # replicate ?n 0) (length pre) ((c # s) @ 0 # rest) =
        latin1_loop ((pre @ [x, y]) @ replicate ?n 0) (length (pre @ [x, y])) (s @ 0 # rest)"
      using c False w by (simp add: x_def [symmetric] y_def [symmetric])
    with Cons.IH [OF c(2), of "pre @ [x, y]"] show ?thesis by (simp add: utf8_simps e)
  qed
qed

lemma utf8_latin1_length: "length (utf8 (map unat (s :: byte list))) \<le> 2 * length s"
proof (induction s)
  case (Cons c s)
  have "unat c < 256" using unsigned_less [of c] by simp
  then have "length (utf8_enc (unat c)) \<le> 2" by (simp add: utf8_enc_def)
  with Cons show ?case by (simp add: utf8_simps)
qed (simp add: utf8_simps)

lemma Latin1ToUTF8_spec:
  assumes "nul_free s"
  shows "\<exists>k. 2 \<le> k \<and> lorieLatin1ToUTF8 (replicate ((length s + 1) * 2) 0) (s @ 0 # rest) =
    Some (utf8 (map unat s) @ replicate k 0)"
proof -
  let ?k = "(length s + 1) * 2 - length (utf8 (map unat s))"
  have k: "2 \<le> ?k" "length (utf8 (map unat s)) + ?k = (length s + 1) * 2"
    using utf8_latin1_length [of s] by auto
  show ?thesis
    using latin1_loop_utf8 [OF assms, of "[]" ?k rest] k
    by (auto simp: lorieLatin1ToUTF8_def intro!: exI [of _ ?k])
qed

lemma unat_scalar: "c \<noteq> 0 \<Longrightarrow> scalar (unat (c :: byte))" "latin1 (unat (c :: byte)) = c"
proof -
  have "unat c < 256" using unsigned_less [of c] by simp
  then show "c \<noteq> 0 \<Longrightarrow> scalar (unat c)" "latin1 (unat c) = c"
    by (auto simp: scalar_def latin1_def unat_gt_0)
qed

text \<open>C15: A Latin-1 text fits the buffer of twice its size that the caller provides, and
  converting it to UTF-8 and back yields the text.\<close>

theorem latin1_utf8_roundtrip:
  assumes "nul_free s" and "2 * length s + 4 < 2 ^ 32"
  shows "\<exists>out. lorieLatin1ToUTF8 (replicate ((length s + 1) * 2) 0) (s @ 0 # rest) = Some out \<and>
    lorieUtf8ToLatin1 out = Some s"
proof -
  obtain k where k: "2 \<le> k" "lorieLatin1ToUTF8 (replicate ((length s + 1) * 2) 0) (s @ 0 # rest) =
      Some (utf8 (map unat s) @ replicate k 0)" using Latin1ToUTF8_spec [OF assms(1)] by blast
  obtain j where "replicate k (0 :: byte) = 0 # replicate j 0" using k(1) by (cases k) auto
  moreover have "list_all scalar (map unat s)"
    using assms(1) unat_scalar(1) by (auto simp: list_all_iff nul_free_def) metis
  then have "lorieUtf8ToLatin1 (utf8 (map unat s) @ 0 # replicate j 0) = Some (map latin1 (map unat s))"
    by (rule Utf8ToLatin1_spec) (use utf8_latin1_length [of s] assms(2) in linarith)
  ultimately show ?thesis using k(2) by (auto simp: unat_scalar(2) map_idI)
qed

theorem latin1_utf8_roundtrip_witness:
  "\<exists>out. lorieLatin1ToUTF8 (replicate 8 0) ([0x41, 0xe9, 0xff] @ [0]) = Some out \<and>
     lorieUtf8ToLatin1 out = Some [0x41, 0xe9, 0xff]"
  using latin1_utf8_roundtrip [of "[0x41, 0xe9, 0xff]" "[]"] by simp

section \<open>Removing carriage returns\<close>

lemma convertLF_loop_spec:
  "n \<le> length src \<Longrightarrow> i \<le> n \<Longrightarrow> length pre \<le> i \<Longrightarrow>
     convertLF_loop src (pre @ replicate (n - i + m) 0) n i (length pre) =
       Some (let ys = filter (\<lambda>c. c \<noteq> 13) (take (n - i) (drop i src))
             in pre @ ys @ replicate (n - i + m - length ys) 0)"
proof (induction "n - i" arbitrary: i pre m)
  case 0
  then show ?case by (simp add: convertLF_loop.simps)
next
  case (Suc k)
  then have i: "i < n" "i < length src" by auto
  have split: "take (n - i) (drop i src) = src ! i # take (n - Suc i) (drop (Suc i) src)"
    using i by (metis Cons_nth_drop_Suc Suc_diff_Suc take_Suc_Cons)
  have ni: "n - i = Suc (n - Suc i)" using i by simp
  show ?case
  proof (cases "src ! i = 13")
    case True
    have "convertLF_loop src (pre @ replicate (n - i + m) 0) n i (length pre) =
        convertLF_loop src (pre @ replicate (n - Suc i + (m + 1)) 0) n (Suc i) (length pre)"
      using i True ni by (simp add: convertLF_loop.simps [of src _ n i] rd_def)
    with Suc.hyps(1) [of "Suc i" pre "m + 1"] Suc.hyps(2) Suc.prems i True split show ?thesis
      by (simp add: Let_def)
  next
    case False
    let ?pre = "pre @ [src ! i]"
    have "convertLF_loop src (pre @ replicate (n - i + m) 0) n i (length pre) =
        convertLF_loop src (?pre @ replicate (n - Suc i + m) 0) n (Suc i) (length ?pre)"
      using i False ni by (simp add: convertLF_loop.simps [of src _ n i] rd_def)
    with Suc.hyps(1) [of "Suc i" ?pre m] Suc.hyps(2) Suc.prems i False split show ?thesis
      by (simp add: Let_def)
  qed
qed

text \<open>\<open>lorieHandleSelection\<close> calls it with a zeroed array of one cell more than the source.\<close>

lemma lorieConvertLF_spec:
  "lorieConvertLF src (replicate (length src + 1) 0) (length src) =
     Some (let ys = filter (\<lambda>c. c \<noteq> 13) src in ys @ replicate (length src + 1 - length ys) 0)"
  using convertLF_loop_spec [of "length src" src 0 "[]" 1] by (simp add: lorieConvertLF_def Let_def)

lemma lorieConvertLF_cstr:
  assumes "lorieConvertLF src (replicate (length src + 1) 0) (length src) = Some dst"
  shows "cstr dst = filter (\<lambda>c. c \<noteq> 13) (cstr src)"
proof -
  have "length (filter (\<lambda>c. c \<noteq> 13) src) \<le> length src" by simp
  then obtain k where "length src + 1 - length (filter (\<lambda>c. c \<noteq> 13) src) = Suc k"
    by (metis Suc_diff_le Suc_eq_plus1)
  then have "dst = filter (\<lambda>c. c \<noteq> 13) src @ 0 # replicate k 0"
    using assms [unfolded lorieConvertLF_spec Let_def] by simp
  moreover have "cstr (filter (\<lambda>c. c \<noteq> 13) xs @ 0 # ys) = filter (\<lambda>c. c \<noteq> 13) (cstr xs)" for xs ys
    by (induction xs) (auto simp: cstr_def)
  ultimately show ?thesis by simp
qed

lemma utf8_enc_high:
  assumes "scalar n" "0x80 \<le> n" "b \<in> set (utf8_enc n)"
  shows "128 \<le> unat b"
proof -
  from assms(1,2) obtain c h m ks where e: "utf8_enc n = of_nat (c + h) # map (\<lambda>k. of_nat (0x80 + k)) ks" "h < m"
    "(c, m, length ks) \<in> {(0xc0, 32, 1), (0xe0, 16, 2), (0xf0, 8, 3)}" "list_all (\<lambda>k. k < 64) ks"
    by (rule utf8_enc_lead)
  from assms(3) e(1) consider "b = of_nat (c + h)" | k where "k \<in> set ks" "b = of_nat (0x80 + k)" by auto
  then show ?thesis
  proof cases
    case 1
    have "unat (of_nat (c + h) :: byte) = c + h" using e(2,3) by (intro unat_byte) auto
    then show ?thesis using 1 e(3) by auto
  next
    case 2
    then have "unat (of_nat (0x80 + k) :: byte) = 0x80 + k" using e(4) by (intro unat_byte) (auto simp: list_all_iff)
    then show ?thesis using 2 by auto
  qed
qed

lemma utf8_byte_char:
  assumes "list_all scalar cs" "m < 0x80" "of_nat m \<in> set (utf8 cs)"
  shows "m \<in> set cs"
proof -
  from assms(3) obtain n where n: "n \<in> set cs" "of_nat m \<in> set (utf8_enc n)" by (auto simp: utf8_def)
  have u: "unat (of_nat m :: byte) = m" using assms(2) by (intro unat_byte) simp
  show ?thesis
  proof (cases "n < 0x80")
    case True
    then have un: "unat (of_nat n :: byte) = n" by (intro unat_byte) simp
    have "utf8_enc n = [of_nat n]" using True by (simp add: utf8_enc_def)
    then have "(of_nat m :: byte) = of_nat n" using n(2) by (simp only: list.set singleton_iff)
    from arg_cong [where f = unat, OF this] have "m = n" unfolding u un .
    then show ?thesis using n(1) by simp
  next
    case False
    then show ?thesis using utf8_enc_high [of n "of_nat m"] n assms(1,2) u by (simp add: list_all_iff)
  qed
qed

lemma utf8_nul_free: "list_all scalar cs \<Longrightarrow> nul_free (utf8 cs)"
  using utf8_byte_char [of cs 0] by (auto simp: nul_free_def list_all_iff scalar_def)

lemma utf8_filter_cr:
  "list_all scalar cs \<Longrightarrow> filter (\<lambda>b. b \<noteq> 13) (utf8 cs) = utf8 (filter (\<lambda>n. n \<noteq> 13) cs)"
proof (induction cs)
  case (Cons n cs)
  have "filter (\<lambda>b. b \<noteq> 13) (utf8_enc n) = (if n = 13 then [] else utf8_enc n)"
  proof (cases "n = 13")
    case False
    then have "(13 :: byte) \<notin> set (utf8_enc n)"
      using utf8_byte_char [of "[n]" 13] Cons.prems by (auto simp: utf8_def)
    then show ?thesis using False by (auto simp: filter_id_conv)
  qed (simp add: utf8_enc_def)
  then show ?case using Cons by (simp add: utf8_simps)
qed (simp add: utf8_simps)

section \<open>Checking UTF-8\<close>

text \<open>One iteration of the check steps over the encoding of one code point.\<close>

lemma check_step:
  assumes n: "scalar n" and size: "length pre + length (utf8_enc n) \<le> sz"
  shows "checkUTF8_loop (pre @ utf8_enc n @ rest) sz (length pre) =
    checkUTF8_loop (pre @ utf8_enc n @ rest) sz (length pre + length (utf8_enc n))"
proof -
  let ?u = "pre @ utf8_enc n @ rest"
  obtain b bs where b: "utf8_enc n = b # bs" "b \<noteq> 0" using utf8_enc_hd [OF n] by blast
  have r0: "rd ?u (length pre) = Some b" using b by simp
  have lt: "length pre < sz" using size b by simp
  show ?thesis
  proof (cases "n < 0x80")
    case True
    have "unat (of_nat n :: byte) = n" using True by (intro unat_byte) simp
    then have "b AND 0x80 = 0" "bs = []" using True b(1) by (auto simp: utf8_enc_def byte_tests)
    then show ?thesis using r0 lt b by (subst checkUTF8_loop.simps) simp
  next
    case False
    then have "0x80 \<le> n" by simp
    with n obtain c h m ks where e: "utf8_enc n = of_nat (c + h) # map (\<lambda>k. of_nat (0x80 + k)) ks" "h < m"
      "(c, m, length ks) \<in> {(0xc0, 32, 1), (0xe0, 16, 2), (0xf0, 8, 3)}" "list_all (\<lambda>k. k < 64) ks"
      by (rule utf8_enc_lead)
    have u: "unat b = c + h" using e(1,2,3) b(1) by (auto intro!: unat_byte simp del: of_nat_add)
    have cont: "\<exists>x. rd ?u (length pre + Suc i) = Some x \<and> x AND 0xc0 = 0x80" if "i < length ks" for i
    proof -
      have "ks ! i < 64" using e(4) that by (simp add: list_all_length)
      then have "unat (of_nat (0x80 + ks ! i) :: byte) = 0x80 + ks ! i" by (intro unat_byte) simp
      moreover have "rd ?u (length pre + Suc i) = Some (of_nat (0x80 + ks ! i))"
        unfolding rd_append_ge e(1) using that by (simp add: rd_def nth_append del: of_nat_add)
      ultimately show ?thesis using \<open>ks ! i < 64\<close> by (simp add: byte_tests del: of_nat_add)
    qed
    have len: "length (utf8_enc n) = Suc (length ks)" using e(1) by simp
    have four: "length pre + 4 = Suc (Suc (Suc (Suc (length pre))))" by simp
    from e(3) consider (2) "c = 0xc0" "m = 32" "length ks = 1" | (3) "c = 0xe0" "m = 16" "length ks = 2"
      | (4) "c = 0xf0" "m = 8" "length ks = 3" by auto
    then show ?thesis
    proof cases
      case 2
      with cont [of 0] r0 lt b u e(2) show ?thesis unfolding len
        by (subst checkUTF8_loop.simps) (auto simp: byte_tests)
    next
      case 3
      with cont [of 0] cont [of 1] r0 lt b u e(2) show ?thesis unfolding len
        by (subst checkUTF8_loop.simps) (auto simp: byte_tests numeral_2_eq_2 numeral_3_eq_3)
    next
      case 4
      with cont [of 0] cont [of 1] cont [of 2] r0 lt b u e(2) show ?thesis unfolding len
        by (subst checkUTF8_loop.simps) (auto simp: byte_tests numeral_2_eq_2 numeral_3_eq_3 four)
    qed
  qed
qed

lemma check_utf8:
  "list_all scalar cs \<Longrightarrow> length pre + length (utf8 cs) \<le> sz \<Longrightarrow>
     checkUTF8_loop (pre @ utf8 cs @ rest) sz (length pre) =
       checkUTF8_loop (pre @ utf8 cs @ rest) sz (length pre + length (utf8 cs))"
proof (induction cs arbitrary: pre)
  case (Cons n cs)
  have "checkUTF8_loop (pre @ utf8_enc n @ utf8 cs @ rest) sz (length pre) =
      checkUTF8_loop ((pre @ utf8_enc n) @ utf8 cs @ rest) sz (length (pre @ utf8_enc n))"
    using Cons.prems check_step [of n pre sz "utf8 cs @ rest"] by (simp add: utf8_simps)
  also have "\<dots> = checkUTF8_loop ((pre @ utf8_enc n) @ utf8 cs @ rest) sz
      (length (pre @ utf8_enc n) + length (utf8 cs))"
    using Cons.prems by (intro Cons.IH) (auto simp: utf8_simps)
  finally show ?case by (simp add: utf8_simps add.assoc)
qed (simp add: utf8_simps)



text \<open>When the text fills its array exactly, as the data of a property does, the check of any
  well-formed text reads the cell after the end of the array.\<close>

theorem lorieCheckUTF8_overrun:
  assumes "list_all scalar cs"
  shows "lorieCheckUTF8 (utf8 cs) (length (utf8 cs)) = None"
  using check_utf8 [OF assms, of "[]" "length (utf8 cs)" "[]"]
  by (simp add: lorieCheckUTF8_def checkUTF8_loop.simps [of _ _ "length (utf8 cs)"] rd_out)

theorem lorieCheckUTF8_overrun_witness:
  "lorieCheckUTF8 (utf8 [0x61, 0x62]) (length (utf8 [0x61, 0x62])) = None"
  using lorieCheckUTF8_overrun [of "[0x61, 0x62]"] by (simp add: scalar_def)

lemma ucs4_lead_nul:
  assumes "192 \<le> unat b" "unat b < 224" and "4 \<le> lim"
  shows "lorieUtf8ToUCS4 [b, 0] lim = Some (2, 0xfffd)"
proof -
  have "lorieUtf8ToUCS4 [b, 0] lim = cont_bytes 1 [0] (lim - 1) 1 (of_nat (unat b mod 32))"
    using assms by (intro ucs4_byte(1)) auto
  then show ?thesis using assms(3) by simp
qed

text \<open>A text that ends inside a multi-byte sequence is read beyond its terminating NUL: the
  terminator is counted as part of the broken sequence, and the conversion continues with
  whatever follows.\<close>

theorem lorieUtf8ToLatin1_overrun:
  assumes "list_all scalar cs" and "length (utf8 cs) + 8 < 2 ^ 32" and "b AND 0xe0 = 0xc0"
  shows "lorieUtf8ToLatin1 (utf8 cs @ [b, 0]) = None"
proof -
  define l :: nat where "l = 2 ^ 64 - 1 - length (utf8 cs)"
  have b: "192 \<le> unat b" "unat b < 224" "b \<noteq> 0" using assms(3) by (auto simp: byte_tests)
  have l: "4 \<le> l" "l < 2 ^ 64" using assms(2) by (auto simp: l_def)
  have "latin1_count (utf8 cs @ [b, 0]) (2 ^ 64 - 1) 0 = latin1_count [b, 0] l (length cs)"
    using latin1_count_skip [OF assms(1), of "2 ^ 64 - 1" "[b, 0]" 0] assms(2) by (simp add: l_def)
  also have "lorieUtf8ToUCS4 [b, 0] l = Some (2, 0xfffd)"
    by (rule ucs4_lead_nul [OF b(1,2) l(1)])
  then have "latin1_count [b, 0] l (length cs) = latin1_count [] (sub64 l 2) (length cs + 1)"
    using b(3) l by (subst latin1_count.simps) simp
  also have "\<dots> = None" using l by (subst latin1_count.simps) (simp add: sub64_le)
  finally show ?thesis by (simp add: lorieUtf8ToLatin1_def)
qed

theorem lorieUtf8ToLatin1_overrun_witness:
  "lorieUtf8ToLatin1 (utf8 [0x61] @ [0xc3, 0]) = None"
  using lorieUtf8ToLatin1_overrun [of "[0x61]" "0xc3"] by (simp add: scalar_def utf8_def utf8_enc_def)

end
