(* ===== verification/Clipboard.thy ===== *)
theory Clipboard
  imports Selection TextConv
begin

text \<open>
  The clipboard of \<open>lorie/clipboard.c\<close>, which joins the X selection CLIPBOARD with the clipboard of
  Android, and the two functions of \<open>cmdentrypoint.cpp\<close> that write to the connection. The server
  state is extended by the static variables of the file and by the log of what is written to the
  Android side. An operation that would access memory outside an array has the value \<open>None\<close>. The
  parameter \<open>slack\<close> is what follows the data of a property in memory: the strict reading of the C
  standard is \<open>slack = []\<close>, a heap that rounds blocks up gives some bytes. Atoms in property data
  are little-endian, as on the Android targets.
\<close>

section \<open>State\<close>

datatype connEvent = ClipboardSend "byte list" | ClipboardRequest

record LorieDataTarget =
  t_client :: client
  t_selection :: atom
  t_target :: atom
  t_property :: atom
  t_requestor :: xid
  t_time :: u32

record clip = srv +
  clipboardEnabled :: bool
  cachedData :: "byte list option"
  lorieDataTargets :: "LorieDataTarget list"
  connected :: bool
  connOut :: "connEvent list"
  xaTIMESTAMP :: atom
  xaTEXT :: atom
  xaCLIPBOARD :: atom
  xaTARGETS :: atom
  xaSTRING :: atom
  xaUTF8_STRING :: atom

definition XA_ATOM :: atom where "XA_ATOM = 4"
definition XA_INTEGER :: atom where "XA_INTEGER = 19"
definition XA_STRING :: atom where "XA_STRING = 31"

section \<open>Connection (cmdentrypoint.cpp)\<close>

definition lorieSendClipboardData :: "byte list \<Rightarrow> clip \<Rightarrow> clip" where
  "lorieSendClipboardData dat st =
     (if connected st then st\<lparr>connOut := connOut st @ [ClipboardSend (cstr dat)]\<rparr> else st)"

definition lorieRequestClipboard :: "clip \<Rightarrow> clip" where
  "lorieRequestClipboard st =
     (if connected st then st\<lparr>connOut := connOut st @ [ClipboardRequest]\<rparr> else st)"

definition lorieEnableClipboardSync :: "bool \<Rightarrow> clip \<Rightarrow> clip" where
  "lorieEnableClipboardSync enable st = st\<lparr>clipboardEnabled := enable\<rparr>"

section \<open>Receiving from X clients\<close>

definition lorieSelectionRequest :: "policy \<Rightarrow> atom \<Rightarrow> atom \<Rightarrow> clip \<Rightarrow> clip" where
  "lorieSelectionRequest pol sel target st =
     (if clipboardEnabled st then
        (case dixLookupSelection pol sel serverClient DixGetAttrAccess st of
           (rc, pSel, st1) \<Rightarrow>
             (case pSel of
                Some s \<Rightarrow>
                  if rc = Success
                  then WriteEventsToClient (sclient s)
                         (SelectionRequest (milliseconds (currentTime st1)) (swindow s) (rootId st1) sel target target) st1
                  else st1
              | None \<Rightarrow> st1))
      else st)"

fun atoms_of :: "byte list \<Rightarrow> atom list" where
  "atoms_of (a # b # c # d # bs) =
     (ucast a + 0x100 * ucast b + 0x10000 * ucast c + 0x1000000 * ucast d) # atoms_of bs"
| "atoms_of _ = []"

definition bytes_of_card32 :: "u32 \<Rightarrow> byte list" where
  "bytes_of_card32 x = [ucast x, ucast (drop_bit 8 x), ucast (drop_bit 16 x), ucast (drop_bit 24 x)]"

fun lorieHasAtom :: "atom \<Rightarrow> atom list \<Rightarrow> bool" where
  "lorieHasAtom a [] = False"
| "lorieHasAtom a (x # xs) = (if x = a then True else lorieHasAtom a xs)"

definition handle_string :: "xprop \<Rightarrow> clip \<Rightarrow> clip option" where
  "handle_string p st =
     (case lorieConvertLF (pdata p) (replicate (psize p + 1) 0) (psize p) of
        None \<Rightarrow> None
      | Some filtered \<Rightarrow>
          (case lorieLatin1ToUTF8 (replicate ((psize p + 1) * 2) 0) filtered of
             None \<Rightarrow> None
           | Some utf \<Rightarrow> Some (lorieSendClipboardData utf st)))"

definition handle_utf8 :: "byte list \<Rightarrow> xprop \<Rightarrow> clip \<Rightarrow> clip option" where
  "handle_utf8 slack p st =
     (case lorieCheckUTF8 (pdata p @ slack) (psize p) of
        None \<Rightarrow> None
      | Some False \<Rightarrow> Some st
      | Some True \<Rightarrow>
          (case lorieConvertLF (pdata p) (replicate (psize p + 1) 0) (psize p) of
             None \<Rightarrow> None
           | Some filtered \<Rightarrow> Some (lorieSendClipboardData filtered st)))"

definition lorieHandleSelection :: "policy \<Rightarrow> byte list \<Rightarrow> atom \<Rightarrow> clip \<Rightarrow> clip option" where
  "lorieHandleSelection pol slack target st =
     (if target \<noteq> xaTARGETS st \<and> target \<noteq> xaSTRING st \<and> target \<noteq> xaUTF8_STRING st then Some st
      else case dixLookupProperty pol (rootId st) target serverClient DixReadAccess st of
             (rc, pProp, st1) \<Rightarrow>
               (case pProp of
                  None \<Rightarrow> Some st1
                | Some p \<Rightarrow>
                    if rc \<noteq> Success then Some st1
                    else if target = xaTARGETS st1 \<and> ptype p = XA_ATOM \<and> pformat p = 32 then
                      let as = take (psize p) (atoms_of (pdata p))
                      in if lorieHasAtom (xaUTF8_STRING st1) as
                         then Some (lorieSelectionRequest pol (xaCLIPBOARD st1) (xaUTF8_STRING st1) st1)
                         else if lorieHasAtom (xaSTRING st1) as
                         then Some (lorieSelectionRequest pol (xaCLIPBOARD st1) (xaSTRING st1) st1)
                         else Some st1
                    else if target = xaSTRING st1 \<and> ptype p = xaSTRING st1 \<and> pformat p = 8
                    then handle_string p st1
                    else if target = xaUTF8_STRING st1 \<and> ptype p = xaUTF8_STRING st1 \<and> pformat p = 8
                    then handle_utf8 slack p st1
                    else Some st1))"

text \<open>
  The SendEvent request of a client: only a SelectionNotify is of interest here. \<open>orig\<close> is the
  handler of the server that this one wraps.
\<close>

record notify_event =
  n_isNotify :: bool
  n_requestor :: xid
  n_selection :: atom
  n_target :: atom
  n_property :: atom

definition lorieProcSendEvent ::
    "policy \<Rightarrow> byte list \<Rightarrow> (clip \<Rightarrow> xstatus \<times> clip) \<Rightarrow> notify_event \<Rightarrow> clip \<Rightarrow> (xstatus \<times> clip) option" where
  "lorieProcSendEvent pol slack orig e st =
     (if clipboardEnabled st \<and> n_requestor e = rootId st \<and> n_isNotify e \<and>
         n_selection e = xaCLIPBOARD st \<and> n_target e = n_property e
      then map_option orig (lorieHandleSelection pol slack (n_target e) st)
      else Some (orig st))"

definition lorieSelectionCallback :: "policy \<Rightarrow> sel \<Rightarrow> client option \<Rightarrow> selkind \<Rightarrow> clip \<Rightarrow> clip" where
  "lorieSelectionCallback pol s c kind st =
     (if clipboardEnabled st \<and> selection s = xaCLIPBOARD st \<and> kind = SelectionSetOwner \<and>
         sclient s \<noteq> Some serverClient
      then lorieSelectionRequest pol (xaCLIPBOARD st) (xaTARGETS st) st
      else st)"

section \<open>Announcing and sending\<close>

definition notify :: "client \<Rightarrow> u32 \<Rightarrow> xid \<Rightarrow> atom \<Rightarrow> atom \<Rightarrow> atom \<Rightarrow> clip \<Rightarrow> clip" where
  "notify c time requestor sel target property st =
     WriteEventsToClient (Some c) (SelectionNotify time requestor sel target property) st"

text \<open>The branch of \<open>lorieConvertSelection\<close> for text, with the data at hand.\<close>

definition convert_text ::
    "policy \<Rightarrow> xid \<Rightarrow> atom \<Rightarrow> atom \<Rightarrow> byte list \<Rightarrow> clip \<Rightarrow> (xstatus \<times> clip) option" where
  "convert_text pol requestor realProperty target dat st =
     (if target = xaSTRING st \<or> target = xaTEXT st then
        (case lorieUtf8ToLatin1 dat of
           None \<Rightarrow> None
         | Some str \<Rightarrow>
             (case malloc st of
                (False, st1) \<Rightarrow> Some (BadAlloc, st1)
              | (True, st1) \<Rightarrow>
                  Some (dixChangeWindowProperty pol serverClient requestor realProperty XA_STRING 8
                          PropModeReplace (length str) str True st1)))
      else if target = xaUTF8_STRING st then
        Some (dixChangeWindowProperty pol serverClient requestor realProperty (xaUTF8_STRING st) 8
                PropModeReplace (length (cstr dat)) (cstr dat) True st)
      else Some (BadMatch, st))"

definition queue_target :: "LorieDataTarget \<Rightarrow> clip \<Rightarrow> xstatus \<times> clip" where
  "queue_target t st =
     (if t_target t \<noteq> xaSTRING st \<and> t_target t \<noteq> xaTEXT st \<and> t_target t \<noteq> xaUTF8_STRING st
      then (BadMatch, st)
      else case malloc st of
             (False, st1) \<Rightarrow> (BadAlloc, st1)
           | (True, st1) \<Rightarrow>
               (Success, lorieRequestClipboard (st1\<lparr>lorieDataTargets := t # lorieDataTargets st1\<rparr>)))"

definition lorieConvertSelection ::
    "policy \<Rightarrow> LorieDataTarget \<Rightarrow> byte list option \<Rightarrow> clip \<Rightarrow> (xstatus \<times> clip) option" where
  "lorieConvertSelection pol t dat st =
     (case dixLookupSelection pol (t_selection t) (t_client t) DixGetAttrAccess st of
        (rc, pSel, st1) \<Rightarrow>
          (case pSel of
             None \<Rightarrow> Some (rc, st1)
           | Some s \<Rightarrow>
               if rc \<noteq> Success then Some (rc, st1)
               else case dixLookupWindow pol (t_client t) (t_requestor t) DixSetAttrAccess st1 of
                      (rc2, st2) \<Rightarrow>
                        if rc2 \<noteq> Success then Some (rc2, st2)
                        else
                          let realProperty = (if t_property t \<noteq> 0 then t_property t else t_target t);
                              reply = (\<lambda>r. case r of (rc3, st3) \<Rightarrow>
                                if rc3 \<noteq> Success then (rc3, st3)
                                else (Success, notify (t_client t) (t_time t) (t_requestor t) (t_selection t)
                                                 (t_target t) (t_property t) st3))
                          in if t_target t = xaTARGETS st2 then
                               Some (reply (dixChangeWindowProperty pol serverClient (t_requestor t) realProperty
                                 XA_ATOM 32 PropModeReplace 5
                                 (concat (map bytes_of_card32 [xaTARGETS st2, xaTIMESTAMP st2, xaSTRING st2,
                                    xaTEXT st2, xaUTF8_STRING st2])) True st2))
                             else if t_target t = xaTIMESTAMP st2 then
                               Some (reply (dixChangeWindowProperty pol serverClient (t_requestor t) realProperty
                                 XA_INTEGER 32 PropModeReplace 1
                                 (bytes_of_card32 (milliseconds (lastTimeChanged s))) True st2))
                             else case dat of
                                    None \<Rightarrow> Some (queue_target t st2)
                                  | Some d \<Rightarrow>
                                      map_option reply (convert_text pol (t_requestor t) realProperty
                                        (t_target t) d st2)))"

definition convert_target :: "client \<Rightarrow> convert_req \<Rightarrow> LorieDataTarget" where
  "convert_target c r = \<lparr>t_client = c, t_selection = cs_selection r, t_target = cs_target r,
     t_property = cs_property r, t_requestor = cs_requestor r, t_time = cs_time r\<rparr>"

definition lorieProcConvertSelection ::
    "policy \<Rightarrow> client \<Rightarrow> convert_req \<Rightarrow> clip \<Rightarrow> (xstatus \<times> clip) option" where
  "lorieProcConvertSelection pol c r st =
     (case dixLookupWindow pol c (cs_requestor r) DixSetAttrAccess st of
        (rc, st1) \<Rightarrow>
          if rc \<noteq> Success then Some (rc, st1)
          else if \<not> convert_params_ok r st1 then Some (BadAtom, set_error c (cs_property r) st1)
          else case dixLookupSelection pol (cs_selection r) c DixReadAccess st1 of
                 (rc2, pSel, st2) \<Rightarrow>
                   if rc2 = Success \<and> (\<exists>s. pSel = Some s \<and> sclient s = Some serverClient \<and> swindow s = rootId st2)
                   then (case lorieConvertSelection pol (convert_target c r) (cachedData st2) st2 of
                           None \<Rightarrow> None
                         | Some (rc3, st3) \<Rightarrow>
                             if rc3 \<noteq> Success
                             then Some (Success, notify c (cs_time r) (cs_requestor r) (cs_selection r) (cs_target r) 0 st3)
                             else Some (Success, st3))
                   else Some (ProcConvertSelection pol c r st2))"

definition lorieOwnSelection :: "policy \<Rightarrow> atom \<Rightarrow> clip \<Rightarrow> xstatus \<times> clip" where
  "lorieOwnSelection pol name st =
     (case dixLookupSelection pol name serverClient DixSetAttrAccess st of
        (rc, pSel, st1) \<Rightarrow>
          let owner = (currentTime st1, rootId st1, Some (rootId st1), Some serverClient)
          in if rc = BadMatch then
               (case add_selection pol serverClient name st1 of
                  (rc2, st2) \<Rightarrow>
                    if rc2 \<noteq> Success then (rc2, st2)
                    else (Success, take_ownership (lorieSelectionCallback pol) serverClient name owner st2))
             else case pSel of
                    None \<Rightarrow> (rc, st1)
                  | Some s \<Rightarrow>
                      if rc \<noteq> Success then (rc, st1)
                      else let st2 = (if sclient s \<noteq> None \<and> sclient s \<noteq> Some serverClient
                                      then WriteEventsToClient (sclient s)
                                             (SelectionClear (milliseconds (currentTime st1)) (swindow s) (selection s)) st1
                                      else st1)
                           in (Success, take_ownership (lorieSelectionCallback pol) serverClient name owner st2))"

definition lorieHandleClipboardAnnounce :: "policy \<Rightarrow> clip \<Rightarrow> clip" where
  "lorieHandleClipboardAnnounce pol st =
     snd (lorieOwnSelection pol (xaCLIPBOARD st) (st\<lparr>cachedData := None\<rparr>))"

text \<open>The loop of \<open>lorieHandleClipboardData\<close>: the head is answered, then unlinked.\<close>

fun answer_targets :: "policy \<Rightarrow> LorieDataTarget list \<Rightarrow> clip \<Rightarrow> clip option" where
  "answer_targets pol [] st = Some st"
| "answer_targets pol (t # ts) st =
     (case lorieConvertSelection pol t (cachedData st) st of
        None \<Rightarrow> None
      | Some (rc, st1) \<Rightarrow>
          let st2 = (if rc \<noteq> Success
                     then notify (t_client t) (t_time t) (t_requestor t) (t_selection t) (t_target t) 0 st1
                     else st1)
          in answer_targets pol ts (st2\<lparr>lorieDataTargets := ts\<rparr>))"

definition lorieHandleClipboardData :: "policy \<Rightarrow> byte list \<Rightarrow> clip \<Rightarrow> clip option" where
  "lorieHandleClipboardData pol dat st =
     answer_targets pol (lorieDataTargets st) (st\<lparr>cachedData := Some dat\<rparr>)"

definition lorieInitClipboard :: "clip \<Rightarrow> clip" where
  "lorieInitClipboard st =
     (case intern_all (\<lambda>s. MakeAtom (\<lambda>_. True) s True)
             [bytes ''TIMESTAMP'', bytes ''TEXT'', bytes ''CLIPBOARD'', bytes ''TARGETS'', bytes ''STRING'',
              bytes ''UTF8_STRING''] (atoms st) of
        (as, tab) \<Rightarrow> st\<lparr>atoms := tab, xaTIMESTAMP := as ! 0, xaTEXT := as ! 1, xaCLIPBOARD := as ! 2,
                        xaTARGETS := as ! 3, xaSTRING := as ! 4, xaUTF8_STRING := as ! 5\<rparr>)"

section \<open>The callback meets its contract\<close>

lemma tabs_fields:
  fixes st st' :: clip
  assumes "tabs st' = tabs st"
  shows "clipboardEnabled st' = clipboardEnabled st" "cachedData st' = cachedData st"
    "lorieDataTargets st' = lorieDataTargets st" "connected st' = connected st" "connOut st' = connOut st"
    "xaTIMESTAMP st' = xaTIMESTAMP st" "xaTEXT st' = xaTEXT st" "xaCLIPBOARD st' = xaCLIPBOARD st"
    "xaTARGETS st' = xaTARGETS st" "xaSTRING st' = xaSTRING st" "xaUTF8_STRING st' = xaUTF8_STRING st"
    "atoms st' = atoms st" "CurrentSelections st' = CurrentSelections st" "rootId st' = rootId st"
    "clientGone st' = clientGone st" "client_msgs (sent st') = client_msgs (sent st)"
proof -
  have "srv.more st' = srv.more st" using assms by (simp add: tabs_def)
  then show "clipboardEnabled st' = clipboardEnabled st" "cachedData st' = cachedData st"
    "lorieDataTargets st' = lorieDataTargets st" "connected st' = connected st" "connOut st' = connOut st"
    "xaTIMESTAMP st' = xaTIMESTAMP st" "xaTEXT st' = xaTEXT st" "xaCLIPBOARD st' = xaCLIPBOARD st"
    "xaTARGETS st' = xaTARGETS st" "xaSTRING st' = xaSTRING st" "xaUTF8_STRING st' = xaUTF8_STRING st"
    by (cases st; cases st'; simp)+
qed (use assms in \<open>simp_all add: tabs_def\<close>)

lemma lorieSelectionRequest_sel [simp]:
  "CurrentSelections (lorieSelectionRequest pol s t st) = CurrentSelections st"
  "wins (lorieSelectionRequest pol s t st) = wins st" "atoms (lorieSelectionRequest pol s t st) = atoms st"
  "clientGone (lorieSelectionRequest pol s t st) = clientGone st"
  "rootId (lorieSelectionRequest pol s t st) = rootId st"
  "srv.more (lorieSelectionRequest pol s t st) = srv.more st"
  by (simp_all add: lorieSelectionRequest_def dixLookupSelection_def Let_def WriteEventsToClient_def
      send_def set_error_def split: option.split)

interpretation lsel: sel_callback "lorieSelectionCallback pol" for pol
  by unfold_locales (simp_all add: lorieSelectionCallback_def)

text \<open>C11: SetSelectionOwner, with the clipboard's callback installed, keeps the selection table
  consistent (one record per selection, existing owner windows) and either changes nothing or
  gives the one selection to the requesting window at the time of the request, which is never
  earlier than the previous change.\<close>

theorem ProcSetSelectionOwner_owner:
  assumes "sels_inv st" and "pol_ok pol"
    and "ProcSetSelectionOwner pol (lorieSelectionCallback pol) c window name t st = (rc, st')"
  shows "sels_inv st' \<and>
    (owns st' = owns st \<or>
     (rc = Success \<and>
      owns st' = (owns st)(name \<mapsto> (req_time t st, window, if window = 0 then None else Some c)) \<and>
      (case owns st name of None \<Rightarrow> True
       | Some (since, _) \<Rightarrow> CompareTimeStamps (req_time t st) since \<noteq> EARLIER)))"
  using lsel.set_owner_inv [OF assms] lsel.set_owner_owns [OF assms] by blast

text \<open>A clipboard state on a server with one root window, for the concrete instances.\<close>

definition clip0 :: "xprop list \<Rightarrow> clip" where
  "clip0 ps = \<lparr>atoms = two_atoms, wins = [1 \<mapsto> \<lparr>hasOptional = True, otherOptional = True, userProps = ps\<rparr>],
     rootId = 1, CurrentSelections = [], currentTime = \<lparr>months = 0, milliseconds = 7\<rparr>,
     clockMillis = 9, clientGone = (\<lambda>_. False), errorValue = (\<lambda>_. 0), sent = [], mallocs = [],
     clipboardEnabled = True, cachedData = None, lorieDataTargets = [], connected = True, connOut = [],
     xaTIMESTAMP = 72, xaTEXT = 73, xaCLIPBOARD = 2, xaTARGETS = 71, xaSTRING = 31, xaUTF8_STRING = 70\<rparr>"

theorem ProcSetSelectionOwner_owner_witness:
  "sels_inv (snd (ProcSetSelectionOwner allow (lorieSelectionCallback allow) 3 1 2 0 (clip0 [])))"
proof -
  have "sels_inv (clip0 [])" by (simp add: sels_inv_def clip0_def)
  from ProcSetSelectionOwner_owner [OF this allow_ok] show ?thesis by (metis prod.collapse)
qed

section \<open>From X to Android\<close>

definition sel_notify :: "atom \<Rightarrow> clip \<Rightarrow> notify_event" where
  "sel_notify target st = \<lparr>n_isNotify = True, n_requestor = rootId st, n_selection = xaCLIPBOARD st,
     n_target = target, n_property = target\<rparr>"

lemma lookup_root_prop:
  assumes "props_inv st" and "wmap (rootId st) st target = Some (ty, f, d)"
  obtains p where "dixLookupProperty allow (rootId st) target serverClient DixReadAccess st =
      (Success, Some p, set_error serverClient target st)"
    "ptype p = ty" "pformat p = f" "pdata p = d" "psize p * (f div 8) = length d"
proof -
  from assms obtain p where p: "find_key propertyName target (win_props (rootId st) st) = Some p" "prop_ok p"
    "ptype p = ty" "pformat p = f" "pdata p = d" by (rule wmap_SomeE)
  show thesis
    by (rule that [of p]) (use p in \<open>simp_all add: dixLookupProperty_def allow_def Let_def prop_ok_def\<close>)
qed

lemma ConvertLF_result:
  "\<exists>k. lorieConvertLF d (replicate (length d + 1) 0) (length d) =
     Some (filter (\<lambda>c. c \<noteq> 13) d @ 0 # replicate k 0) \<and>
     length d = length (filter (\<lambda>c. c \<noteq> 13) d) + k"
proof -
  have "length (filter (\<lambda>c. c \<noteq> 13) d) \<le> length d" by simp
  then obtain k where k: "length d = length (filter (\<lambda>c. c \<noteq> 13) d) + k" using le_Suc_ex by blast
  then have "length d + 1 - length (filter (\<lambda>c. c \<noteq> 13) d) = Suc k" by simp
  then have "replicate (length d + 1 - length (filter (\<lambda>c. c \<noteq> 13) d)) (0 :: byte) = 0 # replicate k 0" by simp
  then show ?thesis unfolding lorieConvertLF_spec Let_def using k by blast
qed

lemma string_to_android:
  assumes "props_inv st" and "clipboardEnabled st" and "connected st"
    and "xaSTRING st \<noteq> xaTARGETS st" and "nul_free d"
    and "wmap (rootId st) st (xaSTRING st) = Some (xaSTRING st, 8, d)"
  shows "\<exists>st1. lorieProcSendEvent allow slack orig (sel_notify (xaSTRING st) st) st = Some (orig st1) \<and>
    connOut st1 = connOut st @ [ClipboardSend (utf8 (map unat (filter (\<lambda>c. c \<noteq> 13) d)))]"
proof -
  from assms(1,6) obtain p where p: "dixLookupProperty allow (rootId st) (xaSTRING st) serverClient DixReadAccess st =
      (Success, Some p, set_error serverClient (xaSTRING st) st)" "ptype p = xaSTRING st" "pformat p = 8"
      "pdata p = d" "psize p = length d" by (rule lookup_root_prop) simp
  let ?ys = "filter (\<lambda>c. c \<noteq> 13) d" and ?st1 = "set_error serverClient (xaSTRING st) st"
  have f: "clipboardEnabled ?st1 = clipboardEnabled st" "connected ?st1 = connected st" "connOut ?st1 = connOut st"
    "xaSTRING ?st1 = xaSTRING st" "xaTARGETS ?st1 = xaTARGETS st" by (rule tabs_fields; simp)+
  obtain k where k: "lorieConvertLF d (replicate (length d + 1) 0) (length d) = Some (?ys @ 0 # replicate k 0)"
    "length d = length ?ys + k" using ConvertLF_result by blast
  have nf: "nul_free ?ys" using assms(5) by (simp add: nul_free_def)
  let ?m = "(length d + 1) * 2 - length (utf8 (map unat ?ys))"
  have m: "length (utf8 (map unat ?ys)) + ?m = (length d + 1) * 2" "0 < ?m"
    using utf8_latin1_length [of ?ys] k(2) by auto
  have "lorieLatin1ToUTF8 (replicate ((length d + 1) * 2) 0) (?ys @ 0 # replicate k 0) =
      Some (utf8 (map unat ?ys) @ replicate ?m 0)"
    using latin1_loop_utf8 [OF nf, of "[]" ?m "replicate k 0"] m(1) by (simp add: lorieLatin1ToUTF8_def)
  then have h: "handle_string p ?st1 = Some (lorieSendClipboardData (utf8 (map unat ?ys) @ replicate ?m 0) ?st1)"
    using k(1) p(4,5) by (simp add: handle_string_def)
  have "list_all scalar (map unat ?ys)"
    using assms(5) by (auto simp: list_all_iff nul_free_def intro!: unat_scalar(1))
  moreover have "replicate ?m (0 :: byte) = 0 # replicate (?m - 1) 0" using m(2) by (cases ?m) simp_all
  ultimately have "cstr (utf8 (map unat ?ys) @ replicate ?m 0) = utf8 (map unat ?ys)"
    by (simp add: utf8_nul_free)
  with h assms p f show ?thesis
    by (intro exI [of _ "lorieSendClipboardData (utf8 (map unat ?ys) @ replicate ?m 0) ?st1"])
      (simp add: lorieProcSendEvent_def sel_notify_def lorieHandleSelection_def lorieSendClipboardData_def)
qed


definition string_prop :: "byte list \<Rightarrow> xprop" where
  "string_prop d = \<lparr>propertyName = 31, ptype = 31, pformat = 8, psize = length d, pdata = d\<rparr>"

lemma clip0_inv:
  "length d < 2 ^ 32 \<Longrightarrow> props_inv (clip0 [string_prop d])"
  "wmap (rootId (clip0 [string_prop d])) (clip0 [string_prop d]) 31 = Some (31, 8, d)"
  by (simp_all add: clip0_def string_prop_def props_inv_def win_ok_def props.uniq_Cons prop_ok_def
      wmap_def win_props_def wUserProps_def pview_def)


end
