(* ===== verification/GpuQueue.thy ===== *)
theory GpuQueue
  imports Prelude
begin

text \<open>
  The ring buffer of deferred GPU copies that the X server and the renderer, two processes, share
  (\<open>struct lorie_shared_server_state\<close> in \<open>lorie.h\<close>). The server is the only producer
  (\<open>lorieTryScheduleGpuCopy\<close> in \<open>InitOutput.c\<close>), the renderer the only consumer
  (\<open>applyPendingGpuCopiesLocked\<close> and its callers in \<open>renderer.cpp\<close>). The indices are 32-bit words
  that run through all their values and are reduced modulo the capacity when an entry is
  addressed. The ring is shown to be a bounded queue, and the two processes are put together as
  a step relation over the shared memory in which every interleaving is possible.
\<close>

definition LORIE_GPU_COPY_MAX_RECTS :: nat where "LORIE_GPU_COPY_MAX_RECTS = 16"
definition LORIE_GPU_COPY_QUEUE_CAPACITY :: nat where "LORIE_GPU_COPY_QUEUE_CAPACITY = 8"

record LorieGpuCopyRect =
  x1 :: u16
  y1 :: u16
  x2 :: u16
  y2 :: u16

record LorieGpuCopyEntry =
  e_serial :: u64
  srcBufferId :: u64
  dstBufferId :: u64
  xOff :: u16
  yOff :: u16
  numRects :: u16
  rects :: "LorieGpuCopyRect list"

record gpuCopyQueue =
  writeIndex :: u32
  readIndex :: u32
  completedSerial :: u64
  entries :: "LorieGpuCopyEntry list"

section \<open>Operations\<close>

definition ring_slot :: "u32 \<Rightarrow> nat" where
  "ring_slot i = unat i mod LORIE_GPU_COPY_QUEUE_CAPACITY"

definition ring_full :: "gpuCopyQueue \<Rightarrow> bool" where
  "ring_full q \<longleftrightarrow> of_nat LORIE_GPU_COPY_QUEUE_CAPACITY \<le> writeIndex q - readIndex q"

definition ring_empty :: "gpuCopyQueue \<Rightarrow> bool" where
  "ring_empty q \<longleftrightarrow> readIndex q = writeIndex q"

text \<open>The producer fills the slot in place, leaving rectangles beyond \<open>numRects\<close> as they were, and
  then publishes the new \<open>writeIndex\<close>.\<close>

definition fill_entry ::
    "u64 \<Rightarrow> u64 \<Rightarrow> u64 \<Rightarrow> u16 \<Rightarrow> u16 \<Rightarrow> LorieGpuCopyRect list \<Rightarrow> LorieGpuCopyEntry \<Rightarrow> LorieGpuCopyEntry" where
  "fill_entry serial src dst x y rs old =
     \<lparr>e_serial = serial, srcBufferId = src, dstBufferId = dst, xOff = x, yOff = y,
      numRects = of_nat (length rs), rects = rs @ drop (length rs) (rects old)\<rparr>"

definition ring_write ::
    "u64 \<Rightarrow> u64 \<Rightarrow> u64 \<Rightarrow> u16 \<Rightarrow> u16 \<Rightarrow> LorieGpuCopyRect list \<Rightarrow> gpuCopyQueue \<Rightarrow> gpuCopyQueue" where
  "ring_write serial src dst x y rs q =
     (let s = ring_slot (writeIndex q)
      in q\<lparr>entries := (entries q)[s := fill_entry serial src dst x y rs (entries q ! s)]\<rparr>)"

definition ring_publish :: "gpuCopyQueue \<Rightarrow> gpuCopyQueue" where
  "ring_publish q = q\<lparr>writeIndex := writeIndex q + 1\<rparr>"

definition ring_push ::
    "u64 \<Rightarrow> u64 \<Rightarrow> u64 \<Rightarrow> u16 \<Rightarrow> u16 \<Rightarrow> LorieGpuCopyRect list \<Rightarrow> gpuCopyQueue \<Rightarrow> gpuCopyQueue" where
  "ring_push serial src dst x y rs q = ring_publish (ring_write serial src dst x y rs q)"

definition ring_head :: "gpuCopyQueue \<Rightarrow> LorieGpuCopyEntry" where
  "ring_head q = entries q ! ring_slot (readIndex q)"

definition ring_pop :: "gpuCopyQueue \<Rightarrow> gpuCopyQueue" where
  "ring_pop q = q\<lparr>readIndex := readIndex q + 1\<rparr>"

definition lorieGpuCopyIsDone :: "u64 \<Rightarrow> gpuCopyQueue \<Rightarrow> bool" where
  "lorieGpuCopyIsDone serial q \<longleftrightarrow> serial \<le> completedSerial q"

section \<open>The ring is a bounded queue\<close>

definition ring_inv :: "gpuCopyQueue \<Rightarrow> bool" where
  "ring_inv q \<longleftrightarrow> length (entries q) = LORIE_GPU_COPY_QUEUE_CAPACITY \<and>
     (\<forall>e \<in> set (entries q). length (rects e) = LORIE_GPU_COPY_MAX_RECTS) \<and>
     unat (writeIndex q - readIndex q) \<le> LORIE_GPU_COPY_QUEUE_CAPACITY"

definition ring_count :: "gpuCopyQueue \<Rightarrow> nat" where
  "ring_count q = unat (writeIndex q - readIndex q)"

definition pending :: "gpuCopyQueue \<Rightarrow> LorieGpuCopyEntry list" where
  "pending q = map (\<lambda>i. entries q ! ring_slot (readIndex q + of_nat i)) [0..<ring_count q]"

lemmas ring_consts = LORIE_GPU_COPY_MAX_RECTS_def LORIE_GPU_COPY_QUEUE_CAPACITY_def

text \<open>The capacity divides \<open>2 ^ 32\<close>, so slots advance by one also where the index wraps.\<close>

lemma ring_slot_add: "ring_slot (i + of_nat n) = (ring_slot i + n) mod 8"
proof -
  have "unat (i + of_nat n) = (unat i + n) mod 2 ^ 32"
    by (simp add: unat_word_ariths(1) unat_of_nat mod_simps)
  then have "ring_slot (i + of_nat n) = (unat i + n) mod 2 ^ 32 mod 8"
    by (simp add: ring_slot_def ring_consts)
  also have "\<dots> = (unat i + n) mod 8" by (rule mod_mod_cancel) simp
  finally show ?thesis by (simp add: ring_slot_def ring_consts mod_simps)
qed

lemma ring_slot_less: "ring_inv q \<Longrightarrow> ring_slot i < length (entries q)"
  by (simp add: ring_slot_def ring_inv_def ring_consts)

lemma ring_slot_distinct:
  assumes "n < 8" and "m < 8" and "n \<noteq> m"
  shows "ring_slot (i + of_nat n) \<noteq> ring_slot (i + of_nat m)"
proof -
  have lt: "ring_slot (i + of_nat b) \<noteq> ring_slot (i + of_nat a)" if "a < b" "b < 8" for a b
  proof
    assume "ring_slot (i + of_nat b) = ring_slot (i + of_nat a)"
    then have "8 dvd (ring_slot i + b) - (ring_slot i + a)"
      using that(1) by (simp only: ring_slot_add mod_eq_dvd_iff_nat)
    with that show False by (auto dest: dvd_imp_le)
  qed
  from assms lt [of n m] lt [of m n] show ?thesis by (metis nat_neq_iff)
qed

lemma ring_full_iff: "ring_inv q \<Longrightarrow> ring_full q \<longleftrightarrow> ring_count q = LORIE_GPU_COPY_QUEUE_CAPACITY"
  by (auto simp: ring_full_def ring_count_def ring_inv_def ring_consts word_le_nat_alt)

lemma ring_empty_iff: "ring_empty q \<longleftrightarrow> pending q = []"
proof -
  have "ring_count q = 0 \<longleftrightarrow> writeIndex q - readIndex q = 0" by (simp only: ring_count_def unat_eq_0)
  then show ?thesis by (auto simp: ring_empty_def pending_def)
qed

lemma pending_length: "length (pending q) = ring_count q"
  by (simp add: pending_def)

lemma ring_write_simps [simp]:
  "writeIndex (ring_write serial src dst x y rs q) = writeIndex q"
  "readIndex (ring_write serial src dst x y rs q) = readIndex q"
  "completedSerial (ring_write serial src dst x y rs q) = completedSerial q"
  "ring_count (ring_write serial src dst x y rs q) = ring_count q"
  "ring_full (ring_write serial src dst x y rs q) = ring_full q"
  by (simp_all add: ring_write_def Let_def ring_count_def ring_full_def)

lemma ring_publish_simps [simp]:
  "writeIndex (ring_publish q) = writeIndex q + 1"
  "readIndex (ring_publish q) = readIndex q"
  "completedSerial (ring_publish q) = completedSerial q"
  "entries (ring_publish q) = entries q"
  by (simp_all add: ring_publish_def)

lemma ring_count_less: "ring_inv q \<Longrightarrow> \<not> ring_full q \<Longrightarrow> ring_count q < 8"
  using ring_full_iff [of q] by (auto simp: ring_inv_def ring_count_def ring_consts)

lemma ring_write_index: "writeIndex q = readIndex q + of_nat (ring_count q)"
  by (simp add: ring_count_def)

text \<open>Writing the slot does not disturb what the consumer can see; publishing adds that slot.\<close>

lemma pending_write:
  assumes "ring_inv q" and "\<not> ring_full q"
  shows "pending (ring_write serial src dst x y rs q) = pending q"
    and "entries (ring_write serial src dst x y rs q) ! ring_slot (writeIndex q) =
      fill_entry serial src dst x y rs (entries q ! ring_slot (writeIndex q))"
proof -
  note lt = ring_count_less [OF assms]
  have "entries (ring_write serial src dst x y rs q) ! ring_slot (readIndex q + of_nat i) =
      entries q ! ring_slot (readIndex q + of_nat i)" if "i < ring_count q" for i
    using that lt ring_slot_distinct [of i "ring_count q" "readIndex q"]
    by (simp add: ring_write_def Let_def ring_write_index)
  then show "pending (ring_write serial src dst x y rs q) = pending q" by (simp add: pending_def)
  show "entries (ring_write serial src dst x y rs q) ! ring_slot (writeIndex q) =
      fill_entry serial src dst x y rs (entries q ! ring_slot (writeIndex q))"
    using ring_slot_less [OF assms(1)] by (simp add: ring_write_def Let_def)
qed

lemma pending_publish:
  assumes "ring_inv q" and "\<not> ring_full q"
  shows "pending (ring_publish q) = pending q @ [entries q ! ring_slot (writeIndex q)]"
    and "ring_count (ring_publish q) = Suc (ring_count q)"
proof -
  note lt = ring_count_less [OF assms]
  have "writeIndex (ring_publish q) - readIndex (ring_publish q) = of_nat (Suc (ring_count q))"
    by (simp add: ring_count_def)
  then show c: "ring_count (ring_publish q) = Suc (ring_count q)"
    using lt by (simp add: ring_count_def unat_of_nat del: of_nat_Suc ring_publish_simps)
  show "pending (ring_publish q) = pending q @ [entries q ! ring_slot (writeIndex q)]"
    by (simp add: pending_def c ring_write_index [symmetric])
qed

lemma pending_pop:
  assumes "\<not> ring_empty q"
  shows "pending q = ring_head q # pending (ring_pop q)"
    and "ring_count (ring_pop q) = ring_count q - 1"
proof -
  have nz: "writeIndex q - readIndex q \<noteq> 0" using assms by (auto simp: ring_empty_def)
  have "unat (writeIndex q - readIndex q - 1) = unat (writeIndex q - readIndex q) - 1"
    using nz by (simp add: unat_minus_one)
  then show c: "ring_count (ring_pop q) = ring_count q - 1"
    by (simp add: ring_count_def ring_pop_def algebra_simps)
  have pos: "0 < ring_count q" using nz by (simp add: ring_count_def unat_gt_0)
  then have "[0..<ring_count q] = 0 # map Suc [0..<ring_count q - 1]"
    by (simp add: map_Suc_upt upt_conv_Cons)
  moreover have "pending (ring_pop q) =
      map (\<lambda>i. entries q ! ring_slot (readIndex q + of_nat (Suc i))) [0..<ring_count q - 1]"
    by (simp add: pending_def c) (simp add: ring_pop_def algebra_simps)
  ultimately show "pending q = ring_head q # pending (ring_pop q)"
    by (simp add: pending_def ring_head_def comp_def)
qed

lemma ring_inv_publish: "ring_inv q \<Longrightarrow> \<not> ring_full q \<Longrightarrow> ring_inv (ring_publish q)"
  using pending_publish(2) [of q] ring_count_less [of q] by (simp add: ring_inv_def ring_count_def ring_consts)

lemma ring_inv_write:
  assumes "ring_inv q" and "length rs \<le> LORIE_GPU_COPY_MAX_RECTS"
  shows "ring_inv (ring_write serial src dst x y rs q)"
proof -
  have "length (rects e) = LORIE_GPU_COPY_MAX_RECTS"
    if "e \<in> set (entries (ring_write serial src dst x y rs q))" for e
  proof -
    have "e \<in> insert (fill_entry serial src dst x y rs (entries q ! ring_slot (writeIndex q))) (set (entries q))"
      using that set_update_subset_insert by (fastforce simp: ring_write_def Let_def)
    moreover have "length (rects (entries q ! ring_slot (writeIndex q))) = LORIE_GPU_COPY_MAX_RECTS"
      using assms(1) ring_slot_less [OF assms(1)] by (simp add: ring_inv_def)
    ultimately show ?thesis using assms by (auto simp: fill_entry_def ring_inv_def)
  qed
  then show ?thesis using assms(1) by (simp add: ring_inv_def) (simp add: ring_write_def Let_def)
qed

lemma ring_inv_pop: "ring_inv q \<Longrightarrow> \<not> ring_empty q \<Longrightarrow> ring_inv (ring_pop q)"
  using pending_pop(2) [of q] by (auto simp: ring_inv_def ring_count_def ring_pop_def)

section \<open>The interface\<close>

text \<open>What the two processes rely on: a queue with a bounded content, to which one side adds at the
  end and from which the other takes at the front.\<close>

locale bounded_queue =
  fixes inv :: "'q \<Rightarrow> bool"
    and content :: "'q \<Rightarrow> 'e list"
    and full :: "'q \<Rightarrow> bool"
    and empty :: "'q \<Rightarrow> bool"
    and push :: "'p \<Rightarrow> 'q \<Rightarrow> 'q"
    and made :: "'p \<Rightarrow> 'q \<Rightarrow> 'e"
    and front :: "'q \<Rightarrow> 'e"
    and pop :: "'q \<Rightarrow> 'q"
    and ok :: "'p \<Rightarrow> bool"
    and cap :: nat
  assumes inv_push: "inv q \<Longrightarrow> \<not> full q \<Longrightarrow> ok p \<Longrightarrow> inv (push p q)"
    and inv_pop: "inv q \<Longrightarrow> \<not> empty q \<Longrightarrow> inv (pop q)"
    and content_push: "inv q \<Longrightarrow> \<not> full q \<Longrightarrow> ok p \<Longrightarrow> content (push p q) = content q @ [made p q]"
    and content_pop: "inv q \<Longrightarrow> \<not> empty q \<Longrightarrow> content q = front q # content (pop q)"
    and empty_iff: "inv q \<Longrightarrow> empty q \<longleftrightarrow> content q = []"
    and full_iff: "inv q \<Longrightarrow> full q \<longleftrightarrow> length (content q) = cap"
begin

lemma pop_run:
  assumes "inv q" and "n \<le> length (content q)"
  shows "inv ((pop ^^ n) q) \<and> content ((pop ^^ n) q) = drop n (content q)"
  using assms(2)
proof (induction n)
  case (Suc n)
  then have IH: "inv ((pop ^^ n) q)" "content ((pop ^^ n) q) = drop n (content q)" by auto
  with Suc.prems have ne: "\<not> empty ((pop ^^ n) q)" by (simp add: empty_iff)
  show ?case
    using IH inv_pop [OF IH(1) ne] content_pop [OF IH(1) ne] by (simp add: drop_Suc tl_drop [symmetric]) (metis list.sel(3))
qed (use assms in simp)

lemma push_then_drain:
  assumes "inv q" and "\<not> full q" and "ok p"
  shows "front ((pop ^^ length (content q)) (push p q)) = made p q"
proof -
  let ?q = "(pop ^^ length (content q)) (push p q)"
  have "inv ?q" "content ?q = [made p q]"
    using pop_run [OF inv_push [OF assms], of "length (content q)"] content_push [OF assms] by simp_all
  then show ?thesis using content_pop [of ?q] empty_iff [of ?q] by simp
qed

end

type_synonym copy_req = "u64 \<times> u64 \<times> u64 \<times> u16 \<times> u16 \<times> LorieGpuCopyRect list"

definition push_req :: "copy_req \<Rightarrow> gpuCopyQueue \<Rightarrow> gpuCopyQueue" where
  "push_req p q = (case p of (serial, src, dst, x, y, rs) \<Rightarrow> ring_push serial src dst x y rs q)"

definition made_entry :: "copy_req \<Rightarrow> gpuCopyQueue \<Rightarrow> LorieGpuCopyEntry" where
  "made_entry p q = (case p of (serial, src, dst, x, y, rs) \<Rightarrow>
     fill_entry serial src dst x y rs (entries q ! ring_slot (writeIndex q)))"

definition req_ok :: "copy_req \<Rightarrow> bool" where
  "req_ok p \<longleftrightarrow> (case p of (serial, src, dst, x, y, rs) \<Rightarrow> length rs \<le> LORIE_GPU_COPY_MAX_RECTS)"

interpretation ring: bounded_queue ring_inv pending ring_full ring_empty push_req made_entry ring_head ring_pop
  req_ok LORIE_GPU_COPY_QUEUE_CAPACITY
proof unfold_locales
  fix q :: gpuCopyQueue and p :: copy_req
  obtain serial src dst x y rs where p: "p = (serial, src, dst, x, y, rs)" by (cases p)
  assume inv: "ring_inv q"
  show "ring_inv (push_req p q)" if "\<not> ring_full q" "req_ok p"
    using that inv ring_inv_publish [OF ring_inv_write [OF inv]] by (simp add: push_req_def p req_ok_def ring_push_def)
  show "pending (push_req p q) = pending q @ [made_entry p q]" if "\<not> ring_full q" "req_ok p"
    using that pending_publish [OF ring_inv_write [OF inv], of rs serial src dst x y] pending_write [OF inv that(1)]
    by (simp add: push_req_def p req_ok_def ring_push_def made_entry_def)
  show "ring_inv (ring_pop q)" if "\<not> ring_empty q" using inv that by (rule ring_inv_pop)
  show "pending q = ring_head q # pending (ring_pop q)" if "\<not> ring_empty q" using that by (rule pending_pop)
  show "ring_empty q = (pending q = [])" by (rule ring_empty_iff)
  show "ring_full q = (length (pending q) = LORIE_GPU_COPY_QUEUE_CAPACITY)"
    using ring_full_iff [OF inv] by (simp add: pending_length)
qed

text \<open>C22: The ring is a first-in first-out queue for all values of its wrapping indices: a copy
  scheduled while \<open>n\<close> copies are pending is the one the renderer finds after taking exactly \<open>n\<close>
  entries, with the serial, buffers, offsets and rectangles it was scheduled with.\<close>

theorem gpu_queue_fifo:
  assumes "ring_inv q" and "\<not> ring_full q" and "length rs \<le> LORIE_GPU_COPY_MAX_RECTS"
    and "e = ring_head ((ring_pop ^^ ring_count q) (ring_push serial src dst x y rs q))"
  shows "e_serial e = serial \<and> srcBufferId e = src \<and> dstBufferId e = dst \<and> xOff e = x \<and> yOff e = y \<and>
    take (unat (numRects e)) (rects e) = rs"
proof -
  let ?p = "(serial, src, dst, x, y, rs)"
  have "ring_head ((ring_pop ^^ length (pending q)) (push_req ?p q)) = made_entry ?p q"
    using assms by (intro ring.push_then_drain) (simp_all add: req_ok_def)
  then have e: "e = fill_entry serial src dst x y rs (entries q ! ring_slot (writeIndex q))"
    using assms(4) by (simp add: pending_length push_req_def made_entry_def)
  have "unat (of_nat (length rs) :: u16) = length rs"
    using assms(3) by (simp add: unat_of_nat ring_consts)
  with e show ?thesis by (simp add: fill_entry_def)
qed

definition no_rect :: LorieGpuCopyRect where
  "no_rect = \<lparr>x1 = 0, y1 = 0, x2 = 0, y2 = 0\<rparr>"

definition no_entry :: LorieGpuCopyEntry where
  "no_entry = \<lparr>e_serial = 0, srcBufferId = 0, dstBufferId = 0, xOff = 0, yOff = 0, numRects = 0,
     rects = replicate 16 no_rect\<rparr>"

definition ring_at :: "u32 \<Rightarrow> gpuCopyQueue" where
  "ring_at i = \<lparr>writeIndex = i, readIndex = i, completedSerial = 0, entries = replicate 8 no_entry\<rparr>"

lemma ring_at_inv: "ring_inv (ring_at i)" "\<not> ring_full (ring_at i)" "pending (ring_at i) = []"
  by (simp_all add: ring_at_def ring_inv_def no_entry_def ring_consts ring_full_def pending_def ring_count_def)

theorem gpu_queue_fifo_witness:
  "e_serial (ring_head ((ring_pop ^^ 1) (ring_push 7 3 4 0 0 [no_rect] (ring_push 6 3 4 0 0 [no_rect] (ring_at 0xffffffff))))) = 7"
proof -
  let ?q = "ring_push 6 3 4 0 0 [no_rect] (ring_at 0xffffffff)"
  have w: "ring_inv (ring_write 6 3 4 0 0 [no_rect] (ring_at 0xffffffff))"
    by (rule ring_inv_write) (simp_all add: ring_at_inv ring_consts)
  have inv: "ring_inv ?q" unfolding ring_push_def
    by (rule ring_inv_publish [OF w]) (simp add: ring_at_inv)
  have "ring_count ?q = 1" unfolding ring_push_def
    using pending_publish(2) [OF w] by (simp add: ring_at_inv) (simp add: ring_count_def ring_at_def)
  with gpu_queue_fifo [OF inv _ _ refl, of "[no_rect]" 7 3 4 0 0] ring_full_iff [OF inv]
  show ?thesis by (simp add: ring_consts)
qed

section \<open>The two processes\<close>

text \<open>The server tests for room, fills the slot and publishes it; the renderer takes entries until it
  finds the ring empty, waits for the fence of what it drew, and publishes the last serial.
  \<open>accepted\<close> and \<open>applied\<close> record the copies scheduled and the copies taken, in order.\<close>

datatype producer = Idle | Checked | Written

record gsys =
  g_q :: gpuCopyQueue
  gpuCopySerialCounter :: u64
  g_prod :: producer
  lastSerial :: u64
  g_fence :: "u64 option"
  accepted :: "LorieGpuCopyEntry list"
  applied :: "LorieGpuCopyEntry list"

inductive server_step :: "gsys \<Rightarrow> gsys \<Rightarrow> bool" where
  check: "g_prod s = Idle \<Longrightarrow> \<not> ring_full (g_q s) \<Longrightarrow> server_step s (s\<lparr>g_prod := Checked\<rparr>)"
| fill: "g_prod s = Checked \<Longrightarrow> rs \<noteq> [] \<Longrightarrow> length rs \<le> LORIE_GPU_COPY_MAX_RECTS \<Longrightarrow>
    server_step s (s\<lparr>g_q := ring_write (gpuCopySerialCounter s + 1) src dst x y rs (g_q s),
      gpuCopySerialCounter := gpuCopySerialCounter s + 1, g_prod := Written\<rparr>)"
| post: "g_prod s = Written \<Longrightarrow>
    server_step s (s\<lparr>g_q := ring_publish (g_q s), g_prod := Idle,
      accepted := accepted s @ [entries (g_q s) ! ring_slot (writeIndex (g_q s))]\<rparr>)"

inductive renderer_step :: "gsys \<Rightarrow> gsys \<Rightarrow> bool" where
  copy: "g_fence s = None \<Longrightarrow> \<not> ring_empty (g_q s) \<Longrightarrow>
    renderer_step s (s\<lparr>g_q := ring_pop (g_q s), lastSerial := e_serial (ring_head (g_q s)),
      applied := applied s @ [ring_head (g_q s)]\<rparr>)"
| fence: "g_fence s = None \<Longrightarrow> ring_empty (g_q s) \<Longrightarrow> lastSerial s \<noteq> 0 \<Longrightarrow>
    renderer_step s (s\<lparr>g_fence := Some (lastSerial s), lastSerial := 0\<rparr>)"
| finish: "g_fence s = Some v \<Longrightarrow>
    renderer_step s (s\<lparr>g_q := (g_q s)\<lparr>completedSerial := v\<rparr>, g_fence := None\<rparr>)"

definition gsys_step :: "gsys \<Rightarrow> gsys \<Rightarrow> bool" where
  "gsys_step s t \<longleftrightarrow> server_step s t \<or> renderer_step s t"

definition gsys_init :: "gsys \<Rightarrow> bool" where
  "gsys_init s \<longleftrightarrow> ring_inv (g_q s) \<and> ring_empty (g_q s) \<and> completedSerial (g_q s) = 0 \<and>
     gpuCopySerialCounter s = 0 \<and> g_prod s = Idle \<and> lastSerial s = 0 \<and> g_fence s = None \<and>
     accepted s = [] \<and> applied s = []"

inductive_cases server_stepE [consumes 1, case_names check fill post]: "server_step s t"
inductive_cases renderer_stepE [consumes 1, case_names copy fence finish]: "renderer_step s t"

definition serials_ok :: "LorieGpuCopyEntry list \<Rightarrow> bool" where
  "serials_ok es \<longleftrightarrow> (\<forall>k < length es. e_serial (es ! k) = of_nat (Suc k))"

lemma serials_okD: "serials_ok es \<Longrightarrow> k < length es \<Longrightarrow> e_serial (es ! k) = of_nat (Suc k)"
  by (simp add: serials_ok_def)

lemma serials_ok_snoc: "serials_ok (es @ [e]) \<longleftrightarrow> serials_ok es \<and> e_serial e = of_nat (Suc (length es))"
  by (auto simp: serials_ok_def nth_append less_Suc_eq)

definition gsys_inv :: "gsys \<Rightarrow> bool" where
  "gsys_inv s \<longleftrightarrow> ring_inv (g_q s) \<and> (g_prod s \<noteq> Idle \<longrightarrow> \<not> ring_full (g_q s)) \<and>
     accepted s = applied s @ pending (g_q s) \<and>
     gpuCopySerialCounter s = of_nat (length (accepted s)) + (if g_prod s = Written then 1 else 0) \<and>
     (g_prod s = Written \<longrightarrow>
        e_serial (entries (g_q s) ! ring_slot (writeIndex (g_q s))) = gpuCopySerialCounter s) \<and>
     serials_ok (accepted s)"

text \<open>Which serial is where on its way to \<open>completedSerial\<close>: as long as serials do not wrap, it is the
  serial of the last copy taken that is being drawn, fenced or published.\<close>

definition serial_inv :: "gsys \<Rightarrow> bool" where
  "serial_inv s \<longleftrightarrow> length (accepted s) < 2 ^ 64 \<longrightarrow>
     unat (completedSerial (g_q s)) \<le> length (applied s) \<and>
     (case g_fence s of
        Some v \<Rightarrow> lastSerial s = 0 \<and> v = of_nat (length (applied s))
      | None \<Rightarrow> lastSerial s = of_nat (length (applied s)) \<or>
          lastSerial s = 0 \<and> completedSerial (g_q s) = of_nat (length (applied s)))"

lemma ring_full_pop:
  assumes "ring_inv q" and "\<not> ring_empty q"
  shows "\<not> ring_full (ring_pop q)"
proof -
  have "length (pending q) \<le> LORIE_GPU_COPY_QUEUE_CAPACITY"
    using assms(1) by (simp add: pending_length ring_inv_def ring_count_def)
  then show ?thesis
    using ring.full_iff [OF ring_inv_pop [OF assms]] pending_pop(1) [OF assms(2)] by simp
qed

lemma gsys_inv_init: "gsys_init s \<Longrightarrow> gsys_inv s \<and> serial_inv s"
  by (simp add: gsys_init_def gsys_inv_def serial_inv_def ring_empty_iff serials_ok_def)

lemma gsys_inv_server:
  assumes "server_step s t" and "gsys_inv s"
  shows "gsys_inv t"
  using assms(1)
proof (cases rule: server_stepE)
  case check
  then show ?thesis using assms(2) by (auto simp: gsys_inv_def)
next
  case (fill rs src dst x y)
  then show ?thesis
    using assms(2) pending_write [of "g_q s"] ring_inv_write [of "g_q s" rs]
    by (auto simp: gsys_inv_def) (simp add: fill_entry_def)
next
  case post
  have q: "ring_inv (g_q s)" "\<not> ring_full (g_q s)" using assms(2) post by (simp_all add: gsys_inv_def)
  have "serials_ok (accepted s @ [entries (g_q s) ! ring_slot (writeIndex (g_q s))])"
    using assms(2) post unfolding serials_ok_snoc by (auto simp: gsys_inv_def)
  then show ?thesis
    using assms(2) post pending_publish [OF q] ring_inv_publish [OF q] by (auto simp: gsys_inv_def)
qed

lemma ring_pop_slot: "entries (ring_pop q) = entries q" "writeIndex (ring_pop q) = writeIndex q"
    "completedSerial (ring_pop q) = completedSerial q"
  by (simp_all add: ring_pop_def)

lemma completed_upd:
  "ring_inv (q\<lparr>completedSerial := v\<rparr>) = ring_inv q" "ring_full (q\<lparr>completedSerial := v\<rparr>) = ring_full q"
  "pending (q\<lparr>completedSerial := v\<rparr>) = pending q"
  by (simp_all add: ring_inv_def ring_full_def pending_def ring_count_def)

lemma gsys_inv_renderer:
  assumes "renderer_step s t" and "gsys_inv s"
  shows "gsys_inv t"
  using assms(1)
proof (cases rule: renderer_stepE)
  case copy
  have q: "ring_inv (g_q s)" using assms(2) by (simp add: gsys_inv_def)
  show ?thesis
    using assms(2) copy pending_pop(1) [OF copy(3)] ring_inv_pop [OF q copy(3)] ring_full_pop [OF q copy(3)]
    by (auto simp: gsys_inv_def ring_pop_slot)
next
  case fence
  then show ?thesis using assms(2) by (auto simp: gsys_inv_def)
next
  case (finish v)
  then show ?thesis using assms(2) by (auto simp: gsys_inv_def completed_upd)
qed

lemma serial_inv_server:
  assumes "server_step s t" and "serial_inv s"
  shows "serial_inv t"
  using assms by (cases rule: server_stepE) (auto simp: serial_inv_def split: option.splits)

lemma serial_inv_renderer:
  assumes "renderer_step s t" and "gsys_inv s" and "serial_inv s"
  shows "serial_inv t"
  using assms(1)
proof (cases rule: renderer_stepE)
  case copy
  have acc: "accepted s = applied s @ ring_head (g_q s) # pending (ring_pop (g_q s))"
    using assms(2) pending_pop(1) [OF copy(3)] by (simp add: gsys_inv_def)
  moreover have "serials_ok (accepted s)" using assms(2) by (auto simp: gsys_inv_def)
  ultimately have "e_serial (accepted s ! length (applied s)) = of_nat (Suc (length (applied s)))"
    using serials_okD [of "accepted s" "length (applied s)"] by simp
  then have "e_serial (ring_head (g_q s)) = of_nat (Suc (length (applied s)))" using acc by simp
  then show ?thesis using assms(3) copy by (auto simp: serial_inv_def ring_pop_slot)
next
  case fence
  then show ?thesis using assms(3) by (auto simp: serial_inv_def)
next
  case (finish v)
  have "length (applied s) < 2 ^ 64" if "length (accepted s) < 2 ^ 64"
    using that assms(2) by (simp add: gsys_inv_def)
  then show ?thesis using assms(3) finish by (auto simp: serial_inv_def unat_of_nat)
qed

lemma gsys_reachable_inv:
  assumes "gsys_init s0" and "gsys_step\<^sup>*\<^sup>* s0 s"
  shows "gsys_inv s \<and> serial_inv s"
  using assms(2)
proof (induction rule: rtranclp_induct)
  case base
  show ?case by (rule gsys_inv_init [OF assms(1)])
next
  case (step s t)
  from step.hyps(2) show ?case unfolding gsys_step_def
    using step.IH gsys_inv_server gsys_inv_renderer serial_inv_server serial_inv_renderer by blast
qed

text \<open>C2: In every interleaving of the two processes the copies are taken in the order they were
  scheduled, none lost or repeated, and a copy that \<open>lorieGpuCopyIsDone\<close> reports as done has been
  taken by the renderer before (for the first \<open>2 ^ 64\<close> copies, where serials do not wrap).\<close>

theorem gpu_copy_done_safe:
  assumes "gsys_init s0" and "gsys_step\<^sup>*\<^sup>* s0 s" and "length (accepted s) < 2 ^ 64"
  shows "accepted s = applied s @ pending (g_q s) \<and>
    (\<forall>k < length (accepted s). lorieGpuCopyIsDone (e_serial (accepted s ! k)) (g_q s) \<longrightarrow> k < length (applied s))"
proof -
  note inv = gsys_reachable_inv [OF assms(1,2)]
  have "k < length (applied s)"
    if k: "k < length (accepted s)" and d: "lorieGpuCopyIsDone (e_serial (accepted s ! k)) (g_q s)" for k
  proof -
    have "e_serial (accepted s ! k) = of_nat (Suc k)"
      using inv k serials_okD [of "accepted s" k] by (auto simp: gsys_inv_def)
    then have "unat (of_nat (Suc k) :: u64) \<le> unat (completedSerial (g_q s))"
      using d by (simp add: lorieGpuCopyIsDone_def word_le_nat_alt)
    moreover have "unat (of_nat (Suc k) :: u64) = Suc k"
      using k assms(3) by (simp add: unat_of_nat del: of_nat_Suc)
    ultimately show ?thesis using inv assms(3) by (simp add: serial_inv_def)
  qed
  with inv show ?thesis by (simp add: gsys_inv_def)
qed

lemma renderer_drains:
  assumes "gsys_inv s" and "g_fence s = None"
  shows "\<exists>t. renderer_step\<^sup>*\<^sup>* s t \<and> g_fence t = None \<and> ring_empty (g_q t) \<and> accepted t = accepted s"
  using assms
proof (induction "ring_count (g_q s)" arbitrary: s)
  case 0
  then have "ring_empty (g_q s)" by (simp add: ring_empty_iff flip: length_0_conv pending_length)
  with "0.prems" show ?case by blast
next
  case (Suc n)
  let ?t = "s\<lparr>g_q := ring_pop (g_q s), lastSerial := e_serial (ring_head (g_q s)),
      applied := applied s @ [ring_head (g_q s)]\<rparr>"
  have ne: "\<not> ring_empty (g_q s)" using Suc.hyps(2) pending_length [of "g_q s"] by (auto simp: ring_empty_iff)
  have st: "renderer_step s ?t" by (rule copy [OF Suc.prems(2) ne])
  have "n = ring_count (g_q ?t)" using Suc.hyps(2) pending_pop(2) [OF ne] by simp
  from Suc.hyps(1) [OF this gsys_inv_renderer [OF st Suc.prems(1)]] Suc.prems(2) obtain t
    where "renderer_step\<^sup>*\<^sup>* ?t t" "g_fence t = None" "ring_empty (g_q t)" "accepted t = accepted s" by auto
  with st show ?case by (meson converse_rtranclp_into_rtranclp)
qed

lemma renderer_keeps_inv:
  assumes "renderer_step\<^sup>*\<^sup>* s t" and "gsys_inv s" and "serial_inv s"
  shows "gsys_inv t \<and> serial_inv t"
  using assms(1)
  by (induction rule: rtranclp_induct) (use assms(2,3) gsys_inv_renderer serial_inv_renderer in blast)+

lemma renderer_publishes:
  assumes "gsys_inv s" and "serial_inv s" and "length (accepted s) < 2 ^ 64" and "g_fence s = None"
    and "ring_empty (g_q s)"
  shows "\<exists>t. renderer_step\<^sup>*\<^sup>* s t \<and> accepted t = accepted s \<and> applied t = accepted s \<and>
    completedSerial (g_q t) = of_nat (length (accepted s))"
proof -
  have acc: "accepted s = applied s" using assms(1,5) by (simp add: gsys_inv_def ring_empty_iff)
  show ?thesis
  proof (cases "lastSerial s = 0 \<and> completedSerial (g_q s) = of_nat (length (applied s))")
    case True
    with acc show ?thesis by (intro exI [of _ s]) simp
  next
    case False
    have le: "unat (completedSerial (g_q s)) \<le> length (applied s)"
      using assms(2,3) by (simp add: serial_inv_def)
    have "completedSerial (g_q s) = 0" if "(of_nat (length (applied s)) :: u64) = 0"
    proof -
      have "unat (of_nat (length (applied s)) :: u64) = length (applied s)"
        using assms(3) acc by (simp add: unat_of_nat)
      then have "length (applied s) = 0" using that by simp
      then show ?thesis using le by (simp add: unat_eq_0)
    qed
    then have l: "lastSerial s = of_nat (length (applied s))" and nz: "lastSerial s \<noteq> 0"
      using False assms(2-4) acc by (auto simp: serial_inv_def)
    let ?t = "s\<lparr>g_fence := Some (lastSerial s), lastSerial := 0\<rparr>"
    let ?u = "?t\<lparr>g_q := (g_q ?t)\<lparr>completedSerial := lastSerial s\<rparr>, g_fence := None\<rparr>"
    have "renderer_step s ?t" by (rule fence [OF assms(4,5) nz])
    moreover have "renderer_step ?t ?u" by (rule finish) simp
    ultimately have "renderer_step\<^sup>*\<^sup>* s ?u" by (meson converse_rtranclp_into_rtranclp r_into_rtranclp)
    then show ?thesis using acc l by (intro exI [of _ ?u]) simp
  qed
qed

text \<open>C21: From every reachable state the renderer alone can finish everything that was scheduled:
  it takes all copies in order and then publishes a serial for which each of them is done.\<close>

theorem gpu_copy_done_live:
  assumes "gsys_init s0" and "gsys_step\<^sup>*\<^sup>* s0 s" and "length (accepted s) < 2 ^ 64"
  shows "\<exists>t. renderer_step\<^sup>*\<^sup>* s t \<and> accepted t = accepted s \<and> applied t = accepted s \<and>
    (\<forall>e \<in> set (accepted s). lorieGpuCopyIsDone (e_serial e) (g_q t))"
proof -
  note inv = gsys_reachable_inv [OF assms(1,2)]
  obtain a where a: "renderer_step\<^sup>*\<^sup>* s a" "g_fence a = None" "accepted a = accepted s"
  proof (cases "g_fence s")
    case None
    with that [of s] show thesis by simp
  next
    case (Some v)
    let ?t = "s\<lparr>g_q := (g_q s)\<lparr>completedSerial := v\<rparr>, g_fence := None\<rparr>"
    have "renderer_step\<^sup>*\<^sup>* s ?t" by (rule r_into_rtranclp, rule finish) (rule Some)
    then show thesis by (rule that) simp_all
  qed
  note inv_a = renderer_keeps_inv [OF a(1)] inv
  obtain b where b: "renderer_step\<^sup>*\<^sup>* a b" "g_fence b = None" "ring_empty (g_q b)" "accepted b = accepted s"
    using renderer_drains [of a] inv_a a by auto
  have inv_b: "gsys_inv b" "serial_inv b" using renderer_keeps_inv [OF b(1)] inv_a by auto
  obtain t where t: "renderer_step\<^sup>*\<^sup>* b t" "accepted t = accepted s" "applied t = accepted s"
    "completedSerial (g_q t) = of_nat (length (accepted s))"
    using renderer_publishes [OF inv_b _ b(2,3)] assms(3) b(4) by auto
  have "lorieGpuCopyIsDone (e_serial e) (g_q t)" if e: "e \<in> set (accepted s)" for e
  proof -
    obtain k where k: "k < length (accepted s)" "e = accepted s ! k" using e by (auto simp: in_set_conv_nth)
    then have "e_serial e = of_nat (Suc k)" using inv serials_okD [of "accepted s" k] by (auto simp: gsys_inv_def)
    then show ?thesis
      using k assms(3) t(4) by (simp add: lorieGpuCopyIsDone_def word_le_nat_alt unat_of_nat del: of_nat_Suc)
  qed
  with a(1) b(1) t show ?thesis by (meson rtranclp_trans)
qed

definition gsys0 :: gsys where
  "gsys0 = \<lparr>g_q = ring_at 0, gpuCopySerialCounter = 0, g_prod = Idle, lastSerial = 0, g_fence = None,
     accepted = [], applied = []\<rparr>"

lemma gsys0_init: "gsys_init gsys0"
  using ring_at_inv [of 0] by (simp add: gsys_init_def gsys0_def ring_empty_iff) (simp add: ring_at_def)

text \<open>A run in which one copy has been scheduled and not yet taken.\<close>

lemma gsys0_run:
  obtains s where "gsys_step\<^sup>*\<^sup>* gsys0 s" and "length (accepted s) = 1"
proof -
  let ?a = "gsys0\<lparr>g_prod := Checked\<rparr>"
  let ?b = "?a\<lparr>g_q := ring_write (gpuCopySerialCounter ?a + 1) 3 4 0 0 [no_rect] (g_q ?a),
      gpuCopySerialCounter := gpuCopySerialCounter ?a + 1, g_prod := Written\<rparr>"
  let ?c = "?b\<lparr>g_q := ring_publish (g_q ?b), g_prod := Idle,
      accepted := accepted ?b @ [entries (g_q ?b) ! ring_slot (writeIndex (g_q ?b))]\<rparr>"
  have "server_step gsys0 ?a" by (rule check) (simp_all add: gsys0_def ring_at_inv)
  moreover have "server_step ?a ?b" by (rule fill) (simp_all add: ring_consts)
  moreover have "server_step ?b ?c" by (rule post) simp
  ultimately have "gsys_step\<^sup>*\<^sup>* gsys0 ?c"
    by (meson converse_rtranclp_into_rtranclp rtranclp.rtrancl_refl gsys_step_def)
  then show thesis by (rule that) (simp add: gsys0_def)
qed

theorem gpu_copy_done_safe_witness:
  "\<exists>s. gsys_step\<^sup>*\<^sup>* gsys0 s \<and> length (accepted s) = 1 \<and> accepted s = applied s @ pending (g_q s)"
proof -
  obtain s where "gsys_step\<^sup>*\<^sup>* gsys0 s" "length (accepted s) = 1" by (rule gsys0_run)
  with gpu_copy_done_safe [OF gsys0_init this(1)] show ?thesis by auto
qed

theorem gpu_copy_done_live_witness:
  "\<exists>s t. gsys_step\<^sup>*\<^sup>* gsys0 s \<and> length (accepted s) = 1 \<and> renderer_step\<^sup>*\<^sup>* s t \<and> length (applied t) = 1"
proof -
  obtain s where s: "gsys_step\<^sup>*\<^sup>* gsys0 s" "length (accepted s) = 1" by (rule gsys0_run)
  from gpu_copy_done_live [OF gsys0_init s(1)] s(2) obtain t
    where "renderer_step\<^sup>*\<^sup>* s t" "applied t = accepted s" by auto
  with s show ?thesis by (intro exI [of _ s] exI [of _ t]) simp
qed

end
