(* ===== verification/XList.thy ===== *)
theory XList
  imports Prelude
begin

text \<open>
  The intrusive doubly linked circular lists of \<open>xserver/include/list.h\<close>. A node of type
  \<open>struct xorg_list\<close> is an address; the heap holds its two pointers. The list head is itself
  a node, so an empty list is a node that points to itself. \<open>xl_list h hd xs\<close> says that the
  list with head \<open>hd\<close> holds the nodes \<open>xs\<close> in order; every operation of the header is shown
  to implement the corresponding operation on \<open>xs\<close> and to leave disjoint lists alone.
\<close>

record 'a xheap =
  nxt :: "'a \<Rightarrow> 'a"
  prv :: "'a \<Rightarrow> 'a"

definition xorg_list_init :: "'a \<Rightarrow> 'a xheap \<Rightarrow> 'a xheap" where
  "xorg_list_init l h = h\<lparr>nxt := (nxt h)(l := l), prv := (prv h)(l := l)\<rparr>"

definition xorg_list_add_between :: "'a \<Rightarrow> 'a \<Rightarrow> 'a \<Rightarrow> 'a xheap \<Rightarrow> 'a xheap" where
  "xorg_list_add_between entry prev next0 h =
     (let h1 = h\<lparr>prv := (prv h)(next0 := entry)\<rparr>;
          h2 = h1\<lparr>nxt := (nxt h1)(entry := next0)\<rparr>;
          h3 = h2\<lparr>prv := (prv h2)(entry := prev)\<rparr>
      in h3\<lparr>nxt := (nxt h3)(prev := entry)\<rparr>)"

definition xorg_list_add :: "'a \<Rightarrow> 'a \<Rightarrow> 'a xheap \<Rightarrow> 'a xheap" where
  "xorg_list_add entry head h = xorg_list_add_between entry head (nxt h head) h"

definition xorg_list_append :: "'a \<Rightarrow> 'a \<Rightarrow> 'a xheap \<Rightarrow> 'a xheap" where
  "xorg_list_append entry head h = xorg_list_add_between entry (prv h head) head h"

definition xorg_list_del_between :: "'a \<Rightarrow> 'a \<Rightarrow> 'a xheap \<Rightarrow> 'a xheap" where
  "xorg_list_del_between prev next0 h =
     (let h1 = h\<lparr>prv := (prv h)(next0 := prev)\<rparr>
      in h1\<lparr>nxt := (nxt h1)(prev := next0)\<rparr>)"

definition xorg_list_del :: "'a \<Rightarrow> 'a xheap \<Rightarrow> 'a xheap" where
  "xorg_list_del entry h =
     xorg_list_init entry (xorg_list_del_between (prv h entry) (nxt h entry) h)"

definition xorg_list_is_empty :: "'a \<Rightarrow> 'a xheap \<Rightarrow> bool" where
  "xorg_list_is_empty head h \<longleftrightarrow> nxt h head = head"

definition xorg_list_first_entry :: "'a \<Rightarrow> 'a xheap \<Rightarrow> 'a" where
  "xorg_list_first_entry head h = nxt h head"

definition xorg_list_last_entry :: "'a \<Rightarrow> 'a xheap \<Rightarrow> 'a" where
  "xorg_list_last_entry head h = prv h head"

text \<open>
  \<open>xorg_list_for_each_entry\<close> visits nodes until it is back at the head. The fuel bounds the
  number of loop tests; on a well-formed list one more than its length is enough.
\<close>

fun xorg_list_for_each :: "nat \<Rightarrow> 'a xheap \<Rightarrow> 'a \<Rightarrow> 'a \<Rightarrow> 'a list option" where
  "xorg_list_for_each 0 h head pos = None"
| "xorg_list_for_each (Suc n) h head pos =
     (if pos = head then Some []
      else map_option ((#) pos) (xorg_list_for_each n h head (nxt h pos)))"

section \<open>Representation\<close>

definition linked :: "'a xheap \<Rightarrow> 'a list \<Rightarrow> bool" where
  "linked h = successively (\<lambda>a b. nxt h a = b \<and> prv h b = a)"

definition xl_list :: "'a xheap \<Rightarrow> 'a \<Rightarrow> 'a list \<Rightarrow> bool" where
  "xl_list h head xs \<longleftrightarrow> distinct (head # xs) \<and> linked h (head # xs @ [head])"

lemma linked_simps [simp]:
  "linked h []"
  "linked h [a]"
  "linked h (a # b # xs) \<longleftrightarrow> nxt h a = b \<and> prv h b = a \<and> linked h (b # xs)"
  by (simp_all add: linked_def)

lemma linked_append: "linked h (xs @ y # ys) \<longleftrightarrow> linked h (xs @ [y]) \<and> linked h (y # ys)"
proof (induction xs)
  case (Cons a xs)
  then show ?case by (cases xs) auto
qed simp

lemma linked_frame:
  assumes "linked h zs"
    and "\<And>a. a \<in> set (butlast zs) \<Longrightarrow> nxt h' a = nxt h a"
    and "\<And>b. b \<in> set (tl zs) \<Longrightarrow> prv h' b = prv h b"
  shows "linked h' zs"
  using assms
proof (induction zs)
  case (Cons a zs)
  then show ?case by (cases zs) auto
qed simp

lemma linked_nxt: "linked h (xs @ a # b # ys) \<Longrightarrow> nxt h a = b \<and> prv h b = a"
  using linked_append [of h xs a "b # ys"] by simp

lemma xl_list_head_next: "xl_list h head xs \<Longrightarrow> nxt h head = hd (xs @ [head])"
  by (cases xs) (auto simp: xl_list_def)

lemma xl_list_head_prev: "xl_list h head xs \<Longrightarrow> prv h head = last (head # xs)"
  using linked_nxt [of h "head # butlast xs" "last xs" head "[]"]
  by (cases xs rule: rev_cases) (auto simp: xl_list_def)

section \<open>The operations on the represented lists\<close>

lemma xl_init: "xl_list (xorg_list_init l h) l []"
  by (simp add: xl_list_def xorg_list_init_def)

lemma xl_is_empty: "xl_list h head xs \<Longrightarrow> xorg_list_is_empty head h \<longleftrightarrow> xs = []"
  by (cases xs) (auto simp: xl_list_def xorg_list_is_empty_def)

lemma xl_first: "xl_list h head (x # xs) \<Longrightarrow> xorg_list_first_entry head h = x"
  by (simp add: xl_list_def xorg_list_first_entry_def)

lemma xl_last: "xl_list h head (xs @ [x]) \<Longrightarrow> xorg_list_last_entry head h = x"
  by (simp add: xl_list_head_prev xorg_list_last_entry_def)

lemma xl_add:
  assumes "xl_list h head xs" and "e \<notin> set (head # xs)"
  shows "xl_list (xorg_list_add e head h) head (e # xs)"
proof (cases xs)
  case Nil
  with assms show ?thesis
    by (simp add: xl_list_def xorg_list_add_def xorg_list_add_between_def Let_def)
next
  case (Cons x ys)
  let ?h' = "xorg_list_add e head h"
  from assms Cons have "linked h (x # ys @ [head])" by (simp add: xl_list_def)
  then have "linked ?h' (x # ys @ [head])"
    by (rule linked_frame)
       (use assms Cons in \<open>auto simp: xl_list_def xorg_list_add_def xorg_list_add_between_def Let_def butlast_append\<close>)
  with assms Cons show ?thesis
    by (auto simp: xl_list_def xorg_list_add_def xorg_list_add_between_def Let_def)
qed

lemma xl_append:
  assumes "xl_list h head xs" and "e \<notin> set (head # xs)"
  shows "xl_list (xorg_list_append e head h) head (xs @ [e])"
proof (cases xs rule: rev_cases)
  case Nil
  with assms show ?thesis
    by (simp add: xl_list_def xorg_list_append_def xorg_list_add_between_def Let_def)
next
  case (snoc ys x)
  let ?h' = "xorg_list_append e head h"
  have px: "prv h head = x" using assms snoc by (simp add: xl_list_head_prev)
  from assms snoc have "linked h (head # ys @ [x])"
    using linked_append [of h "head # ys" x "[head]"] by (simp add: xl_list_def)
  then have "linked ?h' (head # ys @ [x])"
    by (rule linked_frame)
       (use assms snoc px in \<open>auto simp: xl_list_def xorg_list_append_def xorg_list_add_between_def Let_def butlast_append\<close>)
  moreover have "linked ?h' [x, e, head]"
    using assms snoc px
    by (auto simp: xl_list_def xorg_list_append_def xorg_list_add_between_def Let_def)
  ultimately show ?thesis
    using assms snoc linked_append [of ?h' "head # ys" x "[e, head]"]
    by (auto simp: xl_list_def)
qed

lemma xl_neighbours:
  assumes "xl_list h head (xs @ e # ys)"
  shows "prv h e = last (head # xs)" and "nxt h e = hd (ys @ [head])"
    and "linked h (head # xs)" and "linked h (ys @ [head])"
proof -
  have cyc: "linked h ((head # xs) @ e # ys @ [head])" using assms by (simp add: xl_list_def)
  have eys: "linked h (e # ys @ [head])"
    using cyc linked_append [of h "head # xs" e "ys @ [head]"] by simp
  have xse: "linked h ((head # xs) @ [e])"
    using cyc linked_append [of h "head # xs" e "ys @ [head]"] by simp
  show "nxt h e = hd (ys @ [head])" using eys by (cases ys) auto
  show "linked h (ys @ [head])" using eys by (cases ys) auto
  show "prv h e = last (head # xs)"
    using xse linked_nxt [of h "head # butlast xs" "last xs" e "[]"]
    by (cases xs rule: rev_cases) auto
  show "linked h (head # xs)"
    using xse linked_append [of h "head # butlast xs" "last xs" "[e]"]
    by (cases xs rule: rev_cases) auto
qed

lemma del_pointers:
  "nxt (xorg_list_del e h) =
     (nxt h)(prv h e := nxt h e, e := e)"
  "prv (xorg_list_del e h) =
     (prv h)(nxt h e := prv h e, e := e)"
  by (simp_all add: xorg_list_del_def xorg_list_init_def xorg_list_del_between_def Let_def)

lemma xl_del:
  assumes "xl_list h head (xs @ e # ys)"
  shows "xl_list (xorg_list_del e h) head (xs @ ys)"
proof -
  let ?h' = "xorg_list_del e h"
  note nb = xl_neighbours [OF assms]
  have d: "distinct (head # xs @ e # ys)" using assms by (simp add: xl_list_def)
  have m1: "linked ?h' (head # xs)"
    by (rule linked_frame [OF nb(3)]; cases xs rule: rev_cases; cases ys)
       (use d in \<open>auto simp: del_pointers nb butlast_append\<close>)
  have m2: "linked ?h' (ys @ [head])"
    by (rule linked_frame [OF nb(4)]; cases xs rule: rev_cases; cases ys)
       (use d in \<open>auto simp: del_pointers nb butlast_append\<close>)
  have m3: "nxt ?h' (last (head # xs)) = hd (ys @ [head]) \<and>
      prv ?h' (hd (ys @ [head])) = last (head # xs)"
    using d by (cases ys; cases xs rule: rev_cases) (auto simp: del_pointers nb)
  have "linked ?h' (head # xs @ ys @ [head])"
    using m1 m2 m3 linked_append [of ?h' "head # butlast xs" "last xs" "ys @ [head]"]
    by (cases xs rule: rev_cases; cases ys) auto
  with d show ?thesis by (auto simp: xl_list_def)
qed

lemma xl_del_self: "xl_list (xorg_list_del e h) e []"
  by (simp add: xl_list_def del_pointers)

lemma xl_del_detached: "xl_list h e [] \<Longrightarrow> xorg_list_del e h = h"
  by (rule xheap.equality) (simp_all add: xl_list_def del_pointers fun_upd_idem)

text \<open>Lists that share no node with the one operated on are left alone.\<close>

lemma xl_frame:
  assumes "xl_list h b zs"
    and "\<And>a. a \<in> set (b # zs) \<Longrightarrow> nxt h' a = nxt h a \<and> prv h' a = prv h a"
  shows "xl_list h' b zs"
  using assms linked_frame [of h "b # zs @ [b]" h'] by (auto simp: xl_list_def butlast_append)

lemma xl_add_frame:
  assumes "xl_list h b zs" "xl_list h head xs" "set (b # zs) \<inter> set (e # head # xs) = {}"
  shows "xl_list (xorg_list_add e head h) b zs"
  using assms xl_list_head_next [OF assms(2)]
  by (intro xl_frame [OF assms(1)])
     (cases xs; auto simp: xorg_list_add_def xorg_list_add_between_def Let_def)

lemma xl_append_frame:
  assumes "xl_list h b zs" "xl_list h head xs" "set (b # zs) \<inter> set (e # head # xs) = {}"
  shows "xl_list (xorg_list_append e head h) b zs"
  using assms xl_list_head_prev [OF assms(2)]
  by (intro xl_frame [OF assms(1)])
     (cases xs rule: rev_cases; auto simp: xorg_list_append_def xorg_list_add_between_def Let_def)

lemma xl_del_frame:
  assumes "xl_list h b zs" "xl_list h head (xs @ e # ys)"
    "set (b # zs) \<inter> set (head # xs @ e # ys) = {}"
  shows "xl_list (xorg_list_del e h) b zs"
  using assms xl_neighbours(1,2) [OF assms(2)]
  by (intro xl_frame [OF assms(1)])
     (cases xs rule: rev_cases; cases ys; auto simp: del_pointers)

text \<open>A traversal returns the nodes in order and needs one step more than there are nodes.\<close>

lemma xl_for_each_from:
  assumes "linked h (xs @ [head])" and "head \<notin> set xs" and "length xs < n"
  shows "xorg_list_for_each n h head (hd (xs @ [head])) = Some xs"
  using assms
proof (induction xs arbitrary: n)
  case Nil
  then show ?case by (cases n) auto
next
  case (Cons x xs)
  then obtain m where "n = Suc m" by (cases n) auto
  with Cons show ?case by (cases xs) auto
qed

lemma xl_for_each:
  assumes "xl_list h head xs" and "length xs < n"
  shows "xorg_list_for_each n h head (nxt h head) = Some xs"
proof -
  have "linked h (xs @ [head])"
    using assms by (cases xs) (auto simp: xl_list_def)
  moreover have "head \<notin> set xs" using assms by (simp add: xl_list_def)
  ultimately show ?thesis
    using xl_for_each_from [of h xs head n] assms xl_list_head_next [OF assms(1)] by simp
qed

section \<open>The interface the users of the lists rely on\<close>

text \<open>
  Users of the header see a family of lists over one heap. An unlinked node is the head of
  an empty list of its own, as \<open>xorg_list_init\<close> leaves it.
\<close>

locale intrusive_list =
  fixes rep :: "'h \<Rightarrow> 'a \<Rightarrow> 'a list \<Rightarrow> bool"
    and add :: "'a \<Rightarrow> 'a \<Rightarrow> 'h \<Rightarrow> 'h"
    and del :: "'a \<Rightarrow> 'h \<Rightarrow> 'h"
  assumes rep_distinct: "rep h l xs \<Longrightarrow> distinct (l # xs)"
    and rep_add: "rep h l xs \<Longrightarrow> e \<notin> set (l # xs) \<Longrightarrow> rep (add e l h) l (e # xs)"
    and rep_add_frame: "rep h b zs \<Longrightarrow> rep h l xs \<Longrightarrow> set (b # zs) \<inter> set (e # l # xs) = {} \<Longrightarrow>
      rep (add e l h) b zs"
    and rep_del: "rep h l (xs @ e # ys) \<Longrightarrow> rep (del e h) l (xs @ ys)"
    and rep_del_self: "rep (del e h) e []"
    and rep_del_detached: "rep h e [] \<Longrightarrow> del e h = h"
    and rep_del_frame: "rep h b zs \<Longrightarrow> rep h l (xs @ e # ys) \<Longrightarrow>
      set (b # zs) \<inter> set (l # xs @ e # ys) = {} \<Longrightarrow> rep (del e h) b zs"
begin

lemma insert_detached:
  assumes "rep h e []" and "rep h l xs" and "e \<notin> set (l # xs)"
  shows "rep (add e l (del e h)) l (e # xs)"
  using assms by (simp add: rep_del_detached rep_add)

lemma move_front:
  assumes "rep h l (xs @ e # ys)"
  shows "rep (add e l (del e h)) l (e # xs @ ys)"
  using rep_add [OF rep_del [OF assms]] rep_distinct [OF assms] by auto

lemma move_between:
  assumes "rep h a (xs @ e # ys)" and "rep h b zs"
    and "set (a # xs @ e # ys) \<inter> set (b # zs) = {}"
  shows "rep (add e b (del e h)) a (xs @ ys) \<and> rep (add e b (del e h)) b (e # zs)"
proof -
  have b: "rep (del e h) b zs" using assms by (intro rep_del_frame [OF assms(2) assms(1)]) auto
  have a: "rep (del e h) a (xs @ ys)" using assms(1) by (rule rep_del)
  have d: "distinct (a # xs @ e # ys)" using assms(1) by (rule rep_distinct)
  have "set (a # xs @ ys) \<inter> set (e # b # zs) = {}" using assms(3) d by auto
  then have "rep (add e b (del e h)) a (xs @ ys)" by (rule rep_add_frame [OF a b])
  moreover have "e \<notin> set (b # zs)" using assms(3) by auto
  then have "rep (add e b (del e h)) b (e # zs)" by (rule rep_add [OF b])
  ultimately show ?thesis ..
qed

end

interpretation xl: intrusive_list xl_list xorg_list_add xorg_list_del
proof unfold_locales
  show "xl_list h l xs \<Longrightarrow> distinct (l # xs)" for h :: "'a xheap" and l xs
    by (simp add: xl_list_def)
qed (fact xl_add, fact xl_add_frame, fact xl_del, fact xl_del_self, fact xl_del_detached, fact xl_del_frame)

end
