(* ===== verification/Buffer.thy ===== *)
theory Buffer
  imports XList
begin

text \<open>
  The pixel buffers of \<open>lorie/buffer.c\<close> and \<open>lorie/buffer.h\<close>. A buffer is a counted structure
  whose pixels live in a private block, in a mapped shared memory region, or in a hardware
  buffer of the graphics allocator. The state holds everything the process owns: structures,
  blocks, mappings, descriptors and hardware buffers, each under a fresh number; 0 is the null
  pointer. The results of system and graphics calls are parameters: \<open>calls\<close> lists whether the next
  calls succeed (when it is used up they do), \<open>lock_rc\<close> is what locking a hardware buffer
  returns, \<open>gralloc_stride\<close> the row length the graphics allocator chooses. An operation that
  touches a structure that is not there, or a pixel outside its memory, is \<open>None\<close>.
\<close>

unbundle bit_operations_syntax

type_synonym addr = nat
type_synonym i32 = "32 word"

definition AHARDWAREBUFFER_FORMAT_R8G8B8X8_UNORM :: byte where "AHARDWAREBUFFER_FORMAT_R8G8B8X8_UNORM = 2"
definition AHARDWAREBUFFER_FORMAT_B8G8R8A8_UNORM :: byte where "AHARDWAREBUFFER_FORMAT_B8G8R8A8_UNORM = 5"
definition LORIEBUFFER_REGULAR :: byte where "LORIEBUFFER_REGULAR = 1"
definition LORIEBUFFER_FD :: byte where "LORIEBUFFER_FD = 2"
definition LORIEBUFFER_AHARDWAREBUFFER :: byte where "LORIEBUFFER_AHARDWAREBUFFER = 3"

lemmas buffer_consts =
  AHARDWAREBUFFER_FORMAT_R8G8B8X8_UNORM_def AHARDWAREBUFFER_FORMAT_B8G8R8A8_UNORM_def
  LORIEBUFFER_REGULAR_def LORIEBUFFER_FD_def LORIEBUFFER_AHARDWAREBUFFER_def

record LorieBuffer_Desc =
  d_width :: i32
  d_height :: i32
  d_stride :: i32
  d_format :: byte
  d_type :: byte
  d_id :: u64
  d_buffer :: addr
  d_data :: addr

text \<open>\<open>b_pad\<close> are the two padding bytes between \<open>refcount\<close> and \<open>desc\<close>; \<open>link\<close> is kept in the
  list heap under the address of the structure.\<close>

record LorieBuffer =
  refcount :: u16
  b_pad :: u16
  desc :: LorieBuffer_Desc
  locked :: byte
  lockedData :: addr
  b_fd :: int
  b_size :: u64
  b_offset :: nat
  gltex :: u32
  image :: addr
  gpuCopyPending :: u32

record mapping =
  m_region :: nat
  m_offset :: nat
  m_size :: nat

record ahb =
  ahb_width :: u32
  ahb_height :: u32
  ahb_stride :: u32
  ahb_format :: u32
  ahb_pixels :: "u32 list"
  ahb_refs :: nat

text \<open>What travels over the socket between the server and the activity.\<close>

datatype sockitem = SockStruct LorieBuffer | SockFd nat | SockAhb ahb

datatype glcall =
    GlDeleteTexture u32 | EglDestroyImage addr | GlBindTexture u32
  | GlImageTarget addr | GlTexImage i32 i32 bool | GlTexSubImage i32 i32 bool addr

record bstate =
  bufs :: "addr \<rightharpoonup> LorieBuffer"
  links :: "addr xheap"
  blocks :: "addr \<rightharpoonup> u32 list"
  mmaps :: "addr \<rightharpoonup> mapping"
  fds :: "int \<rightharpoonup> nat"
  regions :: "nat \<Rightarrow> u32 list"
  ahbs :: "addr \<rightharpoonup> ahb"
  buf_id :: u64
  fresh :: nat
  calls :: "bool list"
  page_size :: u64
  api26 :: bool
  lock_rc :: "addr \<Rightarrow> int"
  gralloc_stride :: "u32 \<Rightarrow> u32"
  blt_works :: bool
  gl_context :: bool
  egl_display :: bool
  gl_log :: "glcall list"

section \<open>System calls\<close>

definition os_call :: "bstate \<Rightarrow> bool \<times> bstate" where
  "os_call st = (case calls st of [] \<Rightarrow> (True, st) | r # rs \<Rightarrow> (r, st\<lparr>calls := rs\<rparr>))"

definition calloc_pixels :: "nat \<Rightarrow> bstate \<Rightarrow> addr \<times> bstate" where
  "calloc_pixels n st =
     (case os_call st of (ok, st1) \<Rightarrow>
        if ok then (fresh st1, st1\<lparr>blocks := (blocks st1)(fresh st1 \<mapsto> replicate n 0), fresh := Suc (fresh st1)\<rparr>)
        else (0, st1))"

definition free_pixels :: "addr \<Rightarrow> bstate \<Rightarrow> bstate" where
  "free_pixels a st = st\<lparr>blocks := (blocks st)(a := None)\<rparr>"

definition open_region :: "nat \<Rightarrow> bstate \<Rightarrow> int \<times> bstate" where
  "open_region len st =
     (int (fresh st), st\<lparr>fds := (fds st)(int (fresh st) \<mapsto> fresh st),
        regions := (regions st)(fresh st := replicate (len div 4) 0), fresh := Suc (fresh st)\<rparr>)"

definition close_fd :: "int \<Rightarrow> bstate \<Rightarrow> bstate" where
  "close_fd fd st = st\<lparr>fds := (fds st)(fd := None)\<rparr>"

definition dup_fd :: "int \<Rightarrow> bstate \<Rightarrow> int \<times> bstate" where
  "dup_fd fd st =
     (case fds st fd of
        None \<Rightarrow> (- 1, st)
      | Some r \<Rightarrow>
          (case os_call st of (ok, st1) \<Rightarrow>
             if ok then (int (fresh st1), st1\<lparr>fds := (fds st1)(int (fresh st1) \<mapsto> r), fresh := Suc (fresh st1)\<rparr>)
             else (- 1, st1)))"

definition mmap_fd :: "int \<Rightarrow> u64 \<Rightarrow> nat \<Rightarrow> bstate \<Rightarrow> addr \<times> bstate" where
  "mmap_fd fd len off st =
     (case fds st fd of
        None \<Rightarrow> (0, st)
      | Some r \<Rightarrow>
          (case os_call st of (ok, st1) \<Rightarrow>
             if ok then (fresh st1, st1\<lparr>mmaps := (mmaps st1)(fresh st1 \<mapsto>
                 \<lparr>m_region = r, m_offset = off, m_size = unat len\<rparr>), fresh := Suc (fresh st1)\<rparr>)
             else (0, st1)))"

definition munmap_at :: "addr \<Rightarrow> bstate \<Rightarrow> bstate" where
  "munmap_at a st = st\<lparr>mmaps := (mmaps st)(a := None)\<rparr>"

definition AHardwareBuffer_allocate :: "u32 \<Rightarrow> u32 \<Rightarrow> u32 \<Rightarrow> bstate \<Rightarrow> addr option \<times> bstate" where
  "AHardwareBuffer_allocate w h fmt st =
     (case os_call st of (ok, st1) \<Rightarrow>
        if ok then (Some (fresh st1), st1\<lparr>ahbs := (ahbs st1)(fresh st1 \<mapsto>
            \<lparr>ahb_width = w, ahb_height = h, ahb_stride = gralloc_stride st1 w, ahb_format = fmt,
             ahb_pixels = replicate (unat (gralloc_stride st1 w) * unat h) 0, ahb_refs = 1\<rparr>),
            fresh := Suc (fresh st1)\<rparr>)
        else (None, st1))"

definition AHardwareBuffer_release :: "addr \<Rightarrow> bstate \<Rightarrow> bstate" where
  "AHardwareBuffer_release a st =
     (case ahbs st a of
        None \<Rightarrow> st
      | Some h \<Rightarrow> st\<lparr>ahbs := (ahbs st)(a := if ahb_refs h \<le> 1 then None else Some (h\<lparr>ahb_refs := ahb_refs h - 1\<rparr>))\<rparr>)"

section \<open>Pixel memory\<close>

definition pixels :: "bstate \<Rightarrow> addr \<Rightarrow> u32 list option" where
  "pixels st a =
     (case blocks st a of
        Some xs \<Rightarrow> Some xs
      | None \<Rightarrow>
          (case mmaps st a of
             Some m \<Rightarrow> Some (take (m_size m div 4) (drop (m_offset m div 4) (regions st (m_region m))))
           | None \<Rightarrow> map_option ahb_pixels (ahbs st a)))"

definition put_pixels :: "addr \<Rightarrow> u32 list \<Rightarrow> bstate \<Rightarrow> bstate" where
  "put_pixels a xs st =
     (case blocks st a of
        Some _ \<Rightarrow> st\<lparr>blocks := (blocks st)(a \<mapsto> xs)\<rparr>
      | None \<Rightarrow>
          (case mmaps st a of
             Some m \<Rightarrow> st\<lparr>regions := (regions st)(m_region m :=
                 take (m_offset m div 4) (regions st (m_region m)) @ xs @
                 drop (m_offset m div 4 + length xs) (regions st (m_region m)))\<rparr>
           | None \<Rightarrow>
               (case ahbs st a of
                  Some h \<Rightarrow> st\<lparr>ahbs := (ahbs st)(a \<mapsto> h\<lparr>ahb_pixels := xs\<rparr>)\<rparr>
                | None \<Rightarrow> st)))"

text \<open>\<open>pixman_blt\<close> copies a rectangle row by row; strides are in pixels.\<close>

fun blt_row :: "u32 list \<Rightarrow> nat \<Rightarrow> u32 list \<Rightarrow> nat \<Rightarrow> nat \<Rightarrow> u32 list option" where
  "blt_row src s dst d 0 = Some dst"
| "blt_row src s dst d (Suc n) =
     (case rd src s of
        None \<Rightarrow> None
      | Some v \<Rightarrow> (case wr dst d v of None \<Rightarrow> None | Some dst' \<Rightarrow> blt_row src (Suc s) dst' (Suc d) n))"

fun blt_rows :: "u32 list \<Rightarrow> nat \<Rightarrow> nat \<Rightarrow> u32 list \<Rightarrow> nat \<Rightarrow> nat \<Rightarrow> nat \<Rightarrow> nat \<Rightarrow> u32 list option" where
  "blt_rows src s ss dst d ds w 0 = Some dst"
| "blt_rows src s ss dst d ds w (Suc h) =
     (case blt_row src s dst d w of
        None \<Rightarrow> None
      | Some dst' \<Rightarrow> blt_rows src (s + ss) ss dst' (d + ds) ds w h)"

definition pixman_blt :: "addr \<Rightarrow> addr \<Rightarrow> i32 \<Rightarrow> i32 \<Rightarrow> i32 \<Rightarrow> i32 \<Rightarrow> bstate \<Rightarrow> bstate option" where
  "pixman_blt src dst ss ds w h st =
     (if \<not> blt_works st then Some st
      else
        (case (pixels st src, pixels st dst) of
           (Some xs, Some ys) \<Rightarrow>
             map_option (\<lambda>zs. put_pixels dst zs st)
               (blt_rows xs 0 (unat ss) ys 0 (unat ds) (unat w) (unat h))
         | _ \<Rightarrow> None))"

section \<open>Allocation\<close>

definition alignToPage :: "u64 \<Rightarrow> bstate \<Rightarrow> u64" where
  "alignToPage n st = (n + page_size st - 1) AND NOT (page_size st - 1)"

text \<open>\<open>stride * height * sizeof(uint32_t)\<close>: an \<open>int\<close> product, widened, times four.\<close>

definition area_bytes :: "i32 \<Rightarrow> i32 \<Rightarrow> u64" where
  "area_bytes stride height = word_of_int (sint (stride * height)) * 4"

definition LorieBuffer_createRegion :: "u64 \<Rightarrow> bstate \<Rightarrow> int \<times> bstate" where
  "LorieBuffer_createRegion len st =
     (case (if api26 st then os_call st else (False, st)) of (ok, st1) \<Rightarrow>
        if ok then open_region (unat len) st1
        else
          (case os_call st1 of (ok2, st2) \<Rightarrow>
             if ok2 then
               (case os_call st2 of (ok3, st3) \<Rightarrow> open_region (if ok3 then unat len else 0) st3)
             else
               (case os_call st2 of (ok3, st3) \<Rightarrow>
                  if \<not> ok3 then (- 1, st3)
                  else
                    (case open_region (unat len) st3 of (fd, st4) \<Rightarrow>
                       (case os_call st4 of (ok5, st5) \<Rightarrow>
                          if \<not> ok5 then (- 1, close_fd fd st5)
                          else
                            (case os_call st5 of (ok6, st6) \<Rightarrow>
                               if \<not> ok6 then (- 1, close_fd fd st6) else (fd, st6)))))))"

definition acceptable :: "byte \<Rightarrow> i32 \<Rightarrow> i32 \<Rightarrow> bool" where
  "acceptable fmt w h \<longleftrightarrow>
     (fmt = AHARDWAREBUFFER_FORMAT_B8G8R8A8_UNORM \<or> fmt = AHARDWAREBUFFER_FORMAT_R8G8B8X8_UNORM) \<and>
     0 <s w \<and> 0 <s h"

text \<open>The backing store of a new buffer, as the switch of \<open>allocate\<close> obtains it: the description
  with \<open>data\<close> (or the geometry of the hardware buffer) filled in, or failure.\<close>

definition obtain_store :: "LorieBuffer_Desc \<Rightarrow> int \<Rightarrow> u64 \<Rightarrow> nat \<Rightarrow> bstate \<Rightarrow> LorieBuffer_Desc option \<times> bstate" where
  "obtain_store d fd len off st =
     (if d_type d = LORIEBUFFER_REGULAR then
        (case calloc_pixels (unat (area_bytes (d_stride d) (d_height d)) div 4) st of (a, st1) \<Rightarrow>
           if a = 0 then (None, st1) else (Some (d\<lparr>d_data := a\<rparr>), st1))
      else if d_type d = LORIEBUFFER_FD then
        if fd < 0 then (None, st)
        else
          (case mmap_fd fd len off st of (a, st1) \<Rightarrow>
             if a = 0 then (None, close_fd fd st1) else (Some (d\<lparr>d_data := a\<rparr>), st1))
      else if d_type d = LORIEBUFFER_AHARDWAREBUFFER then
        if d_buffer d = 0 then (None, st)
        else
          (case (if api26 st then ahbs st (d_buffer d) else None) of
             None \<Rightarrow> (Some (d\<lparr>d_width := 0, d_height := 0, d_stride := 0, d_format := 0\<rparr>), st)
           | Some h \<Rightarrow> (Some (d\<lparr>d_width := ahb_width h, d_height := ahb_height h,
               d_stride := ahb_stride h, d_format := ucast (ahb_format h)\<rparr>), st))
      else (None, st))"

text \<open>Giving the store back, in the error path of \<open>allocate\<close> and in \<open>__LorieBuffer_free\<close>.\<close>

definition drop_store :: "LorieBuffer_Desc \<Rightarrow> int \<Rightarrow> bstate \<Rightarrow> bstate" where
  "drop_store d fd st =
     (if d_type d = LORIEBUFFER_REGULAR then free_pixels (d_data d) st
      else if d_type d = LORIEBUFFER_FD then close_fd fd (munmap_at (d_data d) st)
      else if d_type d = LORIEBUFFER_AHARDWAREBUFFER then
        if api26 st then AHardwareBuffer_release (d_buffer d) st else st
      else st)"

definition allocate ::
    "i32 \<Rightarrow> i32 \<Rightarrow> i32 \<Rightarrow> byte \<Rightarrow> byte \<Rightarrow> addr \<Rightarrow> int \<Rightarrow> u64 \<Rightarrow> nat \<Rightarrow> bool \<Rightarrow> bstate \<Rightarrow> addr \<times> bstate" where
  "allocate w stride h fmt ty buf fd len off takeFd st =
     (let d = \<lparr>d_width = w, d_height = h, d_stride = stride, d_format = fmt, d_type = ty,
               d_id = buf_id st, d_buffer = buf, d_data = 0\<rparr>;
          st0 = st\<lparr>buf_id := buf_id st + 1\<rparr>
      in case (if takeFd then (fd, st0) else dup_fd fd st0) of (fd1, st1) \<Rightarrow>
        if ty \<noteq> LORIEBUFFER_AHARDWAREBUFFER \<and> \<not> acceptable fmt w h then (0, st1)
        else
          (case obtain_store d fd1 len off st1 of
             (None, st2) \<Rightarrow> (0, st2)
           | (Some d', st2) \<Rightarrow>
               (case os_call st2 of (ok, st3) \<Rightarrow>
                  if \<not> ok then (0, drop_store d' fd1 st3)
                  else
                    let b = fresh st3 in
                    (b, st3\<lparr>bufs := (bufs st3)(b \<mapsto>
                          \<lparr>refcount = 1, b_pad = 0, desc = d', locked = 0, lockedData = 0, b_fd = fd1,
                           b_size = len, b_offset = off, gltex = 0, image = 0, gpuCopyPending = 0\<rparr>),
                        links := xorg_list_init b (links st3), fresh := Suc b\<rparr>))))"

definition LorieBuffer_allocate :: "i32 \<Rightarrow> i32 \<Rightarrow> byte \<Rightarrow> byte \<Rightarrow> bstate \<Rightarrow> addr \<times> bstate" where
  "LorieBuffer_allocate w h fmt ty st =
     (if ty = LORIEBUFFER_FD then
        let len = alignToPage (area_bytes w h) st in
        (case LorieBuffer_createRegion len st of (fd, st1) \<Rightarrow>
           if fd < 0 then (0, st1) else allocate w w h fmt ty 0 fd len 0 True st1)
      else if ty = LORIEBUFFER_AHARDWAREBUFFER then
        (case (if api26 st then AHardwareBuffer_allocate w h (word_of_int (sint fmt)) st else (None, st)) of
           (None, st1) \<Rightarrow> allocate w w h fmt ty 0 (- 1) 0 0 True st1
         | (Some a, st1) \<Rightarrow> allocate w w h fmt ty a (- 1) 0 0 True st1)
      else allocate w w h fmt ty 0 (- 1) 0 0 True st)"

definition LorieBuffer_wrapFileDescriptor :: "i32 \<Rightarrow> i32 \<Rightarrow> i32 \<Rightarrow> byte \<Rightarrow> int \<Rightarrow> nat \<Rightarrow> bstate \<Rightarrow> addr \<times> bstate" where
  "LorieBuffer_wrapFileDescriptor w stride h fmt fd off st =
     allocate w stride h fmt LORIEBUFFER_FD 0 fd (area_bytes stride h) off False st"

definition LorieBuffer_wrapAHardwareBuffer :: "addr \<Rightarrow> bstate \<Rightarrow> addr \<times> bstate" where
  "LorieBuffer_wrapAHardwareBuffer a st =
     allocate 0 0 0 0 LORIEBUFFER_AHARDWAREBUFFER a (- 1) 0 0 False st"

section \<open>Conversion\<close>

definition upd_buf :: "addr \<Rightarrow> (LorieBuffer \<Rightarrow> LorieBuffer) \<Rightarrow> bstate \<Rightarrow> bstate" where
  "upd_buf b f st = st\<lparr>bufs := (bufs st)(b := map_option f (bufs st b))\<rparr>"

definition convert_fd :: "addr \<Rightarrow> LorieBuffer \<Rightarrow> byte \<Rightarrow> byte \<Rightarrow> bstate \<Rightarrow> bstate option" where
  "convert_fd b r ty fmt st =
     (let d = desc r; len = alignToPage (area_bytes (d_stride d) (d_height d)) st in
      case LorieBuffer_createRegion len st of (fd, st1) \<Rightarrow>
        if fd < 0 then Some st1
        else
          (case mmap_fd fd len 0 st1 of (a, st2) \<Rightarrow>
             if a = 0 then Some (close_fd fd st2)
             else
               (case pixman_blt (d_data d) a (d_stride d) (d_stride d) (d_width d) (d_height d) st2 of
                  None \<Rightarrow> None
                | Some st3 \<Rightarrow>
                    Some (upd_buf b (\<lambda>r. r\<lparr>desc := d\<lparr>d_type := ty, d_format := fmt, d_data := a\<rparr>, b_fd := fd,
                        b_size := len, b_offset := 0, lockedData := 0, locked := 0\<rparr>)
                      (free_pixels (d_data d) st3)))))"

definition convert_ahb :: "addr \<Rightarrow> LorieBuffer \<Rightarrow> byte \<Rightarrow> byte \<Rightarrow> bstate \<Rightarrow> bstate option" where
  "convert_ahb b r ty fmt st =
     (let d = desc r in
      case (if api26 st then AHardwareBuffer_allocate (d_width d) (d_height d) (word_of_int (sint fmt)) st else (None, st)) of
        (None, st1) \<Rightarrow> Some st1
      | (Some a, st1) \<Rightarrow>
          let stride = (case ahbs st1 a of Some h \<Rightarrow> ahb_stride h | None \<Rightarrow> 0) in
          (case (if lock_rc st1 a = 0
                 then pixman_blt (d_data d) a (d_stride d) stride (d_width d) (d_height d) st1
                 else Some st1) of
             None \<Rightarrow> None
           | Some st2 \<Rightarrow>
               Some (upd_buf b (\<lambda>r. r\<lparr>desc := d\<lparr>d_type := ty, d_format := fmt, d_stride := stride,
                   d_buffer := a, d_data := 0\<rparr>, lockedData := 0, locked := 0\<rparr>)
                 (free_pixels (d_data d) st2))))"

definition LorieBuffer_convert :: "addr \<Rightarrow> byte \<Rightarrow> byte \<Rightarrow> bstate \<Rightarrow> bstate option" where
  "LorieBuffer_convert b ty fmt st =
     (if b = 0 then Some st
      else
        (case bufs st b of
           None \<Rightarrow> None
         | Some r \<Rightarrow>
             if d_type (desc r) \<noteq> LORIEBUFFER_REGULAR \<or>
                (ty \<noteq> LORIEBUFFER_FD \<and> ty \<noteq> LORIEBUFFER_AHARDWAREBUFFER) \<or>
                (fmt \<noteq> AHARDWAREBUFFER_FORMAT_R8G8B8X8_UNORM \<and> fmt \<noteq> AHARDWAREBUFFER_FORMAT_B8G8R8A8_UNORM)
             then Some st
             else if ty = LORIEBUFFER_FD then convert_fd b r ty fmt st
             else convert_ahb b r ty fmt st))"

section \<open>References\<close>

text \<open>\<open>acquire\<close> adds to the first four bytes of the structure, the count and the padding;
  \<open>release\<close> subtracts from the count alone.\<close>

definition LorieBuffer_acquire :: "addr \<Rightarrow> bstate \<Rightarrow> bstate option" where
  "LorieBuffer_acquire b st =
     (if b = 0 then Some st
      else
        (case bufs st b of
           None \<Rightarrow> None
         | Some r \<Rightarrow>
             let word = (ucast (refcount r) + push_bit 16 (ucast (b_pad r)) + 1 :: u32) in
             Some (upd_buf b (\<lambda>r. r\<lparr>refcount := ucast word, b_pad := ucast (drop_bit 16 word)\<rparr>) st)))"

definition LorieBuffer_free :: "addr \<Rightarrow> bstate \<Rightarrow> bstate option" where
  "LorieBuffer_free b st =
     (if b = 0 then Some st
      else
        (case bufs st b of
           None \<Rightarrow> None
         | Some r \<Rightarrow>
             let st1 = st\<lparr>links := xorg_list_del b (links st)\<rparr>;
                 st2 = (if gl_context st1 then st1\<lparr>gl_log := gl_log st1 @ [GlDeleteTexture (gltex r)]\<rparr> else st1);
                 st3 = (if egl_display st2 \<and> image r \<noteq> 0 then st2\<lparr>gl_log := gl_log st2 @ [EglDestroyImage (image r)]\<rparr> else st2);
                 st4 = drop_store (desc r) (b_fd r) st3
             in Some (st4\<lparr>bufs := (bufs st4)(b := None)\<rparr>)))"

definition LorieBuffer_release :: "addr \<Rightarrow> bstate \<Rightarrow> bstate option" where
  "LorieBuffer_release b st =
     (if b = 0 then Some st
      else
        (case bufs st b of
           None \<Rightarrow> None
         | Some r \<Rightarrow>
             let st1 = upd_buf b (\<lambda>r. r\<lparr>refcount := refcount r - 1\<rparr>) st in
             if refcount r = 1 then LorieBuffer_free b st1 else Some st1))"

section \<open>Access\<close>

definition no_desc :: LorieBuffer_Desc where
  "no_desc = \<lparr>d_width = 0, d_height = 0, d_stride = 0, d_format = 0, d_type = 0, d_id = 0, d_buffer = 0, d_data = 0\<rparr>"

definition LorieBuffer_description :: "addr \<Rightarrow> bstate \<Rightarrow> LorieBuffer_Desc option" where
  "LorieBuffer_description b st = (if b = 0 then Some no_desc else map_option desc (bufs st b))"

definition LorieBuffer_isRgba :: "addr \<Rightarrow> bstate \<Rightarrow> bool option" where
  "LorieBuffer_isRgba b st =
     map_option (\<lambda>d. d_format d \<noteq> AHARDWAREBUFFER_FORMAT_B8G8R8A8_UNORM) (LorieBuffer_description b st)"

definition with_buf :: "addr \<Rightarrow> (LorieBuffer \<Rightarrow> LorieBuffer) \<Rightarrow> bstate \<Rightarrow> bstate option" where
  "with_buf b f st = (if b = 0 then Some st else map_option (\<lambda>_. upd_buf b f st) (bufs st b))"

definition LorieBuffer_gpuCopyPendingInc :: "addr \<Rightarrow> bstate \<Rightarrow> bstate option" where
  "LorieBuffer_gpuCopyPendingInc b = with_buf b (\<lambda>r. r\<lparr>gpuCopyPending := gpuCopyPending r + 1\<rparr>)"

definition LorieBuffer_gpuCopyPendingDec :: "addr \<Rightarrow> bstate \<Rightarrow> bstate option" where
  "LorieBuffer_gpuCopyPendingDec b = with_buf b (\<lambda>r. r\<lparr>gpuCopyPending := gpuCopyPending r - 1\<rparr>)"

definition LorieBuffer_hasGpuCopyPending :: "addr \<Rightarrow> bstate \<Rightarrow> bool option" where
  "LorieBuffer_hasGpuCopyPending b st =
     (if b = 0 then Some False else map_option (\<lambda>r. gpuCopyPending r \<noteq> 0) (bufs st b))"

definition ENOENT :: int where "ENOENT = 2"
definition EEXIST :: int where "EEXIST = 17"
definition ENODEV :: int where "ENODEV = 19"

definition LorieBuffer_lock :: "addr \<Rightarrow> bstate \<Rightarrow> (int \<times> addr option \<times> bstate) option" where
  "LorieBuffer_lock b st =
     (if b = 0 then Some (ENODEV, None, st)
      else
        (case bufs st b of
           None \<Rightarrow> None
         | Some r \<Rightarrow>
             if locked r \<noteq> 0 then Some (EEXIST, Some (lockedData r), st)
             else
               (case (if d_type (desc r) = LORIEBUFFER_REGULAR \<or> d_type (desc r) = LORIEBUFFER_FD
                      then (0, d_data (desc r))
                      else if d_type (desc r) = LORIEBUFFER_AHARDWAREBUFFER \<and> api26 st
                      then (lock_rc st (d_buffer (desc r)),
                            if lock_rc st (d_buffer (desc r)) = 0 then d_buffer (desc r) else lockedData r)
                      else (0, lockedData r)) of
                  (ret, a) \<Rightarrow> Some (ret, Some a, upd_buf b (\<lambda>r. r\<lparr>lockedData := a, locked := 1\<rparr>) st))))"

definition LorieBuffer_unlock :: "(addr \<Rightarrow> int) \<Rightarrow> addr \<Rightarrow> bstate \<Rightarrow> (int \<times> bstate) option" where
  "LorieBuffer_unlock unlock_rc b st =
     (if b = 0 then Some (ENODEV, st)
      else
        (case bufs st b of
           None \<Rightarrow> None
         | Some r \<Rightarrow>
             if locked r = 0 then Some (ENOENT, st)
             else
               Some (if d_type (desc r) = LORIEBUFFER_AHARDWAREBUFFER \<and> api26 st
                     then unlock_rc (d_buffer (desc r)) else 0,
                     upd_buf b (\<lambda>r. r\<lparr>lockedData := 0, locked := 0\<rparr>) st)))"

section \<open>Passing buffers to another process\<close>

text \<open>The structure is written as it is in memory; the descriptor or the hardware buffer follows
  as a handle of the shared object.\<close>

definition LorieBuffer_sendHandleToUnixSocket :: "addr \<Rightarrow> int \<Rightarrow> bstate \<Rightarrow> sockitem list option" where
  "LorieBuffer_sendHandleToUnixSocket b sock st =
     (if sock < 0 \<or> b = 0 then Some []
      else
        (case bufs st b of
           None \<Rightarrow> None
         | Some r \<Rightarrow>
             Some (SockStruct r #
               (if d_type (desc r) = LORIEBUFFER_FD then
                  (case fds st (b_fd r) of Some rg \<Rightarrow> [SockFd rg] | None \<Rightarrow> [])
                else if d_type (desc r) = LORIEBUFFER_AHARDWAREBUFFER \<and> api26 st then
                  (case ahbs st (d_buffer (desc r)) of Some h \<Rightarrow> [SockAhb h] | None \<Rightarrow> [])
                else []))))"

definition ancil_recv_fd :: "sockitem list \<Rightarrow> bstate \<Rightarrow> int \<times> sockitem list \<times> bstate" where
  "ancil_recv_fd sock st =
     (case sock of
        SockFd rg # rest \<Rightarrow>
          (int (fresh st), rest, st\<lparr>fds := (fds st)(int (fresh st) \<mapsto> rg), fresh := Suc (fresh st)\<rparr>)
      | _ \<Rightarrow> (- 1, sock, st))"

definition recv_ahb :: "sockitem list \<Rightarrow> addr \<Rightarrow> bstate \<Rightarrow> addr \<times> sockitem list \<times> bstate" where
  "recv_ahb sock old st =
     (case sock of
        SockAhb h # rest \<Rightarrow>
          (fresh st, rest, st\<lparr>ahbs := (ahbs st)(fresh st \<mapsto> h\<lparr>ahb_refs := 1\<rparr>), fresh := Suc (fresh st)\<rparr>)
      | _ \<Rightarrow> (old, sock, st))"

text \<open>The result is what is stored through \<open>outBuffer\<close>, if anything is, with the rest of the
  stream and the state.\<close>

definition recv_struct :: "sockitem list \<Rightarrow> LorieBuffer \<times> sockitem list" where
  "recv_struct sock =
     (let init = \<lparr>refcount = 1, b_pad = 0, desc = no_desc, locked = 0, lockedData = 0, b_fd = - 1,
         b_size = 0, b_offset = 0, gltex = 0, image = 0, gpuCopyPending = 0\<rparr> in
      case sock of SockStruct r # rest \<Rightarrow> (r\<lparr>image := 0\<rparr>, rest) | _ \<Rightarrow> (init, sock))"

definition recv_keep :: "bool \<Rightarrow> LorieBuffer \<Rightarrow> sockitem list \<Rightarrow> bstate \<Rightarrow> addr option \<times> sockitem list \<times> bstate" where
  "recv_keep out r sock st =
     (case (if out then os_call st else (False, st)) of (ok, st1) \<Rightarrow>
        if \<not> ok then
          (None, sock,
           (let st2 = (if 0 \<le> b_fd r then close_fd (b_fd r) st1 else st1) in
            if d_buffer (desc r) \<noteq> 0 \<and> api26 st2 then AHardwareBuffer_release (d_buffer (desc r)) st2 else st2))
        else
          (Some (fresh st1), sock, st1\<lparr>bufs := (bufs st1)(fresh st1 \<mapsto> r),
              links := xorg_list_init (fresh st1) (links st1), fresh := Suc (fresh st1)\<rparr>))"

definition LorieBuffer_recvHandleFromUnixSocket ::
    "int \<Rightarrow> sockitem list \<Rightarrow> bool \<Rightarrow> bstate \<Rightarrow> addr option \<times> sockitem list \<times> bstate" where
  "LorieBuffer_recvHandleFromUnixSocket sockfd sock out st =
     (if sockfd < 0 then (None, sock, st)
      else
        (case recv_struct sock of (r, sock1) \<Rightarrow>
           if d_type (desc r) = LORIEBUFFER_FD then
             (case ancil_recv_fd sock1 st of (fd, sock2, st1) \<Rightarrow>
                if fd = - 1 then (if out then Some 0 else None, sock2, st1)
                else
                  (case mmap_fd fd (area_bytes (d_stride (desc r)) (d_height (desc r))) 0 st1 of (a, st2) \<Rightarrow>
                     if a = 0 then (if out then Some 0 else None, sock2, close_fd fd st2)
                     else recv_keep out (r\<lparr>b_fd := fd, desc := (desc r)\<lparr>d_data := a\<rparr>\<rparr>) sock2 st2))
           else if d_type (desc r) = LORIEBUFFER_AHARDWAREBUFFER \<and> api26 st then
             (case recv_ahb sock1 (d_buffer (desc r)) st of (a, sock2, st1) \<Rightarrow>
                recv_keep out (r\<lparr>desc := (desc r)\<lparr>d_buffer := a\<rparr>\<rparr>) sock2 st1)
           else recv_keep out r sock1 st))"

section \<open>OpenGL\<close>

definition gl_do :: "glcall list \<Rightarrow> bstate \<Rightarrow> bstate" where
  "gl_do cs st = st\<lparr>gl_log := gl_log st @ cs\<rparr>"

definition LorieBuffer_attachToGL :: "addr \<Rightarrow> bool \<Rightarrow> addr \<Rightarrow> u32 \<Rightarrow> bstate \<Rightarrow> bstate option" where
  "LorieBuffer_attachToGL b has_native new_image tex st =
     (if \<not> egl_display st \<or> b = 0 then Some st
      else
        (case bufs st b of
           None \<Rightarrow> None
         | Some r \<Rightarrow>
             let d = desc r;
                 im = (if image r = 0 \<and> d_buffer d \<noteq> 0 \<and> has_native then new_image else image r);
                 st1 = upd_buf b (\<lambda>r. r\<lparr>image := im, gltex := tex\<rparr>) st
             in Some (gl_do (GlBindTexture tex #
                  (if im \<noteq> 0 then [GlImageTarget im]
                   else if d_data d \<noteq> 0 \<and> 0 <s d_width d \<and> 0 <s d_height d
                   then [GlTexImage (d_stride d) (d_height d) (d_format d = AHARDWAREBUFFER_FORMAT_B8G8R8A8_UNORM)]
                   else [])) st1)))"

definition LorieBuffer_bindTexture :: "addr \<Rightarrow> bstate \<Rightarrow> bstate option" where
  "LorieBuffer_bindTexture b st =
     (if b = 0 then Some st
      else
        (case bufs st b of
           None \<Rightarrow> None
         | Some r \<Rightarrow>
             Some (gl_do (GlBindTexture (gltex r) #
               (if d_type (desc r) = LORIEBUFFER_FD
                then [GlTexSubImage (d_stride (desc r)) (d_height (desc r))
                        (d_format (desc r) = AHARDWAREBUFFER_FORMAT_B8G8R8A8_UNORM) (d_data (desc r))]
                else [])) st)))"

definition LorieBuffer_getGLTextureId :: "addr \<Rightarrow> bstate \<Rightarrow> u32 option" where
  "LorieBuffer_getGLTextureId b st = (if b = 0 then Some 0 else map_option gltex (bufs st b))"

section \<open>Lists of buffers\<close>

definition LorieBuffer_addToList :: "addr \<Rightarrow> addr \<Rightarrow> bstate \<Rightarrow> bstate" where
  "LorieBuffer_addToList b l st =
     (if b \<noteq> 0 \<and> l \<noteq> 0 then st\<lparr>links := xorg_list_add b l (xorg_list_del b (links st))\<rparr> else st)"

definition LorieBuffer_removeFromList :: "addr \<Rightarrow> bstate \<Rightarrow> bstate" where
  "LorieBuffer_removeFromList b st = (if b \<noteq> 0 then st\<lparr>links := xorg_list_del b (links st)\<rparr> else st)"

definition LorieBufferList_first :: "addr \<Rightarrow> bstate \<Rightarrow> addr" where
  "LorieBufferList_first l st =
     (if xorg_list_is_empty l (links st) then 0 else xorg_list_first_entry l (links st))"

fun findById_loop :: "nat \<Rightarrow> bstate \<Rightarrow> addr \<Rightarrow> u64 \<Rightarrow> addr \<Rightarrow> addr option" where
  "findById_loop 0 st l i pos = None"
| "findById_loop (Suc n) st l i pos =
     (if pos = l then Some 0
      else
        (case bufs st pos of
           None \<Rightarrow> None
         | Some r \<Rightarrow> if d_id (desc r) = i then Some pos else findById_loop n st l i (nxt (links st) pos)))"

definition LorieBufferList_findById :: "nat \<Rightarrow> addr \<Rightarrow> u64 \<Rightarrow> bstate \<Rightarrow> addr option" where
  "LorieBufferList_findById fuel l i st = findById_loop fuel st l i (nxt (links st) l)"

section \<open>What a buffer owns\<close>

text \<open>The resources of the process besides the structures themselves, and the fact that numbers
  from \<open>fresh\<close> on, the null pointer and negative descriptors are not in use.\<close>

definition res :: "bstate \<Rightarrow> (addr \<rightharpoonup> u32 list) \<times> (addr \<rightharpoonup> mapping) \<times> (int \<rightharpoonup> nat) \<times> (addr \<rightharpoonup> ahb)" where
  "res st = (blocks st, mmaps st, fds st, ahbs st)"

definition unused :: "addr \<Rightarrow> bstate \<Rightarrow> bool" where
  "unused a st \<longleftrightarrow> blocks st a = None \<and> mmaps st a = None \<and> ahbs st a = None \<and> bufs st a = None"

definition bst_inv :: "bstate \<Rightarrow> bool" where
  "bst_inv st \<longleftrightarrow> 0 < fresh st \<and> unused 0 st \<and>
     (\<forall>a. fresh st \<le> a \<longrightarrow> unused a st \<and> fds st (int a) = None) \<and> (\<forall>fd < 0. fds st fd = None)"

lemma bst_inv_fresh:
  assumes "bst_inv st" and "fresh st \<le> a"
  shows "blocks st a = None" "mmaps st a = None" "ahbs st a = None" "bufs st a = None"
    "fds st (int a) = None" "0 < a"
  using assms by (auto simp: bst_inv_def unused_def)

lemma bst_inv_null:
  assumes "bst_inv st"
  shows "0 < fresh st" "ahbs st 0 = None" "bufs st 0 = None" "fd < 0 \<Longrightarrow> fds st fd = None"
  using assms by (auto simp: bst_inv_def unused_def)

lemma os_callE:
  assumes "os_call st = (ok, st')"
  obtains c where "st' = st\<lparr>calls := c\<rparr>"
proof -
  have "st' = st\<lparr>calls := calls st'\<rparr>"
    using assms by (auto simp: os_call_def split: list.splits)
  then show thesis by (rule that)
qed

lemma os_call_inv: "os_call st = (ok, st') \<Longrightarrow> bst_inv st' = bst_inv st"
  by (erule os_callE) (simp add: bst_inv_def unused_def)

lemma createRegion_fd:
  assumes "LorieBuffer_createRegion len st = (fd, st')" and "bst_inv st"
  shows "if fd < 0 then res st' = res st \<and> bufs st' = bufs st
         else fd = int (fresh st) \<and> st' = st\<lparr>calls := calls st', regions := regions st',
           fresh := Suc (fresh st), fds := (fds st)(int (fresh st) \<mapsto> fresh st)\<rparr>"
proof -
  have call: "\<exists>ok c. os_call s = (ok, s\<lparr>calls := c\<rparr>)" for s
    by (cases "os_call s") (metis os_callE)
  obtain ok1 c1 where 1: "(if api26 st then os_call st else (False, st)) = (ok1, st\<lparr>calls := c1\<rparr>)"
  proof (cases "api26 st")
    case True
    with call [of st] that show thesis by auto
  next
    case False
    with that [of False "calls st"] show thesis by simp
  qed
  obtain ok2 c2 where 2: "os_call (st\<lparr>calls := c1\<rparr>) = (ok2, st\<lparr>calls := c2\<rparr>)"
    using call [of "st\<lparr>calls := c1\<rparr>"] by auto
  obtain ok3 c3 where 3: "os_call (st\<lparr>calls := c2\<rparr>) = (ok3, st\<lparr>calls := c3\<rparr>)"
    using call [of "st\<lparr>calls := c2\<rparr>"] by auto
  obtain s4 where 4: "s4 = snd (open_region (unat len) (st\<lparr>calls := c3\<rparr>))" by simp
  obtain ok5 c5 where 5: "os_call s4 = (ok5, s4\<lparr>calls := c5\<rparr>)" using call by blast
  obtain ok6 c6 where 6: "os_call (s4\<lparr>calls := c5\<rparr>) = (ok6, s4\<lparr>calls := c6\<rparr>)"
    using call [of "s4\<lparr>calls := c5\<rparr>"] by auto
  note idle = bst_inv_fresh(5) [OF assms(2) order_refl]
  have "fd = - 1 \<and> res st' = res st \<and> bufs st' = bufs st \<or>
     fd = int (fresh st) \<and> st' = st\<lparr>calls := calls st', regions := regions st',
           fresh := Suc (fresh st), fds := (fds st)(int (fresh st) \<mapsto> fresh st)\<rparr>"
    using assms(1) 5 6 idle unfolding LorieBuffer_createRegion_def 1 4
    by (auto simp: 2 3 open_region_def close_fd_def res_def fun_upd_idem split: if_splits intro!: bstate.equality)
  then show ?thesis by auto
qed

text \<open>\<open>allocate\<close> takes over what it is given: whether it fails or its buffer is released later, the
  descriptor or the hardware buffer is gone afterwards and nothing else has changed.\<close>

definition drop_input :: "byte \<Rightarrow> addr \<Rightarrow> int \<Rightarrow> bstate \<Rightarrow> bstate" where
  "drop_input ty buf fd st =
     (if ty = LORIEBUFFER_FD then close_fd fd st
      else if ty = LORIEBUFFER_AHARDWAREBUFFER \<and> api26 st then AHardwareBuffer_release buf st
      else st)"

lemma drop_input_cong:
  assumes "res s = res t" and "api26 s = api26 t"
  shows "res (drop_input ty buf fd s) = res (drop_input ty buf fd t)"
  using assms
  by (auto simp: res_def drop_input_def close_fd_def AHardwareBuffer_release_def split: option.splits)

lemma obtain_store_spec:
  assumes "obtain_store d fd len off st = (r, st')" and "bst_inv st"
  shows "case r of
      None \<Rightarrow> res st' = res (drop_input (d_type d) (d_buffer d) fd st)
    | Some d' \<Rightarrow> d_type d' = d_type d \<and> d_buffer d' = d_buffer d \<and>
        res (drop_store d' fd st') = res (drop_input (d_type d) (d_buffer d) fd st)"
    and "bufs st' = bufs st" and "fresh st \<le> fresh st'" and "api26 st' = api26 st" and "bst_inv st'"
proof -
  obtain ok c where 1: "os_call st = (ok, st\<lparr>calls := c\<rparr>)"
    by (cases "os_call st") (metis os_callE)
  note idle = bst_inv_fresh [OF assms(2) order_refl]
  note null = bst_inv_null [OF assms(2)]
  show "case r of
      None \<Rightarrow> res st' = res (drop_input (d_type d) (d_buffer d) fd st)
    | Some d' \<Rightarrow> d_type d' = d_type d \<and> d_buffer d' = d_buffer d \<and>
        res (drop_store d' fd st') = res (drop_input (d_type d) (d_buffer d) fd st)"
    using assms(1) idle null
    by (auto simp: obtain_store_def calloc_pixels_def mmap_fd_def 1 drop_input_def drop_store_def res_def
        buffer_consts free_pixels_def close_fd_def munmap_at_def AHardwareBuffer_release_def fun_upd_idem
        split: if_splits option.splits)
  show "bufs st' = bufs st" "fresh st \<le> fresh st'" "api26 st' = api26 st"
    using assms(1)
    by (auto simp: obtain_store_def calloc_pixels_def mmap_fd_def 1 close_fd_def
        split: if_splits option.splits)
  show "bst_inv st'"
    using assms
    by (auto simp: obtain_store_def calloc_pixels_def mmap_fd_def 1 close_fd_def bst_inv_def unused_def
        split: if_splits option.splits)
qed

lemma drop_store_cong:
  assumes "res s = res t" and "api26 s = api26 t"
  shows "res (drop_store d fd s) = res (drop_store d fd t)"
  using assms
  by (auto simp: res_def drop_store_def free_pixels_def close_fd_def munmap_at_def
      AHardwareBuffer_release_def split: option.splits)

lemma drop_store_bufs [simp]: "bufs (drop_store d fd s) = bufs s"
  by (auto simp: drop_store_def free_pixels_def close_fd_def munmap_at_def AHardwareBuffer_release_def
      split: option.splits)

lemma free_last:
  assumes "bufs st b = Some r" and "b \<noteq> 0"
  obtains st' where "LorieBuffer_free b st = Some st'" and "bufs st' = (bufs st)(b := None)"
    and "res st' = res (drop_store (desc r) (b_fd r) st)"
proof -
  let ?st3 = "st\<lparr>links := xorg_list_del b (links st), gl_log := gl_log st @
     (if gl_context st then [GlDeleteTexture (gltex r)] else []) @
     (if egl_display st \<and> image r \<noteq> 0 then [EglDestroyImage (image r)] else [])\<rparr>"
  have f: "LorieBuffer_free b st =
      Some (drop_store (desc r) (b_fd r) ?st3\<lparr>bufs := (bufs st)(b := None)\<rparr>)"
    using assms by (simp add: LorieBuffer_free_def Let_def)
  have "res (drop_store (desc r) (b_fd r) ?st3) = res (drop_store (desc r) (b_fd r) st)"
    by (rule drop_store_cong) (simp_all add: res_def)
  then show thesis by (intro that [OF f]) (simp_all add: res_def)
qed

lemma release_last:
  assumes "bufs st b = Some r" and "b \<noteq> 0" and "refcount r = 1"
  obtains st' where "LorieBuffer_release b st = Some st'" and "bufs st' = (bufs st)(b := None)"
    and "res st' = res (drop_store (desc r) (b_fd r) st)"
proof -
  let ?st1 = "upd_buf b (\<lambda>r. r\<lparr>refcount := refcount r - 1\<rparr>) st"
  obtain st' where f: "LorieBuffer_free b ?st1 = Some st'" "bufs st' = (bufs ?st1)(b := None)"
    "res st' = res (drop_store (desc r) (b_fd r) ?st1)"
    using free_last [of ?st1 b "r\<lparr>refcount := refcount r - 1\<rparr>"] assms by (auto simp: upd_buf_def)
  have "res (drop_store (desc r) (b_fd r) ?st1) = res (drop_store (desc r) (b_fd r) st)"
    by (rule drop_store_cong) (simp_all add: res_def upd_buf_def)
  with f assms that [of st'] show thesis by (simp add: LorieBuffer_release_def upd_buf_def)
qed

definition released_like :: "addr \<Rightarrow> bstate \<Rightarrow> bstate \<Rightarrow> bool" where
  "released_like b st' st \<longleftrightarrow>
     (if b = 0 then res st' = res st \<and> bufs st' = bufs st
      else bufs st b = None \<and> (\<exists>r. bufs st' b = Some r \<and> refcount r = 1) \<and>
        (\<exists>st''. LorieBuffer_release b st' = Some st'' \<and> res st'' = res st \<and> bufs st'' = bufs st))"

lemma allocate_spec:
  assumes "allocate w stride h fmt ty buf fd len off True st = (b, st')" and inv: "bst_inv st"
    and ok: "ty \<noteq> LORIEBUFFER_AHARDWAREBUFFER \<longrightarrow> acceptable fmt w h"
  shows "released_like b st' (drop_input ty buf fd st)"
proof -
  let ?d = "\<lparr>d_width = w, d_height = h, d_stride = stride, d_format = fmt, d_type = ty,
               d_id = buf_id st, d_buffer = buf, d_data = 0\<rparr>"
  let ?st0 = "st\<lparr>buf_id := buf_id st + 1\<rparr>"
  have inv0: "bst_inv ?st0" using inv by (simp add: bst_inv_def unused_def)
  have in0: "res (drop_input ty buf fd ?st0) = res (drop_input ty buf fd st)"
    by (rule drop_input_cong) (simp_all add: res_def)
  have inb: "bufs (drop_input ty buf fd st) = bufs st"
    by (auto simp: drop_input_def close_fd_def AHardwareBuffer_release_def split: option.splits)
  obtain rd2 st2 where os: "obtain_store ?d fd len off ?st0 = (rd2, st2)" by (cases "obtain_store ?d fd len off ?st0")
  note sp = obtain_store_spec [OF os inv0]
  show ?thesis
  proof (cases rd2)
    case None
    with assms(1) ok os have "b = 0" "st' = st2" by (auto simp: allocate_def Let_def)
    with sp(1,2) None in0 inb show ?thesis by (simp add: released_like_def)
  next
    case (Some d')
    obtain okc c where call: "os_call st2 = (okc, st2\<lparr>calls := c\<rparr>)" by (cases "os_call st2") (metis os_callE)
    have dr: "res (drop_store d' fd s) = res (drop_input ty buf fd st)" if "res s = res st2" "api26 s = api26 st2" for s
      using drop_store_cong [OF that] sp(1) Some in0 by simp
    show ?thesis
    proof (cases okc)
      case False
      with assms(1) ok os Some call have "b = 0" "st' = drop_store d' fd (st2\<lparr>calls := c\<rparr>)"
        by (auto simp: allocate_def Let_def)
      then show ?thesis using dr [of "st2\<lparr>calls := c\<rparr>"] sp(2) inb by (simp add: released_like_def res_def)
    next
      case True
      let ?r = "\<lparr>refcount = 1, b_pad = 0, desc = d', locked = 0, lockedData = 0, b_fd = fd,
                           b_size = len, b_offset = off, gltex = 0, image = 0, gpuCopyPending = 0\<rparr>"
      from True assms(1) ok os Some call have b: "b = fresh st2"
        "st' = st2\<lparr>calls := c, bufs := (bufs st2)(b \<mapsto> ?r), links := xorg_list_init b (links st2), fresh := Suc b\<rparr>"
        by (auto simp: allocate_def Let_def)
      have new: "b \<noteq> 0" "bufs st2 b = None" using bst_inv_fresh [OF sp(5), of b] b(1) by auto
      have rb: "bufs st' b = Some ?r" "refcount ?r = 1" using b(2) by simp_all
      obtain st'' where "LorieBuffer_release b st' = Some st''" "bufs st'' = (bufs st')(b := None)"
        "res st'' = res (drop_store (desc ?r) (b_fd ?r) st')"
        by (rule release_last [OF rb(1) new(1) rb(2)])
      moreover have "(bufs st')(b := None) = bufs st"
        using b(2) new(2) sp(2) by (auto simp: fun_upd_idem)
      moreover have "res (drop_store (desc ?r) (b_fd ?r) st') = res (drop_input ty buf fd st)"
        using dr [of st'] b(2) by (simp add: res_def)
      ultimately show ?thesis using new rb sp(2) inb by (auto simp: released_like_def)
    qed
  qed
qed

section \<open>Allocation is balanced\<close>

lemma drop_input_region:
  assumes "LorieBuffer_createRegion len st = (fd, st1)" and "bst_inv st" and "0 \<le> fd"
  shows "res (drop_input LORIEBUFFER_FD a fd st1) = res st" and "bufs st1 = bufs st" and "bst_inv st1"
proof -
  have "fd = int (fresh st) \<and> st1 = st\<lparr>calls := calls st1, regions := regions st1,
      fresh := Suc (fresh st), fds := (fds st)(int (fresh st) \<mapsto> fresh st)\<rparr>"
    using createRegion_fd [OF assms(1,2)] assms(3) by (simp split: if_splits)
  then obtain c rg where st1: "fd = int (fresh st)" "st1 = st\<lparr>calls := c, regions := rg,
      fresh := Suc (fresh st), fds := (fds st)(int (fresh st) \<mapsto> fresh st)\<rparr>" by blast
  show "res (drop_input LORIEBUFFER_FD a fd st1) = res st" "bufs st1 = bufs st" "bst_inv st1"
    unfolding st1 using assms(2)
    by (auto simp: drop_input_def close_fd_def res_def bst_inv_def unused_def intro!: fun_upd_idem)
qed

lemma released_like_cong:
  "released_like b st' s \<Longrightarrow> res s = res t \<Longrightarrow> bufs s = bufs t \<Longrightarrow> released_like b st' t"
  by (simp add: released_like_def split: if_splits)

lemma drop_input_bufs [simp]: "bufs (drop_input ty buf fd st) = bufs st"
  by (auto simp: drop_input_def close_fd_def AHardwareBuffer_release_def split: option.splits)

lemma drop_input_ahb:
  assumes "AHardwareBuffer_allocate w h f st = (a, st1)" and "bst_inv st" and "api26 st"
  shows "res (drop_input LORIEBUFFER_AHARDWAREBUFFER (case a of None \<Rightarrow> 0 | Some a \<Rightarrow> a) fd st1) = res st"
    and "bufs st1 = bufs st" and "bst_inv st1"
proof -
  obtain ok c where 1: "os_call st = (ok, st\<lparr>calls := c\<rparr>)"
    by (cases "os_call st") (metis os_callE)
  show "res (drop_input LORIEBUFFER_AHARDWAREBUFFER (case a of None \<Rightarrow> 0 | Some a \<Rightarrow> a) fd st1) = res st"
    "bufs st1 = bufs st" "bst_inv st1"
    using assms
    by (auto simp: AHardwareBuffer_allocate_def 1 drop_input_def buffer_consts res_def bst_inv_def
        unused_def AHardwareBuffer_release_def fun_upd_idem split: if_splits)
qed

text \<open>C27: Allocating a buffer is balanced. When it fails, the process owns what it owned before;
  when it succeeds, the buffer is new, counts one reference, and releasing that reference gives
  back everything and removes the structure. The one exception, excluded here, is a shared
  memory buffer of unacceptable format or size.\<close>

theorem LorieBuffer_allocate_balanced:
  assumes "LorieBuffer_allocate w h fmt ty st = (b, st')" and "bst_inv st"
    and "ty = LORIEBUFFER_FD \<longrightarrow> acceptable fmt w h"
  shows "released_like b st' st"
proof (cases "ty = LORIEBUFFER_AHARDWAREBUFFER \<or> acceptable fmt w h")
  case False
  then have "b = 0" "st' = st\<lparr>buf_id := buf_id st + 1\<rparr>"
    using assms(1,3) by (auto simp: LorieBuffer_allocate_def allocate_def Let_def)
  then show ?thesis by (simp add: released_like_def res_def)
next
  case True
  consider (fd) "ty = LORIEBUFFER_FD" | (ahb) "ty = LORIEBUFFER_AHARDWAREBUFFER"
    | (other) "ty \<noteq> LORIEBUFFER_FD" "ty \<noteq> LORIEBUFFER_AHARDWAREBUFFER" by blast
  then show ?thesis
  proof cases
    case fd
    obtain f st1 where r: "LorieBuffer_createRegion (alignToPage (area_bytes w h) st) st = (f, st1)"
      by (cases "LorieBuffer_createRegion (alignToPage (area_bytes w h) st) st")
    show ?thesis
    proof (cases "f < 0")
      case True
      with r fd assms(1) have "b = 0" "st' = st1" by (auto simp: LorieBuffer_allocate_def Let_def)
      with True createRegion_fd [OF r assms(2)] show ?thesis by (simp add: released_like_def)
    next
      case False
      with r fd assms(1) have a: "allocate w w h fmt LORIEBUFFER_FD 0 f (alignToPage (area_bytes w h) st) 0 True st1 = (b, st')"
        by (simp add: LorieBuffer_allocate_def Let_def)
      note d = drop_input_region [OF r assms(2)]
      have "released_like b st' (drop_input LORIEBUFFER_FD 0 f st1)"
        using allocate_spec [OF a] d(3) False fd assms(3) by simp
      then show ?thesis by (rule released_like_cong) (use d False in simp_all)
    qed
  next
    case ahb
    obtain a st1 where r: "(if api26 st then AHardwareBuffer_allocate w h (word_of_int (sint fmt)) st else (None, st)) = (a, st1)"
      by (metis surj_pair)
    let ?a = "case a of None \<Rightarrow> 0 | Some a \<Rightarrow> a"
    have al: "allocate w w h fmt LORIEBUFFER_AHARDWAREBUFFER ?a (- 1) 0 0 True st1 = (b, st')"
      using assms(1) ahb r by (auto simp: LorieBuffer_allocate_def buffer_consts split: option.splits)
    have d: "res (drop_input LORIEBUFFER_AHARDWAREBUFFER ?a (- 1) st1) = res st" "bufs st1 = bufs st" "bst_inv st1"
      using drop_input_ahb [of w h _ st a st1] r assms(2)
      by (auto simp: drop_input_def buffer_consts split: if_splits)
    have "released_like b st' (drop_input LORIEBUFFER_AHARDWAREBUFFER ?a (- 1) st1)"
      by (rule allocate_spec [OF al d(3)]) simp
    then show ?thesis by (rule released_like_cong) (use d in simp_all)
  next
    case other
    have "released_like b st' (drop_input ty 0 (- 1) st)"
      by (rule allocate_spec [OF _ assms(2)])
         (use assms(1) other True in \<open>auto simp: LorieBuffer_allocate_def\<close>)
    then show ?thesis using other by (simp add: drop_input_def)
  qed
qed

definition bst0 :: bstate where
  "bst0 = \<lparr>bufs = Map.empty, links = \<lparr>nxt = id, prv = id\<rparr>, blocks = Map.empty, mmaps = Map.empty,
     fds = Map.empty, regions = (\<lambda>_. []), ahbs = Map.empty, buf_id = 0, fresh = 1, calls = [],
     page_size = 4096, api26 = True, lock_rc = (\<lambda>_. 0), gralloc_stride = (\<lambda>w. w),
     blt_works = True, gl_context = False, egl_display = False, gl_log = []\<rparr>"

lemma bst0_inv: "bst_inv bst0"
  by (simp add: bst_inv_def unused_def bst0_def)

lemma acceptable_2: "acceptable 2 2 2"
  by (simp add: acceptable_def buffer_consts word_sless_alt)

theorem LorieBuffer_allocate_balanced_witness:
  "fst (LorieBuffer_allocate 2 2 2 LORIEBUFFER_FD bst0) \<noteq> 0 \<and>
   released_like (fst (LorieBuffer_allocate 2 2 2 LORIEBUFFER_FD bst0))
     (snd (LorieBuffer_allocate 2 2 2 LORIEBUFFER_FD bst0)) bst0"
proof
  show "fst (LorieBuffer_allocate 2 2 2 LORIEBUFFER_FD bst0) \<noteq> 0"
    by (simp add: LorieBuffer_allocate_def LorieBuffer_createRegion_def open_region_def allocate_def os_call_def
        obtain_store_def mmap_fd_def acceptable_2 buffer_consts bst0_def Let_def)
  show "released_like (fst (LorieBuffer_allocate 2 2 2 LORIEBUFFER_FD bst0))
     (snd (LorieBuffer_allocate 2 2 2 LORIEBUFFER_FD bst0)) bst0"
    by (rule LorieBuffer_allocate_balanced [OF prod.collapse [symmetric] bst0_inv])
       (simp add: acceptable_2)
qed

text \<open>A shared memory buffer of an unacceptable format or size is refused, but its descriptor
  stays open with no buffer to own it.\<close>

theorem LorieBuffer_allocate_leak:
  assumes "bst_inv st" and "calls st = []" and "\<not> acceptable fmt w h"
    and "LorieBuffer_allocate w h fmt LORIEBUFFER_FD st = (b, st')"
  shows "b = 0 \<and> bufs st' = bufs st \<and> fds st (int (fresh st)) = None \<and>
    fds st' = (fds st)(int (fresh st) \<mapsto> fresh st)"
  using assms bst_inv_fresh(5) [OF assms(1) order_refl]
  by (auto simp: LorieBuffer_allocate_def LorieBuffer_createRegion_def open_region_def allocate_def
      os_call_def buffer_consts Let_def split: if_splits)

theorem LorieBuffer_allocate_leak_witness:
  "fst (LorieBuffer_allocate 2 0 2 LORIEBUFFER_FD bst0) = 0 \<and>
   fds (snd (LorieBuffer_allocate 2 0 2 LORIEBUFFER_FD bst0)) = [1 \<mapsto> 1]"
  using LorieBuffer_allocate_leak [OF bst0_inv _ _ prod.collapse [symmetric], of 2 2 0]
  by (simp add: bst0_def acceptable_def word_sless_alt)

section \<open>Wrapping a descriptor\<close>

lemma dup_fd_spec:
  assumes "dup_fd fd st = (fd', st')" and "bst_inv st"
  shows "res (drop_input LORIEBUFFER_FD a fd' st') = res st" and "bufs st' = bufs st" and "bst_inv st'"
    and "buf_id st' = buf_id st"
proof -
  obtain ok c where 1: "os_call st = (ok, st\<lparr>calls := c\<rparr>)"
    by (cases "os_call st") (metis os_callE)
  show "res (drop_input LORIEBUFFER_FD a fd' st') = res st" "bufs st' = bufs st" "bst_inv st'"
    "buf_id st' = buf_id st"
    using assms
    by (auto simp: dup_fd_def 1 drop_input_def close_fd_def res_def bst_inv_def unused_def fun_upd_idem
        split: option.splits if_splits)
qed

lemma allocate_dup:
  "allocate w s h fmt ty buf fd len off False st =
     (case dup_fd fd st of (fd', st') \<Rightarrow> allocate w s h fmt ty buf fd' len off True st')"
proof -
  obtain ok c where call: "os_call st = (ok, st\<lparr>calls := c\<rparr>)"
    by (cases "os_call st") (metis os_callE)
  have "os_call (st\<lparr>buf_id := i\<rparr>) = (ok, st\<lparr>calls := c, buf_id := i\<rparr>)" for i
    using call by (cases st) (simp add: os_call_def split: list.splits)
  with call have "dup_fd fd (st\<lparr>buf_id := i\<rparr>) = (case dup_fd fd st of (fd', st') \<Rightarrow> (fd', st'\<lparr>buf_id := i\<rparr>))" for i
    by (cases st) (simp add: dup_fd_def split: option.split)
  moreover have "buf_id (snd (dup_fd fd st)) = buf_id st"
    using call by (simp add: dup_fd_def split: option.split)
  ultimately show ?thesis by (cases "dup_fd fd st") (simp add: allocate_def Let_def)
qed

text \<open>Wrapping a descriptor does not take it over: the buffer works on a duplicate, and once it
  is released, or when wrapping fails, the caller's descriptor is open as before.\<close>

theorem LorieBuffer_wrapFileDescriptor_keeps:
  assumes "LorieBuffer_wrapFileDescriptor w stride h fmt fd off st = (b, st')" and "bst_inv st"
    and "acceptable fmt w h"
  shows "released_like b st' st"
proof -
  obtain fd' st1 where d: "dup_fd fd st = (fd', st1)" by (cases "dup_fd fd st")
  note sp = dup_fd_spec [OF d assms(2)]
  have "allocate w stride h fmt LORIEBUFFER_FD 0 fd' (area_bytes stride h) off True st1 = (b, st')"
    using assms(1) by (simp add: LorieBuffer_wrapFileDescriptor_def allocate_dup d)
  then have "released_like b st' (drop_input LORIEBUFFER_FD 0 fd' st1)"
    by (rule allocate_spec) (use sp(3) assms(3) in simp_all)
  then show ?thesis by (rule released_like_cong) (use sp in simp_all)
qed

definition bst_fd :: bstate where
  "bst_fd = snd (open_region 16 bst0)"

theorem LorieBuffer_wrapFileDescriptor_keeps_witness:
  "fst (LorieBuffer_wrapFileDescriptor 2 2 2 2 1 0 bst_fd) \<noteq> 0 \<and>
   released_like (fst (LorieBuffer_wrapFileDescriptor 2 2 2 2 1 0 bst_fd))
     (snd (LorieBuffer_wrapFileDescriptor 2 2 2 2 1 0 bst_fd)) bst_fd"
proof
  show "fst (LorieBuffer_wrapFileDescriptor 2 2 2 2 1 0 bst_fd) \<noteq> 0"
    by (simp add: LorieBuffer_wrapFileDescriptor_def allocate_def dup_fd_def obtain_store_def mmap_fd_def
        os_call_def acceptable_2 buffer_consts bst_fd_def bst0_def open_region_def Let_def)
  have "bst_inv bst_fd" by (simp add: bst_inv_def unused_def bst_fd_def bst0_def open_region_def)
  then show "released_like (fst (LorieBuffer_wrapFileDescriptor 2 2 2 2 1 0 bst_fd))
     (snd (LorieBuffer_wrapFileDescriptor 2 2 2 2 1 0 bst_fd)) bst_fd"
    by (rule LorieBuffer_wrapFileDescriptor_keeps [OF prod.collapse [symmetric]]) (rule acceptable_2)
qed

end
