(* ===== verification/BufferProps.thy ===== *)
theory BufferProps
  imports Buffer
begin

text \<open>
  What the operations of \<open>lorie/buffer.c\<close> do to a buffer: counting of references, conversion to
  shared memory or a hardware buffer with the picture preserved, transport to another process,
  and the lists buffers are kept in.
\<close>

unbundle bit_operations_syntax

section \<open>Reference counting\<close>

fun times_do :: "nat \<Rightarrow> ('s \<Rightarrow> 's option) \<Rightarrow> 's \<Rightarrow> 's option" where
  "times_do 0 f s = Some s"
| "times_do (Suc n) f s = (case f s of None \<Rightarrow> None | Some s' \<Rightarrow> times_do n f s')"

lemma times_do_Suc_last: "times_do n f s = Some s' \<Longrightarrow> times_do (Suc n) f s = f s'"
proof (induction n arbitrary: s)
  case (Suc n)
  then obtain s1 where s1: "f s = Some s1" "times_do n f s1 = Some s'" by (auto split: option.splits)
  from Suc.IH [OF s1(2)] s1(1) show ?case by simp
qed (simp split: option.splits)

lemma refcount_word: "(ucast (ucast (c :: u16) + push_bit 16 (ucast (p :: u16)) + 1 :: u32) :: u16) = c + 1"
proof -
  have "((c mod 65536 + p mod 65536 * 65536 + 1) mod 4294967296) mod 65536 = (c + 1) mod (65536 :: int)" for c p
  proof -
    have "((c mod 65536 + p mod 65536 * 65536 + 1) mod 4294967296) mod 65536 =
        ((c mod 65536 + 1) + p mod 65536 * 65536) mod (65536 :: int)"
      by (simp add: mod_mod_cancel algebra_simps)
    also have "\<dots> = (c mod 65536 + 1) mod 65536" by (rule mod_mult_self1)
    finally show ?thesis by (simp add: mod_simps)
  qed
  then show ?thesis by transfer (simp add: take_bit_eq_mod push_bit_eq_mult)
qed

lemma acquire_count:
  assumes "bufs st b = Some r" and "b \<noteq> 0"
  obtains p where "LorieBuffer_acquire b st = Some (upd_buf b (\<lambda>r. r\<lparr>refcount := refcount r + 1, b_pad := p\<rparr>) st)"
proof -
  let ?w = "ucast (refcount r) + push_bit 16 (ucast (b_pad r)) + 1 :: u32"
  have "LorieBuffer_acquire b st =
      Some (upd_buf b (\<lambda>r. r\<lparr>refcount := refcount r + 1, b_pad := ucast (drop_bit 16 ?w)\<rparr>) st)"
    using assms by (simp add: LorieBuffer_acquire_def Let_def refcount_word upd_buf_def)
  then show thesis by (rule that)
qed

definition holds :: "addr \<Rightarrow> u16 \<Rightarrow> bstate \<Rightarrow> bstate \<Rightarrow> bool" where
  "holds b n st0 st \<longleftrightarrow> res st = res st0 \<and> (\<exists>r. bufs st b = Some r \<and> refcount r = n)"

lemma acquires:
  assumes "holds b c st0 st" and "b \<noteq> 0"
  shows "\<exists>st'. times_do n (LorieBuffer_acquire b) st = Some st' \<and> holds b (c + of_nat n) st0 st'"
  using assms(1)
proof (induction n arbitrary: st c)
  case (Suc n)
  obtain r where r: "bufs st b = Some r" "refcount r = c" using Suc.prems by (auto simp: holds_def)
  obtain p where a: "LorieBuffer_acquire b st = Some (upd_buf b (\<lambda>r. r\<lparr>refcount := refcount r + 1, b_pad := p\<rparr>) st)"
    by (rule acquire_count [OF r(1) assms(2)])
  have "holds b (c + 1) st0 (upd_buf b (\<lambda>r. r\<lparr>refcount := refcount r + 1, b_pad := p\<rparr>) st)"
    using Suc.prems r by (simp add: holds_def upd_buf_def res_def)
  from Suc.IH [OF this] a show ?case by (simp add: algebra_simps)
qed simp

lemma releases:
  assumes "holds b (of_nat c) st0 st" and "b \<noteq> 0" and "n < c" and "c \<le> 2 ^ 16"
  shows "\<exists>st'. times_do n (LorieBuffer_release b) st = Some st' \<and> holds b (of_nat (c - n)) st0 st'"
  using assms(1,3,4)
proof (induction n arbitrary: st c)
  case (Suc n)
  obtain r where r: "bufs st b = Some r" "refcount r = of_nat c" using Suc.prems by (auto simp: holds_def)
  have "(of_nat c :: u16) \<noteq> 1"
  proof
    assume "(of_nat c :: u16) = 1"
    then have "unat (of_nat c :: u16) = 1" by simp
    then have "c mod 2 ^ 16 = 1" by (simp add: unat_of_nat)
    with Suc.prems show False by (cases "c = 2 ^ 16") auto
  qed
  with r assms(2) have rel: "LorieBuffer_release b st = Some (upd_buf b (\<lambda>r. r\<lparr>refcount := refcount r - 1\<rparr>) st)"
    by (simp add: LorieBuffer_release_def Let_def)
  have "holds b (of_nat (c - 1)) st0 (upd_buf b (\<lambda>r. r\<lparr>refcount := refcount r - 1\<rparr>) st)"
    using Suc.prems r by (auto simp: holds_def upd_buf_def res_def of_nat_diff)
  from Suc.IH [OF this] Suc.prems rel show ?case by simp
qed simp

text \<open>C28: A buffer with one reference that is acquired \<open>n\<close> more times (up to 65535, the count having
  16 bits) survives \<open>n\<close> releases with all it owns and is freed by the next one.\<close>

theorem LorieBuffer_release_frees_last:
  assumes "bufs st b = Some r" and "refcount r = 1" and "b \<noteq> 0" and "n < 2 ^ 16" and "m \<le> n"
    and "times_do n (LorieBuffer_acquire b) st = Some st1"
  shows "(\<exists>st2. times_do m (LorieBuffer_release b) st1 = Some st2 \<and> bufs st2 b \<noteq> None \<and> res st2 = res st) \<and>
    (\<exists>st3. times_do (Suc n) (LorieBuffer_release b) st1 = Some st3 \<and> bufs st3 b = None)"
proof
  have h: "holds b (of_nat (n + 1)) st st1"
    using acquires [of b 1 st st n] assms by (simp add: holds_def add.commute)
  obtain st2 where "times_do m (LorieBuffer_release b) st1 = Some st2" "holds b (of_nat (n + 1 - m)) st st2"
    using releases [OF h, of m] assms by auto
  then show "\<exists>st2. times_do m (LorieBuffer_release b) st1 = Some st2 \<and> bufs st2 b \<noteq> None \<and> res st2 = res st"
    by (auto simp: holds_def)
  obtain st2 where r2: "times_do n (LorieBuffer_release b) st1 = Some st2" "holds b 1 st st2"
    using releases [OF h, of n] assms by auto
  then obtain r2 where "bufs st2 b = Some r2" "refcount r2 = 1" by (auto simp: holds_def)
  then obtain st3 where "LorieBuffer_release b st2 = Some st3" "bufs st3 b = None"
    using release_last [of st2 b r2] assms(3) by (metis fun_upd_same)
  then show "\<exists>st3. times_do (Suc n) (LorieBuffer_release b) st1 = Some st3 \<and> bufs st3 b = None"
    using times_do_Suc_last [OF r2(1)] by simp
qed

definition bst1 :: bstate where
  "bst1 = snd (LorieBuffer_allocate 2 2 2 LORIEBUFFER_REGULAR bst0)"

lemma bst1_buf:
  "bufs bst1 2 = Some \<lparr>refcount = 1, b_pad = 0, desc = \<lparr>d_width = 2, d_height = 2, d_stride = 2, d_format = 2,
     d_type = LORIEBUFFER_REGULAR, d_id = 0, d_buffer = 0, d_data = 1\<rparr>, locked = 0, lockedData = 0,
     b_fd = - 1, b_size = 0, b_offset = 0, gltex = 0, image = 0, gpuCopyPending = 0\<rparr>"
  "blocks bst1 = [1 \<mapsto> replicate 4 0]" "calls bst1 = []" "page_size bst1 = 4096" "api26 bst1"
  "blt_works bst1" "lock_rc bst1 = (\<lambda>_. 0)" "gralloc_stride bst1 = (\<lambda>w. w)" "fresh bst1 = 3"
  "mmaps bst1 = Map.empty" "ahbs bst1 = Map.empty" "fds bst1 = Map.empty" "bufs bst1 a = None \<longleftrightarrow> a \<noteq> 2"
  using acceptable_2
  by (simp_all add: bst1_def LorieBuffer_allocate_def allocate_def obtain_store_def calloc_pixels_def os_call_def
      area_bytes_def bst0_def buffer_consts Let_def)

theorem LorieBuffer_release_frees_last_witness:
  "\<exists>st1 st3. times_do 1 (LorieBuffer_acquire 2) bst1 = Some st1 \<and>
     times_do (Suc 1) (LorieBuffer_release 2) st1 = Some st3 \<and> bufs st3 2 = None"
proof -
  obtain st1 where "times_do 1 (LorieBuffer_acquire 2) bst1 = Some st1"
    using bst1_buf(1) by (auto simp: LorieBuffer_acquire_def Let_def)
  with LorieBuffer_release_frees_last [OF bst1_buf(1) _ _ _ _ this, of 1] show ?thesis by auto
qed

section \<open>Copying a picture\<close>

lemma blt_row_spec:
  assumes "s + n \<le> length src" and "d + n \<le> length dst"
  shows "blt_row src s dst d n = Some (take d dst @ take n (drop s src) @ drop (d + n) dst)"
  using assms
proof (induction n arbitrary: s d dst)
  case (Suc n)
  have "blt_row src s dst d (Suc n) = blt_row src (Suc s) (dst[d := src ! s]) (Suc d) n"
    using Suc.prems by (simp add: rd_def wr_def)
  also have "\<dots> = Some (take (Suc d) (dst[d := src ! s]) @ take n (drop (Suc s) src) @ drop (Suc d + n) (dst[d := src ! s]))"
    by (rule Suc.IH) (use Suc.prems in simp_all)
  also have "take (Suc d) (dst[d := src ! s]) = take d dst @ [src ! s]"
    using Suc.prems by (simp add: take_Suc_conv_app_nth)
  also have "drop (Suc d + n) (dst[d := src ! s]) = drop (d + Suc n) dst" by simp
  also have "take (Suc n) (drop s src) = src ! s # take n (drop (Suc s) src)"
    using Suc.prems by (simp add: Cons_nth_drop_Suc [symmetric])
  ultimately show ?case by simp
qed simp

lemma blt_rows_spec:
  assumes "w \<le> ss" and "w \<le> ds" and "s + ss * h \<le> length src" and "d + ds * h \<le> length dst"
  shows "\<exists>zs. blt_rows src s ss dst d ds w h = Some zs \<and> length zs = length dst \<and>
    (\<forall>i < d. zs ! i = dst ! i) \<and>
    (\<forall>y < h. \<forall>x < w. zs ! (d + ds * y + x) = src ! (s + ss * y + x))"
  using assms(3,4)
proof (induction h arbitrary: s d dst)
  case (Suc h)
  let ?row = "take d dst @ take w (drop s src) @ drop (d + w) dst"
  have row: "blt_row src s dst d w = Some ?row"
    by (rule blt_row_spec) (use Suc.prems assms in simp_all)
  have len: "length ?row = length dst" using Suc.prems assms by simp
  have "\<exists>zs. blt_rows src (s + ss) ss ?row (d + ds) ds w h = Some zs \<and> length zs = length ?row \<and>
    (\<forall>i < d + ds. zs ! i = ?row ! i) \<and>
    (\<forall>y < h. \<forall>x < w. zs ! (d + ds + ds * y + x) = src ! (s + ss + ss * y + x))"
    by (rule Suc.IH) (use Suc.prems len in \<open>simp_all add: algebra_simps\<close>)
  then obtain zs where zs: "blt_rows src (s + ss) ss ?row (d + ds) ds w h = Some zs" "length zs = length dst"
    "\<And>i. i < d + ds \<Longrightarrow> zs ! i = ?row ! i"
    "\<And>y x. y < h \<Longrightarrow> x < w \<Longrightarrow> zs ! (d + ds + ds * y + x) = src ! (s + ss + ss * y + x)"
    using len by auto
  have "zs ! (d + ds * y + x) = src ! (s + ss * y + x)" if "y < Suc h" "x < w" for y x
  proof (cases y)
    case 0
    have "zs ! (d + x) = ?row ! (d + x)" using zs(3) [of "d + x"] that assms by simp
    also have "\<dots> = src ! (s + x)" using Suc.prems that assms by (simp add: nth_append)
    finally show ?thesis using 0 by simp
  next
    case (Suc k)
    then show ?thesis using zs(4) [of k x] that by (simp add: algebra_simps)
  qed
  moreover have "zs ! i = dst ! i" if "i < d" for i
    using zs(3) [of i] that Suc.prems by (simp add: nth_append)
  ultimately show ?case using row zs by auto
qed simp

lemma pixman_blt_spec:
  assumes "blt_works st" and "pixels st src = Some xs" and "pixels st dst = Some ys"
    and "w \<le> ss" and "w \<le> ds" and "unat ss * unat h \<le> length xs" and "unat ds * unat h \<le> length ys"
  obtains zs where "pixman_blt src dst ss ds w h st = Some (put_pixels dst zs st)" and "length zs = length ys"
    and "\<And>x y. x < unat w \<Longrightarrow> y < unat h \<Longrightarrow> zs ! (unat ds * y + x) = xs ! (unat ss * y + x)"
proof -
  have "\<exists>zs. blt_rows xs 0 (unat ss) ys 0 (unat ds) (unat w) (unat h) = Some zs \<and> length zs = length ys \<and>
    (\<forall>i < 0. zs ! i = ys ! i) \<and>
    (\<forall>y < unat h. \<forall>x < unat w. zs ! (0 + unat ds * y + x) = xs ! (0 + unat ss * y + x))"
    by (rule blt_rows_spec) (use assms in \<open>simp_all add: word_le_nat_alt\<close>)
  then obtain zs where "blt_rows xs 0 (unat ss) ys 0 (unat ds) (unat w) (unat h) = Some zs"
    "length zs = length ys" "\<And>x y. x < unat w \<Longrightarrow> y < unat h \<Longrightarrow> zs ! (unat ds * y + x) = xs ! (unat ss * y + x)"
    by auto
  with assms that [of zs] show thesis by (simp add: pixman_blt_def)
qed

section \<open>Sizes\<close>

lemma area_bytes_exact:
  assumes "unat s * unat h < 2 ^ 31"
  shows "unat (area_bytes s h) = 4 * (unat s * unat h)"
proof -
  have p: "unat (s * h) = unat s * unat h" by (rule iffD1 [OF unat_mult_lem]) (use assms in simp)
  have u: "unat (s * h) < 2 ^ 31" using assms by (simp only: p)
  then have "uint (s * h) < 2 ^ 31" by (simp only: uint_nat of_nat_less_numeral_power_cancel_iff)
  then have "sint (s * h) = uint (s * h)" by (simp only: sint_uint) (rule signed_take_bit_int_eq_self; simp add: order_trans [OF _ uint_ge_0])
  then have "area_bytes s h = of_nat (4 * unat (s * h))" by (simp only: area_bytes_def uint_nat) simp
  moreover have "unat (of_nat q :: u64) = q" if "q < 2 ^ 64" for q
    using that by (simp add: unat_of_nat)
  then have "unat (of_nat (4 * unat (s * h)) :: u64) = 4 * unat (s * h)" by this (use u in simp)
  ultimately have "unat (area_bytes s h) = 4 * unat (s * h)" by (simp only:)
  then show ?thesis by (simp only: p)
qed

lemma round_up_ge: "n \<le> (n + p - 1) div p * p" if "0 < p" for n p :: nat
proof -
  have "(n + p - 1) div p * p + (n + p - 1) mod p = n + p - 1" by simp
  moreover have "(n + p - 1) mod p < p" using that by simp
  ultimately show ?thesis by linarith
qed

lemma unat_clear_low: "unat (push_bit k (drop_bit k x)) = unat x div 2 ^ k * 2 ^ k" for x :: u64
proof -
  have "unat x div 2 ^ k * 2 ^ k \<le> unat x" by simp
  then have "unat x div 2 ^ k * 2 ^ k < 2 ^ 64" by (rule le_less_trans) (use unsigned_less [of x] in simp)
  then have "take_bit 64 (push_bit k (drop_bit k (unat x))) = unat x div 2 ^ k * 2 ^ k"
    by (simp add: drop_bit_eq_div push_bit_eq_mult take_bit_nat_eq_self)
  moreover have "take_bit 64 (unat x) = unat x"
    by (rule take_bit_nat_eq_self) (use unsigned_less [of x] in simp)
  ultimately show ?thesis by (simp only: unsigned_push_bit_eq unsigned_drop_bit_eq) simp
qed

lemma alignToPage_exact:
  assumes "page_size st = 2 ^ k" and "k < 32" and "unat n \<le> 2 ^ 34"
  shows "unat (alignToPage n st) = (unat n + 2 ^ k - 1) div 2 ^ k * 2 ^ k"
proof -
  let ?x = "n + 2 ^ k - 1 :: u64"
  have "alignToPage n st = ?x AND NOT (mask k)"
    by (simp add: alignToPage_def assms(1) mask_eq_exp_minus_1)
  also have "\<dots> = push_bit k (drop_bit k ?x)" by (rule bit_word_eqI) (auto simp: bit_simps)
  finally have a: "alignToPage n st = push_bit k (drop_bit k ?x)" .
  have k: "(2 :: nat) ^ k \<le> 2 ^ 32" using assms(2) by (intro power_increasing) auto
  have "1 \<le> unat n + 2 ^ k" by (simp add: trans_le_add2)
  then have "?x = of_nat (unat n + 2 ^ k - 1)" by (simp only: of_nat_diff) simp
  moreover have "unat n + 2 ^ k - 1 < 2 ^ 64" using assms(3) k by simp
  ultimately have x: "unat ?x = unat n + 2 ^ k - 1" by (simp add: unat_of_nat)
  then show ?thesis by (simp only: a unat_clear_low x)
qed

lemma region_fits:
  assumes "page_size st = 2 ^ k" and "k < 32" and "unat s * unat h < 2 ^ 31"
  shows "unat s * unat h \<le> unat (alignToPage (area_bytes s h) st) div 4"
proof -
  define q where "q = unat s * unat h"
  have a: "unat (area_bytes s h) = 4 * q" "q < 2 ^ 31" using area_bytes_exact assms(3) by (simp_all add: q_def)
  have "unat (alignToPage (area_bytes s h) st) = (4 * q + 2 ^ k - 1) div 2 ^ k * 2 ^ k"
    using alignToPage_exact [OF assms(1,2), of "area_bytes s h"] a by simp
  then have "4 * q \<le> unat (alignToPage (area_bytes s h) st)" using round_up_ge [of "2 ^ k" "4 * q"] by simp
  then show ?thesis by (simp add: q_def)
qed

section \<open>Conversion keeps the picture\<close>

definition pixel_at :: "bstate \<Rightarrow> addr \<Rightarrow> nat \<Rightarrow> nat \<Rightarrow> u32 option" where
  "pixel_at st b x y =
     (case bufs st b of
        None \<Rightarrow> None
      | Some r \<Rightarrow>
          (case pixels st (if d_type (desc r) = LORIEBUFFER_AHARDWAREBUFFER then d_buffer (desc r) else d_data (desc r)) of
             None \<Rightarrow> None
           | Some ps \<Rightarrow> rd ps (unat (d_stride (desc r)) * y + x)))"

text \<open>A private buffer: its block holds whole rows, and its size in bytes does not overflow.\<close>

definition private_buf :: "bstate \<Rightarrow> addr \<Rightarrow> LorieBuffer \<Rightarrow> u32 list \<Rightarrow> bool" where
  "private_buf st b r ps \<longleftrightarrow> b \<noteq> 0 \<and> bufs st b = Some r \<and> d_type (desc r) = LORIEBUFFER_REGULAR \<and>
     blocks st (d_data (desc r)) = Some ps \<and>
     length ps = unat (d_stride (desc r)) * unat (d_height (desc r)) \<and>
     d_width (desc r) \<le> d_stride (desc r) \<and> unat (d_stride (desc r)) * unat (d_height (desc r)) < 2 ^ 31"

definition no_failure :: "bstate \<Rightarrow> bool" where
  "no_failure st \<longleftrightarrow> set (calls st) \<subseteq> {True}"

lemma no_failure_call:
  assumes "no_failure st"
  obtains c where "os_call st = (True, st\<lparr>calls := c\<rparr>)" and "no_failure (st\<lparr>calls := c\<rparr>)"
proof (cases "calls st")
  case Nil
  then have "os_call st = (True, st\<lparr>calls := []\<rparr>)" by (cases st) (simp add: os_call_def)
  then show thesis by (rule that) (simp add: no_failure_def)
next
  case (Cons a rs)
  then have "os_call st = (True, st\<lparr>calls := rs\<rparr>)" using assms by (simp add: os_call_def no_failure_def)
  then show thesis by (rule that) (use assms Cons in \<open>simp add: no_failure_def\<close>)
qed

lemma createRegion_ok:
  assumes "no_failure st"
  obtains c where "LorieBuffer_createRegion len st = open_region (unat len) (st\<lparr>calls := c\<rparr>)"
    and "no_failure (st\<lparr>calls := c\<rparr>)"
proof (cases "api26 st")
  case True
  obtain c where c: "os_call st = (True, st\<lparr>calls := c\<rparr>)" "no_failure (st\<lparr>calls := c\<rparr>)"
    by (rule no_failure_call [OF assms])
  with True have "LorieBuffer_createRegion len st = open_region (unat len) (st\<lparr>calls := c\<rparr>)"
    by (simp add: LorieBuffer_createRegion_def)
  then show thesis by (rule that) (rule c(2))
next
  case False
  obtain c where c: "os_call st = (True, st\<lparr>calls := c\<rparr>)" "no_failure (st\<lparr>calls := c\<rparr>)"
    by (rule no_failure_call [OF assms])
  obtain e where e: "os_call (st\<lparr>calls := c\<rparr>) = (True, st\<lparr>calls := e\<rparr>)" "no_failure (st\<lparr>calls := e\<rparr>)"
    using no_failure_call [OF c(2)] by auto
  with False c have "LorieBuffer_createRegion len st = open_region (unat len) (st\<lparr>calls := e\<rparr>)"
    by (simp add: LorieBuffer_createRegion_def)
  then show thesis by (rule that) (rule e(2))
qed

lemma pixel_at_private:
  assumes "private_buf st b r ps" and "x < unat (d_width (desc r))" and "y < unat (d_height (desc r))"
  shows "pixel_at st b x y = Some (ps ! (unat (d_stride (desc r)) * y + x))"
proof -
  have "unat (d_stride (desc r)) * y + x < unat (d_stride (desc r)) * Suc y"
    using assms by (simp add: private_buf_def word_le_nat_alt)
  also have "\<dots> \<le> unat (d_stride (desc r)) * unat (d_height (desc r))" using assms(3) by (intro mult_le_mono) auto
  finally have "unat (d_stride (desc r)) * y + x < length ps" using assms(1) by (simp add: private_buf_def)
  with assms show ?thesis
    by (simp add: pixel_at_def private_buf_def pixels_def buffer_consts rd_def)
qed

definition converted :: "addr \<Rightarrow> byte \<Rightarrow> byte \<Rightarrow> bstate \<Rightarrow> bstate \<Rightarrow> bool" where
  "converted b ty fmt st st' \<longleftrightarrow>
     (\<exists>r r'. bufs st b = Some r \<and> bufs st' b = Some r' \<and> refcount r' = refcount r \<and>
        d_type (desc r') = ty \<and> d_format (desc r') = fmt \<and> d_id (desc r') = d_id (desc r) \<and>
        d_width (desc r') = d_width (desc r) \<and> d_height (desc r') = d_height (desc r) \<and>
        blocks st' = (blocks st)(d_data (desc r) := None) \<and>
        (\<forall>x < unat (d_width (desc r)). \<forall>y < unat (d_height (desc r)). pixel_at st' b x y = pixel_at st b x y))"

lemma row_index:
  assumes "x < w" and "y < h" and "w \<le> s" and "s * h \<le> n"
  shows "s * y + x < (n :: nat)"
proof -
  have "s * y + x < s * Suc y" using assms by simp
  also have "\<dots> \<le> s * h" using assms(2) by (intro mult_le_mono) auto
  finally show ?thesis using assms(4) by simp
qed

lemma convert_fd_ok:
  assumes inv: "bst_inv st" and pb: "private_buf st b r ps" and ok: "no_failure st" "blt_works st"
    and page: "page_size st = 2 ^ k" "k < 32"
  shows "\<exists>st'. convert_fd b r LORIEBUFFER_FD fmt st = Some st' \<and> converted b LORIEBUFFER_FD fmt st st'"
proof -
  let ?d = "desc r" and ?f = "fresh st"
  let ?len = "alignToPage (area_bytes (d_stride ?d) (d_height ?d)) st"
  let ?n = "unat ?len div 4"
  note idle = bst_inv_fresh [OF inv]
  have fits: "unat (d_stride ?d) * unat (d_height ?d) \<le> ?n"
    by (rule region_fits [OF page]) (use pb in \<open>simp add: private_buf_def\<close>)
  obtain c where c: "LorieBuffer_createRegion ?len st = open_region (unat ?len) (st\<lparr>calls := c\<rparr>)"
    "no_failure (st\<lparr>calls := c\<rparr>)" by (rule createRegion_ok [OF ok(1)])
  define st1 where "st1 = snd (open_region (unat ?len) (st\<lparr>calls := c\<rparr>))"
  have st1: "no_failure st1" "fresh st1 = Suc ?f" "fds st1 (int ?f) = Some ?f" "blocks st1 = blocks st"
    "mmaps st1 = mmaps st" "regions st1 ?f = replicate ?n 0" "bufs st1 = bufs st" "blt_works st1"
    using c(2) ok(2) by (simp_all add: st1_def open_region_def no_failure_def)
  obtain e where e: "os_call st1 = (True, st1\<lparr>calls := e\<rparr>)" by (rule no_failure_call [OF st1(1)])
  define st2 where "st2 = st1\<lparr>calls := e, mmaps := (mmaps st1)(Suc ?f \<mapsto>
      \<lparr>m_region = ?f, m_offset = 0, m_size = unat ?len\<rparr>), fresh := Suc (Suc ?f)\<rparr>"
  have mm: "mmap_fd (int ?f) ?len 0 st1 = (Suc ?f, st2)"
    using st1 e by (simp add: mmap_fd_def st2_def)
  have px: "pixels st2 (d_data ?d) = Some ps" "pixels st2 (Suc ?f) = Some (replicate ?n 0)"
    using pb idle [of "Suc ?f"] st1 by (simp_all add: pixels_def st2_def private_buf_def)
  obtain zs where zs: "pixman_blt (d_data ?d) (Suc ?f) (d_stride ?d) (d_stride ?d) (d_width ?d) (d_height ?d) st2 =
      Some (put_pixels (Suc ?f) zs st2)" "length zs = ?n"
    "\<And>x y. x < unat (d_width ?d) \<Longrightarrow> y < unat (d_height ?d) \<Longrightarrow>
      zs ! (unat (d_stride ?d) * y + x) = ps ! (unat (d_stride ?d) * y + x)"
    using pixman_blt_spec [OF _ px, of "d_width ?d" "d_stride ?d" "d_stride ?d" "d_height ?d"] pb fits st1
    by (auto simp: private_buf_def st2_def)
  define st3 where "st3 = put_pixels (Suc ?f) zs st2"
  have st3: "st3 = st2\<lparr>regions := (regions st2)(?f := zs)\<rparr>"
    using idle [of "Suc ?f"] st1 zs(2) by (simp add: st3_def put_pixels_def st2_def)
  let ?st' = "upd_buf b (\<lambda>r. r\<lparr>desc := ?d\<lparr>d_type := LORIEBUFFER_FD, d_format := fmt, d_data := Suc ?f\<rparr>, b_fd := int ?f,
      b_size := ?len, b_offset := 0, lockedData := 0, locked := 0\<rparr>) (free_pixels (d_data ?d) st3)"
  have conv: "convert_fd b r LORIEBUFFER_FD fmt st = Some ?st'"
    using c(1) mm zs(1) by (simp add: convert_fd_def Let_def open_region_def st1_def st3_def)
  have "pixel_at ?st' b x y = pixel_at st b x y" if xy: "x < unat (d_width ?d)" "y < unat (d_height ?d)" for x y
  proof -
    have "pixels ?st' (Suc ?f) = Some zs"
      using idle [of "Suc ?f"] st1 zs(2) by (simp add: pixels_def upd_buf_def free_pixels_def st3 st2_def)
    moreover have "unat (d_stride ?d) * y + x < ?n"
      by (rule row_index [OF xy _ fits]) (use pb in \<open>simp add: private_buf_def word_le_nat_alt\<close>)
    moreover have "bufs ?st' b = Some (r\<lparr>desc := ?d\<lparr>d_type := LORIEBUFFER_FD, d_format := fmt, d_data := Suc ?f\<rparr>,
        b_fd := int ?f, b_size := ?len, b_offset := 0, lockedData := 0, locked := 0\<rparr>)"
      using pb st1 by (simp add: upd_buf_def free_pixels_def st3 st2_def private_buf_def)
    ultimately have "pixel_at ?st' b x y = Some (zs ! (unat (d_stride ?d) * y + x))"
      using zs(2) by (simp add: pixel_at_def rd_def buffer_consts)
    then show ?thesis using zs(3) [OF xy] pixel_at_private [OF pb xy] by simp
  qed
  then have "converted b LORIEBUFFER_FD fmt st ?st'"
    using pb st1 unfolding converted_def
    by (auto simp: private_buf_def upd_buf_def free_pixels_def st3 st2_def)
  with conv show ?thesis by blast
qed

lemma convert_ahb_ok:
  assumes inv: "bst_inv st" and pb: "private_buf st b r ps" and ok: "no_failure st" "blt_works st"
    and api: "api26 st" "\<And>a. lock_rc st a = 0" "\<And>w. w \<le> gralloc_stride st w"
  shows "\<exists>st'. convert_ahb b r LORIEBUFFER_AHARDWAREBUFFER fmt st = Some st' \<and>
    converted b LORIEBUFFER_AHARDWAREBUFFER fmt st st'"
proof -
  let ?d = "desc r" and ?f = "fresh st"
  let ?s = "gralloc_stride st (d_width (desc r))"
  let ?n = "unat ?s * unat (d_height ?d)"
  let ?h = "\<lambda>zs. \<lparr>ahb_width = d_width ?d, ahb_height = d_height ?d, ahb_stride = ?s,
      ahb_format = word_of_int (sint fmt), ahb_pixels = zs, ahb_refs = 1\<rparr>"
  note idle = bst_inv_fresh [OF inv order_refl]
  obtain c where c: "os_call st = (True, st\<lparr>calls := c\<rparr>)" by (rule no_failure_call [OF ok(1)])
  define st1 where "st1 = st\<lparr>calls := c, ahbs := (ahbs st)(?f \<mapsto> ?h (replicate ?n 0)), fresh := Suc ?f\<rparr>"
  have al: "AHardwareBuffer_allocate (d_width ?d) (d_height ?d) (word_of_int (sint fmt)) st = (Some ?f, st1)"
    by (simp add: AHardwareBuffer_allocate_def c st1_def)
  have px: "pixels st1 (d_data ?d) = Some ps" "pixels st1 ?f = Some (replicate ?n 0)"
    using pb idle by (simp_all add: pixels_def st1_def private_buf_def)
  obtain zs where zs: "pixman_blt (d_data ?d) ?f (d_stride ?d) ?s (d_width ?d) (d_height ?d) st1 =
      Some (put_pixels ?f zs st1)" "length zs = ?n"
    "\<And>x y. x < unat (d_width ?d) \<Longrightarrow> y < unat (d_height ?d) \<Longrightarrow>
      zs ! (unat ?s * y + x) = ps ! (unat (d_stride ?d) * y + x)"
    using pixman_blt_spec [OF _ px, of "d_width ?d" "d_stride ?d" ?s "d_height ?d"] pb ok api
    by (auto simp: private_buf_def st1_def)
  define st2 where "st2 = put_pixels ?f zs st1"
  have st2: "st2 = st1\<lparr>ahbs := (ahbs st1)(?f \<mapsto> ?h zs)\<rparr>"
    using idle by (simp add: st2_def put_pixels_def st1_def)
  let ?r' = "r\<lparr>desc := ?d\<lparr>d_type := LORIEBUFFER_AHARDWAREBUFFER, d_format := fmt, d_stride := ?s,
      d_buffer := ?f, d_data := 0\<rparr>, lockedData := 0, locked := 0\<rparr>"
  let ?st' = "upd_buf b (\<lambda>r. r\<lparr>desc := ?d\<lparr>d_type := LORIEBUFFER_AHARDWAREBUFFER, d_format := fmt, d_stride := ?s,
      d_buffer := ?f, d_data := 0\<rparr>, lockedData := 0, locked := 0\<rparr>)
      (free_pixels (d_data ?d) st2)"
  have "ahbs st1 ?f = Some (?h (replicate ?n 0))" "lock_rc st1 ?f = 0" using api by (simp_all add: st1_def)
  then have conv: "convert_ahb b r LORIEBUFFER_AHARDWAREBUFFER fmt st = Some ?st'"
    using al zs(1) api by (simp add: convert_ahb_def Let_def st2_def)
  have "pixel_at ?st' b x y = pixel_at st b x y" if xy: "x < unat (d_width ?d)" "y < unat (d_height ?d)" for x y
  proof -
    have "d_data ?d \<noteq> ?f" using pb idle by (auto simp: private_buf_def)
    then have "pixels ?st' ?f = Some zs"
      using idle by (simp add: pixels_def upd_buf_def free_pixels_def st2 st1_def)
    moreover have "unat ?s * y + x < ?n"
      by (rule row_index [OF xy _ order_refl]) (use api(3) in \<open>simp add: word_le_nat_alt\<close>)
    moreover have "bufs ?st' b = Some ?r'"
      using pb by (simp add: upd_buf_def free_pixels_def st2 st1_def private_buf_def)
    ultimately have "pixel_at ?st' b x y = Some (zs ! (unat ?s * y + x))"
      using zs(2) by (simp add: pixel_at_def rd_def)
    then show ?thesis using zs(3) [OF xy] pixel_at_private [OF pb xy] by simp
  qed
  then have "converted b LORIEBUFFER_AHARDWAREBUFFER fmt st ?st'"
    using pb unfolding converted_def
    by (auto simp: private_buf_def upd_buf_def free_pixels_def st2 st1_def)
  with conv show ?thesis by blast
qed


lemma bst1_inv: "bst_inv bst1"
  by (simp add: bst_inv_def unused_def bst1_buf)


section \<open>Transport\<close>

lemma recv_fd_steps:
  assumes "bst_inv t" and "no_failure t" and "0 \<le> sock" and "d_type (desc r) = LORIEBUFFER_FD"
  obtains t' where "LorieBuffer_recvHandleFromUnixSocket sock (SockStruct r # SockFd rg # rest) True t =
      (Some (fresh t + 2), rest, t')"
    and "bufs t' (fresh t + 2) = Some (r\<lparr>image := 0, b_fd := int (fresh t), desc := (desc r)\<lparr>d_data := fresh t + 1\<rparr>\<rparr>)"
    and "fds t' (int (fresh t)) = Some rg"
    and "mmaps t' (fresh t + 1) = Some \<lparr>m_region = rg, m_offset = 0,
      m_size = unat (area_bytes (d_stride (desc r)) (d_height (desc r)))\<rparr>"
proof -
  let ?t1 = "t\<lparr>fds := (fds t)(int (fresh t) \<mapsto> rg), fresh := Suc (fresh t)\<rparr>"
  obtain c where c: "os_call ?t1 = (True, ?t1\<lparr>calls := c\<rparr>)" "no_failure (?t1\<lparr>calls := c\<rparr>)"
    using no_failure_call [of ?t1] assms(2) by (auto simp: no_failure_def)
  define t2 where "t2 = ?t1\<lparr>calls := c, mmaps := (mmaps t)(Suc (fresh t) \<mapsto> \<lparr>m_region = rg, m_offset = 0,
      m_size = unat (area_bytes (d_stride (desc r)) (d_height (desc r)))\<rparr>), fresh := Suc (Suc (fresh t))\<rparr>"
  have "no_failure t2" using c(2) by (simp add: no_failure_def t2_def)
  then obtain e where e: "os_call t2 = (True, t2\<lparr>calls := e\<rparr>)" by (rule no_failure_call)
  let ?r = "r\<lparr>image := 0, b_fd := int (fresh t), desc := (desc r)\<lparr>d_data := fresh t + 1\<rparr>\<rparr>"
  let ?t' = "t2\<lparr>calls := e, bufs := (bufs t2)(fresh t + 2 \<mapsto> ?r), links := xorg_list_init (fresh t + 2) (links t2),
      fresh := Suc (fresh t + 2)\<rparr>"
  have m: "mmap_fd (int (fresh t)) (area_bytes (d_stride (desc r)) (d_height (desc r))) 0 ?t1 = (Suc (fresh t), t2)"
    by (simp add: mmap_fd_def c(1) t2_def)
  have k: "recv_keep True ?r rest t2 = (Some (fresh t + 2), rest, ?t')"
    using e by (simp add: recv_keep_def t2_def)
  have "LorieBuffer_recvHandleFromUnixSocket sock (SockStruct r # SockFd rg # rest) True t =
      (Some (fresh t + 2), rest, ?t')"
    using assms m k
    by (simp add: LorieBuffer_recvHandleFromUnixSocket_def recv_struct_def ancil_recv_fd_def Let_def)
  then show thesis by (rule that) (simp_all add: t2_def)
qed

lemma send_fd_items:
  assumes "bufs s b = Some r" and "b \<noteq> 0" and "0 \<le> sock" and "d_type (desc r) = LORIEBUFFER_FD"
    and "fds s (b_fd r) = Some rg"
  shows "LorieBuffer_sendHandleToUnixSocket b sock s = Some [SockStruct r, SockFd rg]"
  using assms by (simp add: LorieBuffer_sendHandleToUnixSocket_def)


definition bst2 :: bstate where
  "bst2 = snd (LorieBuffer_allocate 2 2 2 LORIEBUFFER_FD bst0)"

lemma bst2_buf:
  obtains r where "bufs bst2 3 = Some r" and "d_type (desc r) = LORIEBUFFER_FD" and "fds bst2 (b_fd r) = Some 1"
    and "refcount r = 1" and "d_id (desc r) = 0"
  using acceptable_2 that
  by (simp add: bst2_def LorieBuffer_allocate_def LorieBuffer_createRegion_def open_region_def allocate_def os_call_def
        obtain_store_def mmap_fd_def buffer_consts bst0_def Let_def)


text \<open>The receiver keeps the reference count that travelled with the structure instead of its
  own: when the sender held more than one reference, releasing the received buffer does not free it.\<close>

theorem LorieBuffer_recv_count:
  assumes "bufs s b = Some r" and "b \<noteq> 0" and "0 \<le> sock" and "d_type (desc r) = LORIEBUFFER_FD"
    and "fds s (b_fd r) = Some rg" and "bst_inv t" and "no_failure t" and "0 \<le> sock'" and "refcount r \<noteq> 1"
    and "LorieBuffer_sendHandleToUnixSocket b sock s = Some items"
  shows "\<exists>b' t' t''. LorieBuffer_recvHandleFromUnixSocket sock' (items @ rest) True t = (Some b', rest, t') \<and>
    LorieBuffer_release b' t' = Some t'' \<and> bufs t'' b' \<noteq> None"
proof -
  have items: "items = [SockStruct r, SockFd rg]"
    using send_fd_items [OF assms(1-5)] assms(10) by simp
  obtain t' where t': "LorieBuffer_recvHandleFromUnixSocket sock' (SockStruct r # SockFd rg # rest) True t =
      (Some (fresh t + 2), rest, t')"
    "bufs t' (fresh t + 2) = Some (r\<lparr>image := 0, b_fd := int (fresh t), desc := (desc r)\<lparr>d_data := fresh t + 1\<rparr>\<rparr>)"
    by (rule recv_fd_steps [OF assms(6-8,4)])
  show ?thesis
    by (rule exI [of _ "fresh t + 2"], rule exI [of _ t'], rule exI)
       (use t' assms(9) in \<open>auto simp: items LorieBuffer_release_def Let_def upd_buf_def\<close>)
qed

theorem LorieBuffer_recv_count_witness:
  "\<exists>s items b' t' t''. LorieBuffer_acquire 3 bst2 = Some s \<and> LorieBuffer_sendHandleToUnixSocket 3 7 s = Some items \<and>
    LorieBuffer_recvHandleFromUnixSocket 5 (items @ []) True bst0 = (Some b', [], t') \<and>
    LorieBuffer_release b' t' = Some t'' \<and> bufs t'' b' \<noteq> None"
proof -
  obtain r where r: "bufs bst2 3 = Some r" "d_type (desc r) = LORIEBUFFER_FD" "fds bst2 (b_fd r) = Some 1"
    "refcount r = 1" by (rule bst2_buf)
  obtain p where a: "LorieBuffer_acquire 3 bst2 = Some (upd_buf 3 (\<lambda>r. r\<lparr>refcount := refcount r + 1, b_pad := p\<rparr>) bst2)"
    by (rule acquire_count [OF r(1)]) simp
  define s where "s = upd_buf 3 (\<lambda>r. r\<lparr>refcount := refcount r + 1, b_pad := p\<rparr>) bst2"
  let ?r = "r\<lparr>refcount := refcount r + 1, b_pad := p\<rparr>"
  have s: "bufs s 3 = Some ?r" "d_type (desc ?r) = LORIEBUFFER_FD" "fds s (b_fd ?r) = Some 1" "refcount ?r \<noteq> 1"
    using r by (simp_all add: s_def upd_buf_def)
  have i: "LorieBuffer_sendHandleToUnixSocket 3 7 s = Some [SockStruct ?r, SockFd 1]"
    by (rule send_fd_items) (use s in simp_all)
  have n: "no_failure bst0" by (simp add: no_failure_def bst0_def)
  from LorieBuffer_recv_count [OF s(1) _ _ s(2,3) bst0_inv n _ s(4) i, of 5 "[]"] i a
  show ?thesis unfolding s_def by auto
qed

section \<open>Lists\<close>

definition id_of :: "bstate \<Rightarrow> addr \<Rightarrow> u64" where
  "id_of st a = (case bufs st a of None \<Rightarrow> 0 | Some r \<Rightarrow> d_id (desc r))"

lemma findById_from:
  assumes "linked (links st) (xs @ [l])" and "l \<notin> set xs" and "\<And>a. a \<in> set xs \<Longrightarrow> bufs st a \<noteq> None"
    and "length xs < n"
  shows "findById_loop n st l i (hd (xs @ [l])) =
     Some (case find (\<lambda>a. id_of st a = i) xs of None \<Rightarrow> 0 | Some a \<Rightarrow> a)"
  using assms
proof (induction xs arbitrary: n)
  case Nil
  then show ?case by (cases n) auto
next
  case (Cons x xs)
  then obtain m where n: "n = Suc m" by (cases n) auto
  have x: "nxt (links st) x = hd (xs @ [l])" using Cons.prems(1) by (cases xs) auto
  have IH: "findById_loop m st l i (hd (xs @ [l])) =
     Some (case find (\<lambda>a. id_of st a = i) xs of None \<Rightarrow> 0 | Some a \<Rightarrow> a)"
    by (rule Cons.IH) (use Cons.prems n in \<open>cases xs; auto\<close>)+
  obtain r where "bufs st x = Some r" using Cons.prems(3) [of x] by auto
  with n x IH Cons.prems(2) show ?case by (auto simp: id_of_def)
qed

lemma findById_spec:
  assumes "xl_list (links st) l xs" and "\<And>a. a \<in> set xs \<Longrightarrow> bufs st a \<noteq> None" and "length xs < n"
  shows "LorieBufferList_findById n l i st =
     Some (case find (\<lambda>a. id_of st a = i) xs of None \<Rightarrow> 0 | Some a \<Rightarrow> a)"
proof -
  have "linked (links st) (xs @ [l])" using assms(1) by (cases xs) (auto simp: xl_list_def)
  moreover have "l \<notin> set xs" using assms(1) by (simp add: xl_list_def)
  ultimately show ?thesis
    using findById_from [of st xs l n i] assms xl_list_head_next [OF assms(1)]
    by (simp add: LorieBufferList_findById_def)
qed

text \<open>C30: Adding a buffer to a list takes it out of the list it was in and puts it in front; both
  lists stay well formed, and looking up any id in the new list finds the first buffer with it,
  with one loop test more than there are entries.\<close>

theorem LorieBuffer_addToList_moves:
  assumes "xl_list (links st) l xs" and "xl_list (links st) m (ys @ b # zs)"
    and "set (m # ys @ b # zs) \<inter> set (l # xs) = {}" and "b \<noteq> 0" and "l \<noteq> 0"
    and "\<forall>a \<in> set (b # xs). bufs st a \<noteq> None" and "st' = LorieBuffer_addToList b l st"
  shows "xl_list (links st') l (b # xs) \<and> xl_list (links st') m (ys @ zs) \<and>
    LorieBufferList_first l st' = b \<and>
    LorieBufferList_findById (length xs + 2) l i st' =
      Some (if id_of st b = i then b else case find (\<lambda>a. id_of st a = i) xs of None \<Rightarrow> 0 | Some a \<Rightarrow> a)"
proof -
  have l: "links st' = xorg_list_add b l (xorg_list_del b (links st))" and bf: "bufs st' = bufs st"
    using assms(4,5,7) by (simp_all add: LorieBuffer_addToList_def)
  have mv: "xl_list (links st') m (ys @ zs) \<and> xl_list (links st') l (b # xs)"
    unfolding l by (rule xl.move_between [OF assms(2,1,3)])
  have "LorieBufferList_first l st' = b"
    using mv xl_is_empty [of "links st'" l "b # xs"] xl_first [of "links st'" l b xs]
    by (simp add: LorieBufferList_first_def)
  moreover have "LorieBufferList_findById (length xs + 2) l i st' =
      Some (case find (\<lambda>a. id_of st' a = i) (b # xs) of None \<Rightarrow> 0 | Some a \<Rightarrow> a)"
    by (rule findById_spec) (use mv assms(6) bf in auto)
  ultimately show ?thesis using mv bf by (simp add: id_of_def)
qed

definition bst3 :: bstate where
  "bst3 = LorieBuffer_addToList 3 101 (bst2\<lparr>links := xorg_list_init 102 (xorg_list_init 101 (links bst2))\<rparr>)"

theorem LorieBuffer_addToList_moves_witness:
  "LorieBufferList_findById 2 102 0 (LorieBuffer_addToList 3 102 bst3) = Some 3"
proof -
  have l2: "links bst2 = xorg_list_init 3 \<lparr>nxt = id, prv = id\<rparr>"
    using acceptable_2
    by (simp add: bst2_def LorieBuffer_allocate_def LorieBuffer_createRegion_def open_region_def allocate_def os_call_def
        obtain_store_def mmap_fd_def buffer_consts bst0_def Let_def numeral_3_eq_3)
  obtain r where r: "bufs bst2 3 = Some r" "d_id (desc r) = 0" by (rule bst2_buf)
  have "xl_list (links bst3) 102 []" "xl_list (links bst3) 101 ([] @ 3 # [])"
    by (simp_all add: bst3_def l2 LorieBuffer_addToList_def xl_list_def xorg_list_add_def xorg_list_add_between_def
        xorg_list_del_def xorg_list_del_between_def xorg_list_init_def Let_def)
  from LorieBuffer_addToList_moves [OF this _ _ _ _ refl, of 0] r show ?thesis
    by (simp add: bst3_def LorieBuffer_addToList_def id_of_def numeral_2_eq_2)
qed

end
