(* ===== verification/GpuCopy.thy ===== *)
theory GpuCopy
  imports GpuQueue BufferProps "HOL-Library.Monad_Syntax"
begin

text \<open>
  The server's side of deferred GPU copies (\<open>lorieTryScheduleGpuCopy\<close>, \<open>lorieGpuCopyAck\<close> and the
  helpers they call in \<open>InitOutput.c\<close>), the registration of buffers with the renderer
  (\<open>cmdentrypoint.cpp\<close>), and the renderer's buffer lists and queue loop (\<open>renderer.cpp\<close>). An
  operation is \<open>None\<close> when it touches a structure that is gone or calls \<open>FatalError\<close>. Traversals of
  lists take the number of loop tests allowed as an argument.
\<close>

record LoriePixmapPriv =
  pp_buffer :: addr
  pp_flipped :: bool
  pp_wasLocked :: bool
  pp_imported :: bool
  pp_locked :: addr
  pp_mem :: addr

record pixmap =
  px_priv :: "LoriePixmapPriv option"
  px_width :: u16
  px_height :: u16
  px_devKind :: u32
  px_ptr :: addr

datatype srvmsg = MsgAddBuffer "sockitem list" | MsgRemoveBuffer u64

text \<open>The static variables of the server; \<open>pollOk\<close> is what polling the connection says.\<close>

record server =
  s_bs :: bstate
  s_pix :: "nat \<Rightarrow> pixmap"
  s_root :: nat
  s_queue :: gpuCopyQueue
  s_counter :: u64
  rootGpuCopyPending :: u64
  gpuCopyAttempts :: u64
  gpuCopyOffloads :: u64
  gpuPresentDisabled :: bool
  legacyDrawing :: bool
  surfaceAvailable :: bool
  conn_fd :: int
  pollOk :: bool
  registeredBuffers :: addr
  s_out :: "srvmsg list"
  root_width :: u32
  root_height :: u32
  forceFlip :: bool
  lock_depth :: nat

section \<open>Registration\<close>

definition lorieConnectionAlive :: "server \<Rightarrow> bool" where
  "lorieConnectionAlive s \<longleftrightarrow> conn_fd s \<noteq> - 1 \<and> pollOk s"

definition lorieRendererAvailable :: "server \<Rightarrow> bool" where
  "lorieRendererAvailable s = surfaceAvailable s"

definition lorieRegisterBuffer :: "nat \<Rightarrow> addr \<Rightarrow> server \<Rightarrow> server option" where
  "lorieRegisterBuffer n b s = do {
     d \<leftarrow> LorieBuffer_description b (s_bs s);
     if conn_fd s = - 1 then Some s
     else do {
       f \<leftarrow> LorieBufferList_findById n (registeredBuffers s) (d_id d) (s_bs s);
       if f \<noteq> 0 \<or> b = 0 then Some s
       else do {
         items \<leftarrow> LorieBuffer_sendHandleToUnixSocket b (conn_fd s) (s_bs s);
         Some (s\<lparr>s_out := s_out s @ [MsgAddBuffer items],
                 s_bs := LorieBuffer_addToList b (registeredBuffers s) (s_bs s)\<rparr>)
       }
     }
   }"

definition lorieUnregisterBuffer :: "nat \<Rightarrow> addr \<Rightarrow> server \<Rightarrow> server option" where
  "lorieUnregisterBuffer n b s =
     (if b = 0 then Some s
      else do {
        d \<leftarrow> LorieBuffer_description b (s_bs s);
        f \<leftarrow> LorieBufferList_findById n (registeredBuffers s) (d_id d) (s_bs s);
        if f = 0 \<or> conn_fd s = - 1 then Some s
        else Some (s\<lparr>s_out := s_out s @ [MsgRemoveBuffer (d_id d)],
                     s_bs := LorieBuffer_removeFromList b (s_bs s)\<rparr>)
      })"

section \<open>Scheduling\<close>

definition priv_of :: "nat \<Rightarrow> server \<Rightarrow> LoriePixmapPriv option" where
  "priv_of p s = (if p = 0 then None else px_priv (s_pix s p))"

definition set_locked :: "nat \<Rightarrow> addr option \<Rightarrow> server \<Rightarrow> server" where
  "set_locked p out s =
     (case out of
        None \<Rightarrow> s
      | Some a \<Rightarrow> s\<lparr>s_pix := (s_pix s)(p := (s_pix s p)\<lparr>px_priv :=
          map_option (\<lambda>v. v\<lparr>pp_locked := a\<rparr>) (px_priv (s_pix s p))\<rparr>)\<rparr>)"

definition set_devKind :: "nat \<Rightarrow> u32 \<Rightarrow> server \<Rightarrow> server" where
  "set_devKind p k s = s\<lparr>s_pix := (s_pix s)(p := (s_pix s p)\<lparr>px_devKind := k\<rparr>)\<rparr>"

definition lorieEnsureGpuSampleable :: "nat \<Rightarrow> byte \<Rightarrow> server \<Rightarrow> (addr \<times> server) option" where
  "lorieEnsureGpuSampleable p ty s =
     (case priv_of p s of
        None \<Rightarrow> Some (0, s)
      | Some v \<Rightarrow>
          if pp_buffer v = 0 \<or> pp_mem v \<noteq> 0 then Some (0, s)
          else do {
            d \<leftarrow> LorieBuffer_description (pp_buffer v) (s_bs s);
            s1 \<leftarrow>
              (if d_type d = LORIEBUFFER_REGULAR then do {
                 bs \<leftarrow> LorieBuffer_convert (pp_buffer v) ty AHARDWAREBUFFER_FORMAT_R8G8B8X8_UNORM (s_bs s);
                 d' \<leftarrow> LorieBuffer_description (pp_buffer v) bs;
                 if d_type d' \<noteq> LORIEBUFFER_REGULAR then do {
                   r \<leftarrow> LorieBuffer_lock (pp_buffer v) bs;
                   (case r of (ret, out, bs') \<Rightarrow>
                      Some (set_locked p out (set_devKind p (d_stride d' * 4) (s\<lparr>s_bs := bs'\<rparr>))))
                 }
                 else Some (s\<lparr>s_bs := bs\<rparr>)
               }
               else Some s);
            d1 \<leftarrow> LorieBuffer_description (pp_buffer v) (s_bs s1);
            Some (if d_type d1 = ty then pp_buffer v else 0, s1)
          })"

definition relock :: "(addr \<Rightarrow> int) \<Rightarrow> nat \<Rightarrow> server \<Rightarrow> server option" where
  "relock unlock_rc p s =
     (case priv_of p s of
        None \<Rightarrow> None
      | Some v \<Rightarrow>
          if pp_locked v = 0 then Some s
          else do {
            u \<leftarrow> LorieBuffer_unlock unlock_rc (pp_buffer v) (s_bs s);
            l \<leftarrow> LorieBuffer_lock (pp_buffer v) (snd u);
            (case l of (status, out, bs) \<Rightarrow>
               if status \<noteq> 0 then None else Some (set_locked p out (s\<lparr>s_bs := bs\<rparr>)))
          })"

definition full_box :: "pixmap \<Rightarrow> LorieGpuCopyRect" where
  "full_box px = \<lparr>x1 = 0, y1 = 0, x2 = px_width px, y2 = px_height px\<rparr>"

definition attempt :: "server \<Rightarrow> server" where
  "attempt s = s\<lparr>gpuCopyAttempts := gpuCopyAttempts s + 1\<rparr>"

text \<open>The references and marks that keep both buffers alive and locked out for the CPU until the
  copy is acknowledged.\<close>

definition hold_buffers :: "nat \<Rightarrow> addr \<Rightarrow> addr \<Rightarrow> bool \<Rightarrow> server \<Rightarrow> server option" where
  "hold_buffers n src dst dstIsRoot s = do {
     s1 \<leftarrow> lorieRegisterBuffer n src s;
     b1 \<leftarrow> LorieBuffer_acquire src (s_bs s1);
     b2 \<leftarrow> LorieBuffer_gpuCopyPendingInc src b1;
     let s2 = s1\<lparr>s_bs := b2\<rparr>;
     if dstIsRoot then Some (s2\<lparr>rootGpuCopyPending := rootGpuCopyPending s2 + 1\<rparr>)
     else do {
       s3 \<leftarrow> lorieRegisterBuffer n dst s2;
       b3 \<leftarrow> LorieBuffer_acquire dst (s_bs s3);
       b4 \<leftarrow> LorieBuffer_gpuCopyPendingInc dst b3;
       Some (s3\<lparr>s_bs := b4\<rparr>)
     }
   }"

definition lorieTryScheduleGpuCopy ::
    "(addr \<Rightarrow> int) \<Rightarrow> nat \<Rightarrow> nat \<Rightarrow> nat \<Rightarrow> LorieGpuCopyRect list option \<Rightarrow> u16 \<Rightarrow> u16 \<Rightarrow> server \<Rightarrow>
     ((u64 \<times> addr) option \<times> server) option" where
  "lorieTryScheduleGpuCopy unlock_rc n p dst update x_off y_off s =
     (if gpuPresentDisabled s \<or> legacyDrawing s then Some (None, attempt s)
      else if \<not> lorieConnectionAlive s \<or> \<not> lorieRendererAvailable s then Some (None, attempt s)
      else do {
        e1 \<leftarrow> lorieEnsureGpuSampleable p LORIEBUFFER_AHARDWAREBUFFER s;
        if fst e1 = 0 then Some (None, attempt (snd e1))
        else do {
          e2 \<leftarrow> lorieEnsureGpuSampleable dst LORIEBUFFER_AHARDWAREBUFFER (snd e1);
          if fst e2 = 0 then Some (None, attempt (snd e2))
          else do {
            s2 \<leftarrow> relock unlock_rc p (snd e2);
            desc \<leftarrow> LorieBuffer_description (fst e1) (s_bs s2);
            dstDesc \<leftarrow> LorieBuffer_description (fst e2) (s_bs s2);
            let box = (case update of Some rs \<Rightarrow> rs | None \<Rightarrow> [full_box (s_pix s2 p)]);
            if box = [] \<or> LORIE_GPU_COPY_MAX_RECTS < length box then Some (None, attempt s2)
            else if ring_full (s_queue s2) then Some (None, attempt s2)
            else do {
              s3 \<leftarrow> hold_buffers n (fst e1) (fst e2) (dst = s_root s2) s2;
              let serial = s_counter s3 + 1;
              Some (Some (serial, if dst = s_root s2 then 0 else fst e2),
                (attempt s3)\<lparr>s_counter := serial,
                  s_queue := ring_push serial (d_id desc) (d_id dstDesc) x_off y_off box (s_queue s3),
                  gpuCopyOffloads := gpuCopyOffloads s3 + 1\<rparr>)
            }
          }
        }
      })"

definition lorieGpuCopyAck :: "nat \<Rightarrow> addr \<Rightarrow> server \<Rightarrow> server option" where
  "lorieGpuCopyAck p dst_buffer s =
     (let b = (case priv_of p s of None \<Rightarrow> 0 | Some v \<Rightarrow> pp_buffer v) in do {
        b1 \<leftarrow> LorieBuffer_gpuCopyPendingDec b (s_bs s);
        b2 \<leftarrow> LorieBuffer_gpuCopyPendingDec dst_buffer b1;
        b3 \<leftarrow> LorieBuffer_release b b2;
        b4 \<leftarrow> LorieBuffer_release dst_buffer b3;
        Some (s\<lparr>s_bs := b4, rootGpuCopyPending :=
          (if dst_buffer = 0 then rootGpuCopyPending s - 1 else rootGpuCopyPending s)\<rparr>)
      })"

definition lorieNeedsGpuLock :: "bool \<Rightarrow> nat \<Rightarrow> server \<Rightarrow> bool option" where
  "lorieNeedsGpuLock prepare_dest p s =
     (if p = s_root s then Some (prepare_dest \<or> rootGpuCopyPending s \<noteq> 0 \<and> \<not> legacyDrawing s)
      else
        (case priv_of p s of
           None \<Rightarrow> Some False
         | Some v \<Rightarrow>
             if legacyDrawing s \<or> pp_buffer v = 0 then Some False
             else do {
               d \<leftarrow> LorieBuffer_description (pp_buffer v) (s_bs s);
               f \<leftarrow> LorieBuffer_hasGpuCopyPending (pp_buffer v) (s_bs s);
               Some (d_type d = LORIEBUFFER_AHARDWAREBUFFER \<and> f)
             }))"

section \<open>Pixmaps\<close>

definition upd_priv :: "nat \<Rightarrow> (LoriePixmapPriv \<Rightarrow> LoriePixmapPriv) \<Rightarrow> server \<Rightarrow> server" where
  "upd_priv p f s = s\<lparr>s_pix := (s_pix s)(p := (s_pix s p)\<lparr>px_priv := map_option f (px_priv (s_pix s p))\<rparr>)\<rparr>"

definition loriePresentFlip :: "nat \<Rightarrow> nat \<Rightarrow> server \<Rightarrow> (bool \<times> server) option" where
  "loriePresentFlip n p s =
     (case priv_of p s of
        None \<Rightarrow> Some (False, s)
      | Some v \<Rightarrow>
          if pp_buffer v = 0 \<or> pp_mem v \<noteq> 0 \<or> root_width s \<noteq> ucast (px_width (s_pix s p)) \<or>
             root_width s \<noteq> ucast (px_height (s_pix s p))
          then Some (False, s)
          else do {
            d \<leftarrow> LorieBuffer_description (pp_buffer v) (s_bs s);
            if d_type d = LORIEBUFFER_FD \<and> pp_imported v \<and> \<not> forceFlip s then Some (False, s)
            else do {
              e \<leftarrow> lorieEnsureGpuSampleable p (if legacyDrawing s then LORIEBUFFER_FD else LORIEBUFFER_AHARDWAREBUFFER) s;
              d' \<leftarrow> LorieBuffer_description (pp_buffer v) (s_bs (snd e));
              if d_type d' \<noteq> LORIEBUFFER_FD \<and> d_type d' \<noteq> LORIEBUFFER_AHARDWAREBUFFER then Some (False, snd e)
              else do {
                s' \<leftarrow> lorieRegisterBuffer n (pp_buffer v) (snd e);
                Some (True, s')
              }
            }
          })"

text \<open>The private record of a new pixmap with the pitch of its buffer, or nothing.\<close>

definition lorieCreatePixmap :: "i32 \<Rightarrow> i32 \<Rightarrow> bool \<Rightarrow> server \<Rightarrow> (LoriePixmapPriv option \<times> u32 \<times> server) option" where
  "lorieCreatePixmap w h backed s =
     (case os_call (s_bs s) of (ok, bs0) \<Rightarrow>
        let none = \<lparr>pp_buffer = 0, pp_flipped = False, pp_wasLocked = False, pp_imported = False,
              pp_locked = 0, pp_mem = 0\<rparr>;
            s0 = s\<lparr>s_bs := bs0\<rparr>
        in if \<not> ok then Some (None, 0, s0)
           else if w = 0 \<or> h = 0 then Some (Some none, 0, s0)
           else
             let ty = (if \<not> backed then LORIEBUFFER_REGULAR
                       else if legacyDrawing s then LORIEBUFFER_FD else LORIEBUFFER_AHARDWAREBUFFER) in
             (case LorieBuffer_allocate w h AHARDWAREBUFFER_FORMAT_R8G8B8X8_UNORM ty bs0 of (b, bs1) \<Rightarrow> do {
                d \<leftarrow> LorieBuffer_description b bs1;
                l \<leftarrow> LorieBuffer_lock b bs1;
                (case l of (_, out, bs2) \<Rightarrow>
                   Some (if b = 0 then None
                         else Some (none\<lparr>pp_buffer := b, pp_locked := (case out of Some a \<Rightarrow> a | None \<Rightarrow> 0)\<rparr>),
                         d_stride d * 4, s\<lparr>s_bs := bs2\<rparr>))
              }))"

definition lorieExaDestroyPixmap :: "(addr \<Rightarrow> int) \<Rightarrow> nat \<Rightarrow> nat \<Rightarrow> server \<Rightarrow> server option" where
  "lorieExaDestroyPixmap unlock_rc n p s =
     (case px_priv (s_pix s p) of
        None \<Rightarrow> None
      | Some v \<Rightarrow> do {
          s1 \<leftarrow>
            (if pp_buffer v = 0 then Some s
             else do {
               bs \<leftarrow> (if pp_locked v = 0 then Some (s_bs s)
                      else map_option snd (LorieBuffer_unlock unlock_rc (pp_buffer v) (s_bs s)));
               s1 \<leftarrow> lorieUnregisterBuffer n (pp_buffer v) (s\<lparr>s_bs := bs\<rparr>);
               bs2 \<leftarrow> LorieBuffer_release (pp_buffer v) (s_bs s1);
               Some (s1\<lparr>s_bs := bs2\<rparr>)
             });
          Some (s1\<lparr>s_pix := (s_pix s1)(p := (s_pix s1 p)\<lparr>px_priv := None\<rparr>)\<rparr>)
        })"

definition lorieModifyPixmapHeader :: "nat \<Rightarrow> addr \<Rightarrow> server \<Rightarrow> server" where
  "lorieModifyPixmapHeader p data s = (if data \<noteq> 0 then upd_priv p (\<lambda>v. v\<lparr>pp_mem := data\<rparr>) s else s)"

text \<open>\<open>lock_depth\<close> counts how often this process holds the recursive mutex of the shared state.\<close>

definition loriePrepareAccess :: "bool \<Rightarrow> nat \<Rightarrow> server \<Rightarrow> (bool \<times> server) option" where
  "loriePrepareAccess prepare_dest p s = do {
     v \<leftarrow> px_priv (s_pix s p);
     need \<leftarrow> lorieNeedsGpuLock prepare_dest p s;
     let s1 = (if need then s\<lparr>lock_depth := Suc (lock_depth s)\<rparr> else s);
     if pp_locked v = 0 \<and> pp_mem v = 0 then do {
       l \<leftarrow> LorieBuffer_lock (pp_buffer v) (s_bs s1);
       (case l of (err, out, bs) \<Rightarrow>
          let s2 = set_locked p out (s1\<lparr>s_bs := bs\<rparr>) in
          if err \<noteq> 0 then Some (False, s2)
          else do {
            v2 \<leftarrow> px_priv (s_pix s2 p);
            let s3 = upd_priv p (\<lambda>v. v\<lparr>pp_wasLocked := False\<rparr>) s2;
            Some (True, s3\<lparr>s_pix := (s_pix s3)(p := (s_pix s3 p)\<lparr>px_ptr :=
              (if pp_locked v2 \<noteq> 0 then pp_locked v2 else pp_mem v2)\<rparr>)\<rparr>)
          })
     }
     else
       let s3 = upd_priv p (\<lambda>v. v\<lparr>pp_wasLocked := True\<rparr>) s1 in
       Some (True, s3\<lparr>s_pix := (s_pix s3)(p := (s_pix s3 p)\<lparr>px_ptr :=
         (if pp_locked v \<noteq> 0 then pp_locked v else pp_mem v)\<rparr>)\<rparr>)
   }"

definition lorieFinishAccess :: "(addr \<Rightarrow> int) \<Rightarrow> bool \<Rightarrow> nat \<Rightarrow> server \<Rightarrow> server option" where
  "lorieFinishAccess unlock_rc prepare_dest p s = do {
     v \<leftarrow> px_priv (s_pix s p);
     need \<leftarrow> lorieNeedsGpuLock prepare_dest p s;
     let s1 = (if need then s\<lparr>lock_depth := lock_depth s - 1\<rparr> else s);
     if pp_wasLocked v then Some s1
     else do {
       u \<leftarrow> LorieBuffer_unlock unlock_rc (pp_buffer v) (s_bs s1);
       Some (upd_priv p (\<lambda>v. v\<lparr>pp_locked := 0, pp_wasLocked := False\<rparr>) (s1\<lparr>s_bs := snd u\<rparr>))
     }
   }"

section \<open>The renderer's side\<close>

text \<open>The lists of the renderer process and what it draws: for each copy the two buffers, the
  offset, the rectangles and whether channels are swapped.\<close>

record draw =
  dr_src :: addr
  dr_dst :: addr
  dr_off :: "u16 \<times> u16"
  dr_rects :: "LorieGpuCopyRect list"
  dr_swizzle :: bool

record rend =
  r_bs :: bstate
  addedBuffers :: addr
  buffers :: addr
  removedBuffers :: addr
  r_draws :: "draw list"

definition addBuffer :: "addr \<Rightarrow> rend \<Rightarrow> rend" where
  "addBuffer b r = r\<lparr>r_bs := LorieBuffer_addToList b (addedBuffers r) (r_bs r)\<rparr>"

definition removeBuffer :: "nat \<Rightarrow> u64 \<Rightarrow> rend \<Rightarrow> rend option" where
  "removeBuffer n i r = do {
     b \<leftarrow> LorieBufferList_findById n (addedBuffers r) i (r_bs r);
     if b \<noteq> 0 then do {
       bs \<leftarrow> LorieBuffer_release b (r_bs r);
       Some (r\<lparr>r_bs := bs\<rparr>)
     }
     else do {
       b' \<leftarrow> LorieBufferList_findById n (buffers r) i (r_bs r);
       Some (if b' \<noteq> 0
         then r\<lparr>r_bs := LorieBuffer_addToList b' (removedBuffers r) (LorieBuffer_removeFromList b' (r_bs r))\<rparr>
         else r)
     }
   }"

text \<open>\<open>while ((buf = LorieBufferList_first(&list))) LorieBuffer_release(buf)\<close>\<close>

partial_function (option) release_all :: "addr \<Rightarrow> bstate \<Rightarrow> bstate option" where
  "release_all l st =
     (if LorieBufferList_first l st = 0 then Some st
      else Option.bind (LorieBuffer_release (LorieBufferList_first l st) st) (release_all l))"

partial_function (option) move_all :: "addr \<Rightarrow> addr \<Rightarrow> bstate \<Rightarrow> bstate option" where
  "move_all l m st =
     (let b = LorieBufferList_first l st in
      if b = 0 then Some st
      else move_all l m (LorieBuffer_addToList b m (LorieBuffer_removeFromList b st)))"

definition removeAllBuffers :: "rend \<Rightarrow> rend option" where
  "removeAllBuffers r = do {
     bs1 \<leftarrow> release_all (addedBuffers r) (r_bs r);
     bs2 \<leftarrow> move_all (buffers r) (removedBuffers r) bs1;
     Some (r\<lparr>r_bs := bs2\<rparr>)
   }"

text \<open>One locked lookup; a buffer found among the added ones is attached first.\<close>

definition findBufferOnce :: "nat \<Rightarrow> u64 \<Rightarrow> rend \<Rightarrow> (addr \<times> rend) option" where
  "findBufferOnce n i r = do {
     b \<leftarrow> LorieBufferList_findById n (buffers r) i (r_bs r);
     if b \<noteq> 0 then Some (b, r)
     else do {
       a \<leftarrow> LorieBufferList_findById n (addedBuffers r) i (r_bs r);
       if a = 0 then Some (0, r)
       else do {
         bs \<leftarrow> LorieBuffer_attachToGL a True (fresh (r_bs r)) (of_nat (fresh (r_bs r))) (r_bs r);
         Some (a, r\<lparr>r_bs := LorieBuffer_addToList a (buffers r) bs\<rparr>)
       }
     }
   }"

text \<open>\<open>wait k\<close> is what other threads do to the lists during the \<open>k\<close>-th pause.\<close>

fun findBuffer_retry :: "nat \<Rightarrow> (nat \<Rightarrow> rend \<Rightarrow> rend) \<Rightarrow> nat \<Rightarrow> u64 \<Rightarrow> addr \<times> rend \<Rightarrow> (addr \<times> rend) option" where
  "findBuffer_retry 0 wait n i br = Some br"
| "findBuffer_retry (Suc k) wait n i br =
     (if fst br \<noteq> 0 then Some br
      else Option.bind (findBufferOnce n i (wait k (snd br))) (findBuffer_retry k wait n i))"

definition findBufferWithRetry :: "(nat \<Rightarrow> rend \<Rightarrow> rend) \<Rightarrow> nat \<Rightarrow> u64 \<Rightarrow> rend \<Rightarrow> (addr \<times> rend) option" where
  "findBufferWithRetry wait n i r = Option.bind (findBufferOnce n i r) (findBuffer_retry 20 wait n i)"

definition apply_entry :: "(nat \<Rightarrow> rend \<Rightarrow> rend) \<Rightarrow> nat \<Rightarrow> LorieGpuCopyEntry \<Rightarrow> rend \<Rightarrow> rend option" where
  "apply_entry wait n e r = do {
     (src, r1) \<leftarrow> findBufferWithRetry wait n (srcBufferId e) r;
     (dst, r2) \<leftarrow> findBufferWithRetry wait n (dstBufferId e) r1;
     if src = 0 \<or> dst = 0 then Some r2
     else do {
       bs \<leftarrow> LorieBuffer_bindTexture src (r_bs r2);
       a \<leftarrow> LorieBuffer_isRgba src bs;
       b \<leftarrow> LorieBuffer_isRgba dst bs;
       Some (r2\<lparr>r_bs := bs, r_draws := r_draws r2 @ [\<lparr>dr_src = src, dr_dst = dst, dr_off = (xOff e, yOff e),
         dr_rects = take (unat (numRects e)) (rects e), dr_swizzle = (a \<noteq> b)\<rparr>]\<rparr>)
     }
   }"

partial_function (option) apply_pending ::
    "(nat \<Rightarrow> rend \<Rightarrow> rend) \<Rightarrow> nat \<Rightarrow> u64 \<Rightarrow> gpuCopyQueue \<Rightarrow> rend \<Rightarrow> (u64 \<times> gpuCopyQueue \<times> rend) option" where
  "apply_pending wait n ls q r =
     (if ring_empty q then Some (ls, q, r)
      else Option.bind (apply_entry wait n (ring_head q) r)
        (apply_pending wait n (e_serial (ring_head q)) (ring_pop q)))"

definition applyPendingGpuCopiesLocked ::
    "(nat \<Rightarrow> rend \<Rightarrow> rend) \<Rightarrow> nat \<Rightarrow> gpuCopyQueue \<Rightarrow> rend \<Rightarrow> (u64 \<times> gpuCopyQueue \<times> rend) option" where
  "applyPendingGpuCopiesLocked wait n q r = (if ring_empty q then Some (0, q, r) else apply_pending wait n 0 q r)"

definition applyPendingGpuCopies ::
    "(nat \<Rightarrow> rend \<Rightarrow> rend) \<Rightarrow> nat \<Rightarrow> gpuCopyQueue \<Rightarrow> rend \<Rightarrow> (gpuCopyQueue \<times> rend) option" where
  "applyPendingGpuCopies wait n q r =
     (if ring_empty q then Some (q, r)
      else do {
        (serial, q', r') \<leftarrow> applyPendingGpuCopiesLocked wait n q r;
        Some (if serial \<noteq> 0 then q'\<lparr>completedSerial := serial\<rparr> else q', r')
      })"

section \<open>Counting references and marks\<close>

definition counts :: "bstate \<Rightarrow> addr \<Rightarrow> (u16 \<times> u32) option" where
  "counts st b = map_option (\<lambda>r. (refcount r, gpuCopyPending r)) (bufs st b)"

definition recount :: "addr \<Rightarrow> (u16 \<times> u32 \<Rightarrow> u16 \<times> u32) \<Rightarrow> (addr \<Rightarrow> (u16 \<times> u32) option) \<Rightarrow> addr \<Rightarrow> (u16 \<times> u32) option" where
  "recount b f m = m(b := map_option f (m b))"

lemma counts_bufs: "bufs s = bufs t \<Longrightarrow> counts s = counts t"
  by (simp add: counts_def fun_eq_iff)

lemma counts_simps [simp]:
  "counts (st\<lparr>blocks := x\<rparr>) = counts st" "counts (st\<lparr>fds := y\<rparr>) = counts st"
  "counts (st\<lparr>links := z\<rparr>) = counts st"
  by (simp_all add: counts_def fun_eq_iff)

lemma counts_upd_buf:
  assumes "\<And>r. (refcount (f r), gpuCopyPending (f r)) = g (refcount r, gpuCopyPending r)"
  shows "counts (upd_buf b f st) = recount b g (counts st)"
  using assms by (auto simp: counts_def upd_buf_def recount_def option.map_comp comp_def)

lemma recount_id: "recount b (\<lambda>x. x) m = m"
  by (simp add: recount_def option.map_ident)

lemma counts_upd_same:
  "(\<And>r. refcount (f r) = refcount r) \<Longrightarrow> (\<And>r. gpuCopyPending (f r) = gpuCopyPending r) \<Longrightarrow>
   counts (upd_buf b f st) = counts st"
  using counts_upd_buf [of f "\<lambda>x. x" b st] by (simp add: recount_id)

lemma bufs_os_call: "bufs (snd (os_call st)) = bufs st"
  by (simp add: os_call_def split: list.split)

lemma bufs_createRegion: "bufs (snd (LorieBuffer_createRegion len st)) = bufs st"
proof -
  have call: "bufs st' = bufs s" if "os_call s = (ok, st')" for ok st' s
    using that bufs_os_call [of s] by simp
  show ?thesis
    by (auto simp: LorieBuffer_createRegion_def open_region_def close_fd_def split: prod.splits dest!: call)
qed

lemma bufs_mmap: "bufs (snd (mmap_fd fd len off st)) = bufs st"
  using bufs_os_call [of st] by (auto simp: mmap_fd_def split: option.splits prod.splits)

lemma bufs_put_pixels: "bufs (put_pixels a xs st) = bufs st"
  by (simp add: put_pixels_def split: option.splits)

lemma bufs_blt: "pixman_blt src dst ss ds w h st = Some st' \<Longrightarrow> bufs st' = bufs st"
  by (auto simp: pixman_blt_def bufs_put_pixels split: if_splits option.splits)

lemma bufs_ahb: "bufs (snd (AHardwareBuffer_allocate w h f st)) = bufs st"
  using bufs_os_call [of st] by (auto simp: AHardwareBuffer_allocate_def split: prod.splits)

lemma counts_convert:
  assumes "LorieBuffer_convert b ty fmt st = Some st'"
  shows "counts st' = counts st"
proof -
  have fd: "counts t = counts s" if "convert_fd b r ty fmt s = Some t" for r s t
  proof -
    let ?len = "alignToPage (area_bytes (d_stride (desc r)) (d_height (desc r))) s"
    obtain fd s1 where 1: "LorieBuffer_createRegion ?len s = (fd, s1)" by (cases "LorieBuffer_createRegion ?len s")
    obtain a s2 where 2: "mmap_fd fd ?len 0 s1 = (a, s2)" by (cases "mmap_fd fd ?len 0 s1")
    have "bufs s1 = bufs s" "bufs s2 = bufs s1"
      using bufs_createRegion [of ?len s] bufs_mmap [of fd ?len 0 s1] 1 2 by simp_all
    with that 1 2 show ?thesis
      by (auto simp: convert_fd_def Let_def counts_upd_same free_pixels_def close_fd_def
          dest!: bufs_blt counts_bufs split: if_splits option.splits)
  qed
  have ahb: "counts t = counts s" if "convert_ahb b r ty fmt s = Some t" for r s t
  proof -
    let ?al = "if api26 s then AHardwareBuffer_allocate (d_width (desc r)) (d_height (desc r)) (word_of_int (sint fmt)) s else (None, s)"
    obtain a s1 where 1: "?al = (a, s1)" by (metis surj_pair)
    have "bufs s1 = bufs s" using bufs_ahb [of _ _ _ s] 1 by (auto split: if_splits) (metis snd_conv)
    with that 1 show ?thesis
      unfolding convert_ahb_def Let_def 1
      by (auto simp: counts_upd_same free_pixels_def dest!: bufs_blt counts_bufs split: if_splits option.splits)
  qed
  show ?thesis using assms fd ahb by (auto simp: LorieBuffer_convert_def split: if_splits option.splits)
qed

lemma counts_lock: "LorieBuffer_lock b st = Some (ret, out, st') \<Longrightarrow> counts st' = counts st"
  by (auto simp: LorieBuffer_lock_def counts_upd_same split: if_splits option.splits)

lemma counts_unlock: "LorieBuffer_unlock u b st = Some (ret, st') \<Longrightarrow> counts st' = counts st"
  by (auto simp: LorieBuffer_unlock_def counts_upd_same split: if_splits option.splits)

lemma counts_acquire:
  assumes "LorieBuffer_acquire b st = Some st'" and "b \<noteq> 0"
  shows "counts st' = recount b (\<lambda>(c, p). (c + 1, p)) (counts st) \<and> counts st b \<noteq> None"
proof -
  obtain r where r: "bufs st b = Some r" using assms by (auto simp: LorieBuffer_acquire_def split: option.splits)
  obtain pd where "LorieBuffer_acquire b st = Some (upd_buf b (\<lambda>r. r\<lparr>refcount := refcount r + 1, b_pad := pd\<rparr>) st)"
    by (rule acquire_count [OF r assms(2)])
  then have "st' = upd_buf b (\<lambda>r. r\<lparr>refcount := refcount r + 1, b_pad := pd\<rparr>) st" using assms(1) by simp
  then show ?thesis using r by (simp add: counts_upd_buf [where g = "\<lambda>(c, p). (c + 1, p)"]) (simp add: counts_def)
qed

lemma counts_inc:
  "LorieBuffer_gpuCopyPendingInc b st = Some st' \<Longrightarrow> b \<noteq> 0 \<Longrightarrow> counts st' = recount b (\<lambda>(c, p). (c, p + 1)) (counts st)"
  by (auto simp: LorieBuffer_gpuCopyPendingInc_def with_buf_def counts_upd_buf [where g = "\<lambda>(c, p). (c, p + 1)"])

lemma counts_dec:
  assumes "b = 0 \<or> counts st b \<noteq> None"
  obtains st' where "LorieBuffer_gpuCopyPendingDec b st = Some st'"
    and "counts st' = (if b = 0 then counts st else recount b (\<lambda>(c, p). (c, p - 1)) (counts st))"
proof (cases "b = 0")
  case True
  then show thesis by (intro that [of st]) (simp_all add: LorieBuffer_gpuCopyPendingDec_def with_buf_def)
next
  case False
  then obtain r where "bufs st b = Some r" using assms by (auto simp: counts_def)
  with False show thesis
    by (intro that [of "upd_buf b (\<lambda>r. r\<lparr>gpuCopyPending := gpuCopyPending r - 1\<rparr>) st"])
       (simp_all add: LorieBuffer_gpuCopyPendingDec_def with_buf_def counts_upd_buf [where g = "\<lambda>(c, p). (c, p - 1)"])
qed

lemma counts_release:
  assumes "b = 0 \<or> counts st b = Some (c, p) \<and> c \<noteq> 1"
  obtains st' where "LorieBuffer_release b st = Some st'"
    and "counts st' = (if b = 0 then counts st else recount b (\<lambda>(c, p). (c - 1, p)) (counts st))"
proof (cases "b = 0")
  case True
  then show thesis by (intro that [of st]) (simp_all add: LorieBuffer_release_def)
next
  case False
  then obtain r where "bufs st b = Some r" "refcount r \<noteq> 1" using assms by (auto simp: counts_def)
  with False show thesis
    by (intro that [of "upd_buf b (\<lambda>r. r\<lparr>refcount := refcount r - 1\<rparr>) st"])
       (simp_all add: LorieBuffer_release_def Let_def counts_upd_buf [where g = "\<lambda>(c, p). (c - 1, p)"])
qed

lemma counts_addToList: "counts (LorieBuffer_addToList b l st) = counts st"
  by (simp add: LorieBuffer_addToList_def)

text \<open>What preparing a copy leaves alone.\<close>

definition buffer_of :: "nat \<Rightarrow> server \<Rightarrow> addr" where
  "buffer_of p s = (case priv_of p s of None \<Rightarrow> 0 | Some v \<Rightarrow> pp_buffer v)"

lemma buffer_of_simps [simp]:
  "buffer_of q (s\<lparr>s_bs := a\<rparr>) = buffer_of q s" "buffer_of q (s\<lparr>rootGpuCopyPending := c\<rparr>) = buffer_of q s"
  "buffer_of q (s\<lparr>gpuCopyAttempts := d\<rparr>) = buffer_of q s" "buffer_of q (s\<lparr>gpuCopyOffloads := d\<rparr>) = buffer_of q s"
  "buffer_of q (s\<lparr>s_counter := d\<rparr>) = buffer_of q s" "buffer_of q (s\<lparr>s_queue := e\<rparr>) = buffer_of q s"
  by (simp_all add: buffer_of_def priv_of_def)

definition unaffected :: "server \<Rightarrow> server \<Rightarrow> bool" where
  "unaffected s s' \<longleftrightarrow> counts (s_bs s') = counts (s_bs s) \<and> s_queue s' = s_queue s \<and> s_counter s' = s_counter s \<and>
     s_root s' = s_root s \<and> rootGpuCopyPending s' = rootGpuCopyPending s \<and> (\<forall>q. buffer_of q s' = buffer_of q s)"

lemma unaffected_refl: "unaffected s s"
  by (simp add: unaffected_def)

lemma unaffected_trans: "unaffected s t \<Longrightarrow> unaffected t u \<Longrightarrow> unaffected s u"
  by (simp add: unaffected_def)

lemma unaffected_bs: "counts bs = counts (s_bs s) \<Longrightarrow> unaffected s (s\<lparr>s_bs := bs\<rparr>)"
  by (simp add: unaffected_def buffer_of_def priv_of_def)

lemma unaffected_locked: "unaffected s (set_locked p out s)"
  by (auto simp: unaffected_def set_locked_def buffer_of_def priv_of_def split: option.splits)

lemma unaffected_devKind: "unaffected s (set_devKind p k s)"
  by (simp add: unaffected_def set_devKind_def buffer_of_def priv_of_def)

lemma ensure_unaffected:
  assumes "lorieEnsureGpuSampleable p ty s = Some (b, s')"
  shows "unaffected s s'" and "b \<noteq> 0 \<Longrightarrow> b = buffer_of p s"
proof -
  show "b \<noteq> 0 \<Longrightarrow> b = buffer_of p s"
    using assms by (auto simp: lorieEnsureGpuSampleable_def buffer_of_def bind_eq_Some_conv split: option.splits if_splits)
  have conv: "unaffected s (s\<lparr>s_bs := bs\<rparr>)" if "LorieBuffer_convert c ty f (s_bs s) = Some bs" for c f bs
    using counts_convert [OF that] by (rule unaffected_bs)
  have lock: "unaffected s (set_locked p out (set_devKind p k (s\<lparr>s_bs := bs'\<rparr>)))"
    if "LorieBuffer_convert c ty f (s_bs s) = Some bs" "LorieBuffer_lock c bs = Some (ret, out, bs')" for c f bs ret out bs' k
  proof -
    have "unaffected s (s\<lparr>s_bs := bs'\<rparr>)"
      using counts_convert [OF that(1)] counts_lock [OF that(2)] by (intro unaffected_bs) simp
    then show ?thesis by (meson unaffected_trans unaffected_locked unaffected_devKind)
  qed
  show "unaffected s s'"
    using assms conv lock unaffected_refl
    by (auto simp: lorieEnsureGpuSampleable_def bind_eq_Some_conv split: option.splits if_splits)
qed

lemma relock_unaffected:
  assumes "relock u p s = Some s'"
  shows "unaffected s s'"
proof -
  have "unaffected s (set_locked p out (s\<lparr>s_bs := bs\<rparr>))"
    if "LorieBuffer_unlock u c (s_bs s) = Some (ret, bs1)" "LorieBuffer_lock c bs1 = Some (st, out, bs)" for c ret bs1 st out bs
  proof -
    have "unaffected s (s\<lparr>s_bs := bs\<rparr>)"
      using counts_unlock [OF that(1)] counts_lock [OF that(2)] by (intro unaffected_bs) simp
    then show ?thesis by (meson unaffected_trans unaffected_locked)
  qed
  then show ?thesis
    using assms unaffected_refl by (auto simp: relock_def bind_eq_Some_conv split: option.splits if_splits)
qed

lemma register_unaffected: "lorieRegisterBuffer n b s = Some s' \<Longrightarrow> unaffected s s'"
  by (auto simp: lorieRegisterBuffer_def bind_eq_Some_conv unaffected_def counts_addToList buffer_of_def priv_of_def
      split: if_splits)

definition held :: "addr \<Rightarrow> (addr \<Rightarrow> (u16 \<times> u32) option) \<Rightarrow> addr \<Rightarrow> (u16 \<times> u32) option" where
  "held b = recount b (\<lambda>(c, p). (c + 1, p + 1))"

lemma recount_twice: "recount b f (recount b g m) = recount b (\<lambda>x. f (g x)) m"
  by (simp add: recount_def option.map_comp comp_def)

lemma hold_one:
  assumes "lorieRegisterBuffer n b s = Some s1" and "LorieBuffer_acquire b (s_bs s1) = Some b1"
    and "LorieBuffer_gpuCopyPendingInc b b1 = Some b2" and "b \<noteq> 0"
  shows "counts b2 = held b (counts (s_bs s))" and "counts (s_bs s) b \<noteq> None" and "unaffected s s1"
proof -
  show u: "unaffected s s1" by (rule register_unaffected [OF assms(1)])
  have a: "counts b1 = recount b (\<lambda>(c, p). (c + 1, p)) (counts (s_bs s))" "counts (s_bs s) b \<noteq> None"
    using counts_acquire [OF assms(2,4)] u by (simp_all add: unaffected_def)
  then show "counts (s_bs s) b \<noteq> None" by simp
  show "counts b2 = held b (counts (s_bs s))"
    using counts_inc [OF assms(3,4)] a(1) by (simp add: recount_twice held_def case_prod_unfold)
qed

lemma hold_buffers_spec:
  assumes "hold_buffers n src dst root s = Some s'" and "src \<noteq> 0" and "dst \<noteq> 0"
  shows "counts (s_bs s') = (if root then held src (counts (s_bs s)) else held dst (held src (counts (s_bs s))))"
    and "counts (s_bs s) src \<noteq> None" and "\<not> root \<Longrightarrow> counts (s_bs s) dst \<noteq> None"
    and "s_queue s' = s_queue s" and "s_counter s' = s_counter s" and "buffer_of q s' = buffer_of q s"
    and "rootGpuCopyPending s' = rootGpuCopyPending s + (if root then 1 else 0)"
proof -
  obtain s1 b1 b2 where 1: "lorieRegisterBuffer n src s = Some s1" "LorieBuffer_acquire src (s_bs s1) = Some b1"
    "LorieBuffer_gpuCopyPendingInc src b1 = Some b2"
    using assms(1) by (auto simp: hold_buffers_def Let_def bind_eq_Some_conv)
  note h1 = hold_one [OF 1 assms(2)]
  let ?s2 = "s1\<lparr>s_bs := b2\<rparr>"
  show "counts (s_bs s) src \<noteq> None" by (rule h1(2))
  have "counts (s_bs s') = (if root then held src (counts (s_bs s)) else held dst (held src (counts (s_bs s)))) \<and>
    (\<not> root \<longrightarrow> counts (s_bs s) dst \<noteq> None) \<and> s_queue s' = s_queue s \<and> s_counter s' = s_counter s \<and>
    buffer_of q s' = buffer_of q s \<and> rootGpuCopyPending s' = rootGpuCopyPending s + (if root then 1 else 0)"
  proof (cases root)
    case True
    then have "s' = ?s2\<lparr>rootGpuCopyPending := rootGpuCopyPending ?s2 + 1\<rparr>"
      using assms(1) 1 by (simp add: hold_buffers_def Let_def)
    then show ?thesis using h1 True by (simp add: unaffected_def)
  next
    case False
    obtain s3 b3 b4 where 3: "lorieRegisterBuffer n dst ?s2 = Some s3" "LorieBuffer_acquire dst (s_bs s3) = Some b3"
      "LorieBuffer_gpuCopyPendingInc dst b3 = Some b4" "s' = s3\<lparr>s_bs := b4\<rparr>"
      using assms(1) 1 False by (auto simp: hold_buffers_def Let_def bind_eq_Some_conv)
    note h3 = hold_one [OF 3(1-3) assms(3)]
    have "counts (s_bs s) dst \<noteq> None"
      using h3(2) h1(1) by (auto simp: held_def recount_def split: if_splits)
    then show ?thesis using h1 h3 False 3(4) by (simp add: unaffected_def)
  qed
  then show "counts (s_bs s') = (if root then held src (counts (s_bs s)) else held dst (held src (counts (s_bs s))))"
    "\<not> root \<Longrightarrow> counts (s_bs s) dst \<noteq> None" "s_queue s' = s_queue s" "s_counter s' = s_counter s"
    "buffer_of q s' = buffer_of q s" "rootGpuCopyPending s' = rootGpuCopyPending s + (if root then 1 else 0)"
    by blast+
qed

lemma schedule_success:
  assumes "lorieTryScheduleGpuCopy u n p dst update x y s = Some (Some (serial, d), s')"
  obtains s2 s3 sid did box where "unaffected s s2" and "buffer_of p s \<noteq> 0" and "buffer_of dst s \<noteq> 0"
    and "box \<noteq> []" and "length box \<le> LORIE_GPU_COPY_MAX_RECTS" and "\<not> ring_full (s_queue s)"
    and "hold_buffers n (buffer_of p s) (buffer_of dst s) (dst = s_root s) s2 = Some s3"
    and "serial = s_counter s + 1" and "d = (if dst = s_root s then 0 else buffer_of dst s)"
    and "s' = (attempt s3)\<lparr>s_counter := serial, s_queue := ring_push serial sid did x y box (s_queue s3),
           gpuCopyOffloads := gpuCopyOffloads s3 + 1\<rparr>"
proof -
  obtain a sa b sb s2 desc dstDesc where *:
    "lorieEnsureGpuSampleable p LORIEBUFFER_AHARDWAREBUFFER s = Some (a, sa)" "a \<noteq> 0"
    "lorieEnsureGpuSampleable dst LORIEBUFFER_AHARDWAREBUFFER sa = Some (b, sb)" "b \<noteq> 0"
    "relock u p sb = Some s2" "LorieBuffer_description a (s_bs s2) = Some desc"
    "LorieBuffer_description b (s_bs s2) = Some dstDesc"
    using assms by (auto simp: lorieTryScheduleGpuCopy_def bind_eq_Some_conv split: if_splits)
  define box where "box = (case update of Some rs \<Rightarrow> rs | None \<Rightarrow> [full_box (s_pix s2 p)])"
  have ua: "unaffected s sa" "a = buffer_of p s" using ensure_unaffected [OF *(1)] *(2) by auto
  have ub: "unaffected sa sb" "b = buffer_of dst sa" using ensure_unaffected [OF *(3)] *(4) by auto
  have u2: "unaffected s s2"
    using ua(1) ub(1) relock_unaffected [OF *(5)] by (meson unaffected_trans)
  have b: "b = buffer_of dst s" using ub(2) ua(1) by (simp add: unaffected_def)
  have eq: "s_root s2 = s_root s" "s_queue s2 = s_queue s" "s_counter s2 = s_counter s"
    using u2 by (simp_all add: unaffected_def)
  have g: "box \<noteq> []" "length box \<le> LORIE_GPU_COPY_MAX_RECTS" "\<not> ring_full (s_queue s2)"
    using assms * unfolding lorieTryScheduleGpuCopy_def
    by (auto simp: box_def [symmetric] split: if_splits)
  then obtain s3 where s3: "hold_buffers n a b (dst = s_root s2) s2 = Some s3"
    "serial = s_counter s3 + 1" "d = (if dst = s_root s2 then 0 else b)"
    "s' = (attempt s3)\<lparr>s_counter := serial, s_queue := ring_push serial (d_id desc) (d_id dstDesc) x y box (s_queue s3),
           gpuCopyOffloads := gpuCopyOffloads s3 + 1\<rparr>"
    using assms * unfolding lorieTryScheduleGpuCopy_def
    by (auto simp: box_def [symmetric] Let_def bind_eq_Some_conv split: if_splits)
  have "s_counter s3 = s_counter s" using hold_buffers_spec(5) [OF s3(1) *(2,4)] eq by simp
  with s3 u2 ua b g eq *(2,4) show thesis by (intro that [of s2 box s3 "d_id desc" "d_id dstDesc"]) simp_all
qed

lemma ack_spec:
  assumes m1: "counts (s_bs s) = (if d = 0 then held b m else held d (held b m))"
    and b: "buffer_of p s = b" "b \<noteq> 0" "m b = Some (c, k)" "c \<noteq> 0" "c \<noteq> - 1"
    and d: "d = 0 \<or> m d = Some (c', k') \<and> c' \<noteq> 0 \<and> c' \<noteq> - 1"
  shows "\<exists>s'. lorieGpuCopyAck p d s = Some s' \<and> counts (s_bs s') = m \<and>
    s_queue s' = s_queue s \<and>
    rootGpuCopyPending s' = (if d = 0 then rootGpuCopyPending s - 1 else rootGpuCopyPending s)"
proof -
  have ne: "c + 1 \<noteq> 1" "c + 1 + 1 \<noteq> 1" using b(4,5) by (auto simp: add_eq_0_iff)
  have c2: "c + 2 \<noteq> 1" using ne(2) by (simp add: add.assoc)
  have ne': "c' + 1 \<noteq> 1" if "d \<noteq> 0" using d that by auto
  obtain b1 where 1: "LorieBuffer_gpuCopyPendingDec b (s_bs s) = Some b1"
    "counts b1 = recount b (\<lambda>(c, p). (c, p - 1)) (counts (s_bs s))"
    using counts_dec [of b "s_bs s"] m1 b by (auto simp: held_def recount_def split: if_splits)
  obtain b2 where 2: "LorieBuffer_gpuCopyPendingDec d b1 = Some b2"
    "counts b2 = (if d = 0 then counts b1 else recount d (\<lambda>(c, p). (c, p - 1)) (counts b1))"
    by (rule counts_dec [of d b1]) (use 1(2) m1 b d in \<open>auto simp: held_def recount_def split: if_splits\<close>)
  have m2: "counts b2 b = Some (if d = b then c + 1 + 1 else c + 1, k)"
    using 1(2) 2(2) m1 b(2,3) d by (auto simp: held_def recount_def)
  obtain b3 where 3: "LorieBuffer_release b b2 = Some b3"
    "counts b3 = recount b (\<lambda>(c, p). (c - 1, p)) (counts b2)"
    using counts_release [of b b2 "if d = b then c + 1 + 1 else c + 1" k] m2 ne b(2) by (auto split: if_splits)
  have m3: "d = 0 \<or> counts b3 d = Some (c' + 1, k')"
    using 1(2) 2(2) 3(2) m1 b(2,3) d by (auto simp: held_def recount_def)
  obtain b4 where 4: "LorieBuffer_release d b3 = Some b4"
    "counts b4 = (if d = 0 then counts b3 else recount d (\<lambda>(c, p). (c - 1, p)) (counts b3))"
    by (rule counts_release [of d b3 "c' + 1" k']) (use m3 ne' in auto)
  have "counts b4 = m"
    using 1(2) 2(2) 3(2) 4(2) m1 b(2,3) d by (auto simp: held_def recount_def fun_eq_iff)
  moreover have "(case priv_of p s of None \<Rightarrow> 0 | Some v \<Rightarrow> pp_buffer v) = b" using b(1) by (simp add: buffer_of_def)
  ultimately show ?thesis
    using 1(1) 2(1) 3(1) 4(1) by (simp add: lorieGpuCopyAck_def Let_def)
qed

text \<open>C23: A scheduled copy is the last entry of the queue and holds both its buffers until it is
  acknowledged: they are marked as busy for the CPU, and acknowledging restores every reference
  count and every mark to what it was before, without freeing anything. (Counts are below 65535.)\<close>

theorem lorieTryScheduleGpuCopy_balanced:
  assumes "lorieTryScheduleGpuCopy u n p dst update x y s = Some (Some (serial, d), s1)"
    and "ring_inv (s_queue s)"
    and "\<And>b c k. counts (s_bs s) b = Some (c, k) \<Longrightarrow> c \<noteq> 0 \<and> c \<noteq> - 1 \<and> k < 0xfffffffe"
  shows "(\<exists>e. pending (s_queue s1) = pending (s_queue s) @ [e] \<and> e_serial e = serial) \<and>
    LorieBuffer_hasGpuCopyPending (buffer_of p s) (s_bs s1) = Some True \<and>
    (\<exists>s2. lorieGpuCopyAck p d s1 = Some s2 \<and> counts (s_bs s2) = counts (s_bs s) \<and>
      rootGpuCopyPending s2 = rootGpuCopyPending s \<and> s_queue s2 = s_queue s1)"
proof (intro conjI)
  obtain s2 s3 sid did box where u: "unaffected s s2" and nz: "buffer_of p s \<noteq> 0" "buffer_of dst s \<noteq> 0"
    and box: "box \<noteq> []" "length box \<le> LORIE_GPU_COPY_MAX_RECTS" "\<not> ring_full (s_queue s)"
    and h: "hold_buffers n (buffer_of p s) (buffer_of dst s) (dst = s_root s) s2 = Some s3"
    and d: "d = (if dst = s_root s then 0 else buffer_of dst s)"
    and s1: "s1 = (attempt s3)\<lparr>s_counter := serial, s_queue := ring_push serial sid did x y box (s_queue s3),
           gpuCopyOffloads := gpuCopyOffloads s3 + 1\<rparr>"
    by (rule schedule_success [OF assms(1)])
  let ?m = "counts (s_bs s)" and ?b = "buffer_of p s"
  note hs = hold_buffers_spec [OF h nz]
  have m2: "counts (s_bs s2) = ?m" "s_queue s2 = s_queue s" "rootGpuCopyPending s2 = rootGpuCopyPending s"
    "buffer_of p s2 = buffer_of p s" using u by (simp_all add: unaffected_def)
  have q: "s_queue s3 = s_queue s" using hs(4) m2 by simp
  have bs1: "s_bs s1 = s_bs s3" "buffer_of p s1 = ?b" "rootGpuCopyPending s1 = rootGpuCopyPending s3"
    using hs(6) m2(4) by (simp_all add: s1 attempt_def)
  have cnt: "counts (s_bs s1) = (if d = 0 then held ?b ?m else held d (held ?b ?m))"
    using hs(1) m2(1) bs1(1) d nz by auto
  obtain c k where ck: "?m ?b = Some (c, k)" using hs(2) m2(1) by (cases "?m ?b") auto
  have dd: "d = 0 \<or> (\<exists>c' k'. ?m d = Some (c', k'))" using hs(3) m2(1) d by auto
  show "\<exists>e. pending (s_queue s1) = pending (s_queue s) @ [e] \<and> e_serial e = serial"
    using ring.content_push [of "s_queue s" "(serial, sid, did, x, y, box)"] assms(2) box q
    by (simp add: s1 push_req_def made_entry_def req_ok_def fill_entry_def)
  have "k \<noteq> - 1" "k \<noteq> - 2" using assms(3) [OF ck] by auto
  then have "k + 1 \<noteq> 0" "k + 1 + 1 \<noteq> 0"
    by (simp_all add: eq_neg_iff_add_eq_0 add.assoc)
  then have "\<exists>c' k'. counts (s_bs s1) ?b = Some (c', k') \<and> k' \<noteq> 0"
    using cnt ck by (auto simp: held_def recount_def)
  then show "LorieBuffer_hasGpuCopyPending ?b (s_bs s1) = Some True"
    using nz(1) by (auto simp: LorieBuffer_hasGpuCopyPending_def counts_def)
  have "\<exists>s2. lorieGpuCopyAck p d s1 = Some s2 \<and> counts (s_bs s2) = ?m \<and> s_queue s2 = s_queue s1 \<and>
      rootGpuCopyPending s2 = (if d = 0 then rootGpuCopyPending s1 - 1 else rootGpuCopyPending s1)"
    using dd
  proof
    assume "d = 0"
    then show ?thesis using ack_spec [OF cnt bs1(2) nz(1) ck] assms(3) [OF ck] by simp
  next
    assume "\<exists>c' k'. ?m d = Some (c', k')"
    then obtain c' k' where "?m d = Some (c', k')" by blast
    then show ?thesis using ack_spec [OF cnt bs1(2) nz(1) ck, of c' k'] assms(3) [OF ck] assms(3) [of d c' k'] by simp
  qed
  then show "\<exists>s2. lorieGpuCopyAck p d s1 = Some s2 \<and> counts (s_bs s2) = ?m \<and>
      rootGpuCopyPending s2 = rootGpuCopyPending s \<and> s_queue s2 = s_queue s1"
    using hs(7) m2(3) bs1(3) d nz by (auto split: if_splits)
qed

definition ahb_buf :: "u64 \<Rightarrow> addr \<Rightarrow> LorieBuffer" where
  "ahb_buf i a = \<lparr>refcount = 1, b_pad = 0, desc = \<lparr>d_width = 2, d_height = 2, d_stride = 2, d_format = 2,
     d_type = LORIEBUFFER_AHARDWAREBUFFER, d_id = i, d_buffer = a, d_data = 0\<rparr>, locked = 0, lockedData = 0,
     b_fd = - 1, b_size = 0, b_offset = 0, gltex = 0, image = 0, gpuCopyPending = 0\<rparr>"

definition pix_of :: "addr \<Rightarrow> pixmap" where
  "pix_of b = \<lparr>px_priv = (if b = 0 then None else Some \<lparr>pp_buffer = b, pp_flipped = False, pp_wasLocked = False,
     pp_imported = False, pp_locked = 0, pp_mem = 0\<rparr>), px_width = 2, px_height = 2, px_devKind = 8, px_ptr = 0\<rparr>"

definition server0 :: server where
  "server0 = \<lparr>s_bs = bst0\<lparr>bufs := [2 \<mapsto> ahb_buf 0 1, 4 \<mapsto> ahb_buf 1 3]\<rparr>,
     s_pix = (\<lambda>p. if p = 11 then pix_of 2 else if p = 12 then pix_of 4 else pix_of 0), s_root = 12,
     s_queue = ring_at 0, s_counter = 0, rootGpuCopyPending = 0, gpuCopyAttempts = 0, gpuCopyOffloads = 0,
     gpuPresentDisabled = False, legacyDrawing = False, surfaceAvailable = True, conn_fd = 5, pollOk = True,
     registeredBuffers = 100, s_out = [], root_width = 2, root_height = 2, forceFlip = False, lock_depth = 0\<rparr>"

lemma server0_schedules:
  obtains s1 where "lorieTryScheduleGpuCopy (\<lambda>_. 0) 9 11 12 (Some [no_rect]) 0 0 server0 = Some (Some (1, 0), s1)"
proof -
  have e: "lorieEnsureGpuSampleable 11 LORIEBUFFER_AHARDWAREBUFFER server0 = Some (2, server0)"
    "lorieEnsureGpuSampleable 12 LORIEBUFFER_AHARDWAREBUFFER server0 = Some (4, server0)"
    by (simp_all add: lorieEnsureGpuSampleable_def priv_of_def server0_def pix_of_def LorieBuffer_description_def
        ahb_buf_def buffer_consts)
  have r: "relock (\<lambda>_. 0) 11 server0 = Some server0"
    by (simp add: relock_def priv_of_def server0_def pix_of_def)
  have d: "LorieBuffer_description 2 (s_bs server0) = Some (desc (ahb_buf 0 1))"
    "LorieBuffer_description 4 (s_bs server0) = Some (desc (ahb_buf 1 3))"
    by (simp_all add: LorieBuffer_description_def server0_def)
  have f: "LorieBufferList_findById 9 100 0 (s_bs server0) = Some 0"
    using findById_spec [of "s_bs server0" 100 "[]" 9 0]
    by (simp add: xl_list_def) (simp add: server0_def bst0_def)
  obtain s3 where h: "hold_buffers 9 2 4 True server0 = Some s3" "s_counter s3 = 0"
    using f by (simp add: hold_buffers_def lorieRegisterBuffer_def LorieBuffer_description_def
        LorieBuffer_sendHandleToUnixSocket_def LorieBuffer_acquire_def LorieBuffer_gpuCopyPendingInc_def with_buf_def
        upd_buf_def LorieBuffer_addToList_def Let_def server0_def ahb_buf_def buffer_consts)
  have g: "\<not> gpuPresentDisabled server0" "\<not> legacyDrawing server0" "lorieConnectionAlive server0"
    "lorieRendererAvailable server0" "s_root server0 = 12" "\<not> ring_full (s_queue server0)"
    by (simp_all add: server0_def lorieConnectionAlive_def lorieRendererAvailable_def ring_at_inv)
  show thesis
    by (rule that) (simp add: lorieTryScheduleGpuCopy_def g e r d h ring_consts Let_def)
qed

theorem lorieTryScheduleGpuCopy_balanced_witness:
  "\<exists>s1 s2. lorieTryScheduleGpuCopy (\<lambda>_. 0) 9 11 12 (Some [no_rect]) 0 0 server0 = Some (Some (1, 0), s1) \<and>
     lorieGpuCopyAck 11 0 s1 = Some s2 \<and> counts (s_bs s2) = counts (s_bs server0)"
proof -
  obtain s1 where s1: "lorieTryScheduleGpuCopy (\<lambda>_. 0) 9 11 12 (Some [no_rect]) 0 0 server0 = Some (Some (1, 0), s1)"
    by (rule server0_schedules)
  have q: "ring_inv (s_queue server0)" by (simp add: server0_def ring_at_inv)
  have c: "c \<noteq> 0 \<and> c \<noteq> - 1 \<and> k < 0xfffffffe" if "counts (s_bs server0) b = Some (c, k)" for b c k
    using that by (auto simp: counts_def server0_def ahb_buf_def split: if_splits)
  have "\<exists>s2. lorieGpuCopyAck 11 0 s1 = Some s2 \<and> counts (s_bs s2) = counts (s_bs server0) \<and>
      rootGpuCopyPending s2 = rootGpuCopyPending server0 \<and> s_queue s2 = s_queue s1"
    by (rule conjunct2 [OF conjunct2 [OF lorieTryScheduleGpuCopy_balanced [OF s1 q]]]) (rule c)
  with s1 show ?thesis by auto
qed

text \<open>A pixmap of exactly the size of the screen is never flipped unless the screen is a square:
  the height is compared with the width of the screen.\<close>

theorem loriePresentFlip_not_square:
  assumes "root_width s = ucast (px_width (s_pix s p))" and "root_height s = ucast (px_height (s_pix s p))"
    and "root_width s \<noteq> root_height s"
  shows "loriePresentFlip n p s = Some (False, s)"
  using assms by (auto simp: loriePresentFlip_def split: option.splits)

theorem loriePresentFlip_not_square_witness:
  "loriePresentFlip 1 1 (server0\<lparr>root_height := 3, s_pix := (\<lambda>p. (pix_of 2)\<lparr>px_height := 3\<rparr>)\<rparr>) =
     Some (False, server0\<lparr>root_height := 3, s_pix := (\<lambda>p. (pix_of 2)\<lparr>px_height := 3\<rparr>)\<rparr>)"
  by (rule loriePresentFlip_not_square) (simp_all add: server0_def pix_of_def)

section \<open>The renderer's lists\<close>

lemma drop_store_links: "links (drop_store d fd s) = links s"
  by (auto simp: drop_store_def free_pixels_def close_fd_def munmap_at_def AHardwareBuffer_release_def
      split: option.splits)

lemma free_links:
  "LorieBuffer_free b st = Some st' \<Longrightarrow> b \<noteq> 0 \<Longrightarrow>
   links st' = xorg_list_del b (links st) \<and> bufs st' = (bufs st)(b := None)"
  by (auto simp: LorieBuffer_free_def Let_def drop_store_links split: option.splits)

text \<open>How many releases it takes until a buffer is freed.\<close>

definition releases_left :: "LorieBuffer \<Rightarrow> nat" where
  "releases_left r = (if refcount r = 0 then 2 ^ 16 else unat (refcount r))"

lemma releases_left_step:
  assumes "releases_left r = Suc (Suc n)"
  shows "refcount r \<noteq> 1" and "releases_left (r\<lparr>refcount := refcount r - 1\<rparr>) = Suc n"
proof -
  show "refcount r \<noteq> 1" using assms by (auto simp: releases_left_def)
  show "releases_left (r\<lparr>refcount := refcount r - 1\<rparr>) = Suc n"
  proof (cases "refcount r = 0")
    case True
    moreover have "unat (- 1 :: u16) = 65535" by (simp add: unsigned_minus_1_eq_mask mask_eq_exp_minus_1)
    ultimately show ?thesis using assms by (simp add: releases_left_def)
  next
    case False
    then have "unat (refcount r - 1) = Suc n" using assms by (simp add: releases_left_def unat_minus_one)
    then show ?thesis by (auto simp: releases_left_def)
  qed
qed

lemma release_all_head:
  assumes "bufs st x = Some r" and "releases_left r = Suc n" and "xl_list (links st) l (x # xs)" and "x \<noteq> 0"
  shows "\<exists>st1. release_all l st = release_all l st1 \<and> links st1 = xorg_list_del x (links st) \<and>
    bufs st1 = (bufs st)(x := None)"
  using assms
proof (induction n arbitrary: st r)
  case 0
  have f: "LorieBufferList_first l st = x"
    using 0 xl_is_empty [OF 0(3)] xl_first [OF 0(3)] by (simp add: LorieBufferList_first_def)
  have "refcount r = 1"
    using 0(2) word_unat_eq_iff [of "refcount r" 1] by (auto simp: releases_left_def split: if_splits)
  then have rel: "LorieBuffer_release x st = LorieBuffer_free x (upd_buf x (\<lambda>r. r\<lparr>refcount := refcount r - 1\<rparr>) st)"
    using 0 by (simp add: LorieBuffer_release_def Let_def)
  obtain st1 where st1: "LorieBuffer_free x (upd_buf x (\<lambda>r. r\<lparr>refcount := refcount r - 1\<rparr>) st) = Some st1"
    using 0 by (simp add: LorieBuffer_free_def upd_buf_def Let_def)
  have "release_all l st = release_all l st1"
    using f rel st1 0(4) by (subst release_all.simps) simp
  with free_links [OF st1 0(4)] show ?case by (auto simp: upd_buf_def)
next
  case (Suc n)
  have f: "LorieBufferList_first l st = x"
    using Suc.prems xl_is_empty [OF Suc.prems(3)] xl_first [OF Suc.prems(3)] by (simp add: LorieBufferList_first_def)
  let ?st = "upd_buf x (\<lambda>r. r\<lparr>refcount := refcount r - 1\<rparr>) st"
  have "LorieBuffer_release x st = Some ?st"
    using Suc.prems releases_left_step(1) [OF Suc.prems(2)] by (simp add: LorieBuffer_release_def Let_def)
  then have r: "release_all l st = release_all l ?st"
    using f Suc.prems(4) by (subst release_all.simps) simp
  have "\<exists>st1. release_all l ?st = release_all l st1 \<and> links st1 = xorg_list_del x (links ?st) \<and>
    bufs st1 = (bufs ?st)(x := None)"
    by (rule Suc.IH [of _ "r\<lparr>refcount := refcount r - 1\<rparr>"])
       (use Suc.prems releases_left_step(2) [OF Suc.prems(2)] in \<open>simp_all add: upd_buf_def\<close>)
  moreover have "(bufs ?st)(x := None) = (bufs st)(x := None)" "links ?st = links st"
    by (simp_all add: upd_buf_def)
  ultimately show ?case unfolding r by (simp only:)
qed

text \<open>Other lists of the process, as heads with their entries, are not disturbed.\<close>

lemma release_all_empties:
  assumes "xl_list (links st) l xs" and "\<And>x. x \<in> set xs \<Longrightarrow> bufs st x \<noteq> None" and "0 \<notin> set xs"
    and "\<And>m zs. (m, zs) \<in> oth \<Longrightarrow> xl_list (links st) m zs \<and> set (m # zs) \<inter> set (l # xs) = {}"
  shows "\<exists>st'. release_all l st = Some st' \<and> xl_list (links st') l [] \<and>
    bufs st' = (\<lambda>a. if a \<in> set xs then None else bufs st a) \<and> (\<forall>(m, zs) \<in> oth. xl_list (links st') m zs)"
  using assms
proof (induction xs arbitrary: st)
  case Nil
  then have "LorieBufferList_first l st = 0" by (simp add: LorieBufferList_first_def xl_is_empty)
  then have "release_all l st = Some st" by (subst release_all.simps) simp
  with Nil show ?case by auto
next
  case (Cons x xs)
  obtain r where r: "bufs st x = Some r" using Cons.prems(2) [of x] by auto
  obtain n where n: "releases_left r = Suc n"
    by (cases "releases_left r") (auto simp: releases_left_def unat_eq_0 split: if_splits)
  obtain st1 where st1: "release_all l st = release_all l st1" "links st1 = xorg_list_del x (links st)"
    "bufs st1 = (bufs st)(x := None)"
    using release_all_head [OF r n Cons.prems(1)] Cons.prems(3) by auto
  have l1: "xl_list (links st1) l xs" using xl_del [of "links st" l "[]" x xs] Cons.prems(1) st1(2) by simp
  have x: "x \<notin> set xs" using Cons.prems(1) by (simp add: xl_list_def)
  have "\<exists>st'. release_all l st1 = Some st' \<and> xl_list (links st') l [] \<and>
    bufs st' = (\<lambda>a. if a \<in> set xs then None else bufs st1 a) \<and> (\<forall>(m, zs) \<in> oth. xl_list (links st') m zs)"
  proof (rule Cons.IH [OF l1])
    show "bufs st1 a \<noteq> None" if "a \<in> set xs" for a using that Cons.prems(2) [of a] x st1(3) by auto
    show "0 \<notin> set xs" using Cons.prems(3) by simp
    show "xl_list (links st1) m zs \<and> set (m # zs) \<inter> set (l # xs) = {}" if "(m, zs) \<in> oth" for m zs
      using Cons.prems(4) [OF that] xl_del_frame [of "links st" m zs l "[]" x xs] Cons.prems(1) st1(2) by auto
  qed
  then show ?case using st1 x by (auto simp: fun_eq_iff)
qed

lemma move_all_moves:
  assumes "xl_list (links st) l xs" and "xl_list (links st) m zs" and "distinct (l # xs @ m # zs)" and "0 \<notin> set (m # xs)"
    and "\<And>k ws. (k, ws) \<in> oth \<Longrightarrow> xl_list (links st) k ws \<and> set (k # ws) \<inter> set (l # xs @ m # zs) = {}"
  shows "\<exists>st'. move_all l m st = Some st' \<and> xl_list (links st') l [] \<and> xl_list (links st') m (rev xs @ zs) \<and>
    bufs st' = bufs st \<and> (\<forall>(k, ws) \<in> oth. xl_list (links st') k ws)"
  using assms
proof (induction xs arbitrary: st zs)
  case Nil
  then have "LorieBufferList_first l st = 0" by (simp add: LorieBufferList_first_def xl_is_empty)
  then have "move_all l m st = Some st" by (subst move_all.simps) simp
  with Nil show ?case by auto
next
  case (Cons x xs)
  let ?st = "LorieBuffer_addToList x m (LorieBuffer_removeFromList x st)"
  have f: "LorieBufferList_first l st = x"
    using xl_is_empty [OF Cons.prems(1)] xl_first [OF Cons.prems(1)] by (simp add: LorieBufferList_first_def)
  have lk: "links ?st = xorg_list_add x m (xorg_list_del x (links st))" and bf: "bufs ?st = bufs st"
    using Cons.prems(4) xl_del_detached [OF xl_del_self [of x "links st"]]
    by (simp_all add: LorieBuffer_addToList_def LorieBuffer_removeFromList_def)
  have mv: "xl_list (links ?st) l xs" "xl_list (links ?st) m (x # zs)"
    using xl.move_between [of "links st" l "[]" x xs m zs] Cons.prems(1-3) lk by auto
  have step: "move_all l m st = move_all l m ?st"
    using f Cons.prems(4) by (subst move_all.simps) (simp add: Let_def)
  have "\<exists>st'. move_all l m ?st = Some st' \<and> xl_list (links st') l [] \<and> xl_list (links st') m (rev xs @ x # zs) \<and>
    bufs st' = bufs ?st \<and> (\<forall>(k, ws) \<in> oth. xl_list (links st') k ws)"
  proof (rule Cons.IH [OF mv])
    show "distinct (l # xs @ m # x # zs)" "0 \<notin> set (m # xs)" using Cons.prems(3,4) by auto
    show "xl_list (links ?st) k ws \<and> set (k # ws) \<inter> set (l # xs @ m # x # zs) = {}" if "(k, ws) \<in> oth" for k ws
    proof -
      note o = Cons.prems(5) [OF that]
      have d: "xl_list (xorg_list_del x (links st)) k ws"
        using xl_del_frame [of "links st" k ws l "[]" x xs] o Cons.prems(1) by auto
      have dm: "xl_list (xorg_list_del x (links st)) m zs"
        using xl_del_frame [of "links st" m zs l "[]" x xs] Cons.prems(1-3) by auto
      have "xl_list (links ?st) k ws" unfolding lk
        by (rule xl_add_frame [OF d dm]) (use o in auto)
      with o show ?thesis by auto
    qed
  qed
  then show ?case using step bf by simp
qed

text \<open>C25: Dropping all buffers terminates, whatever the reference counts are: the buffers not yet
  attached are freed, the attached ones are handed to the renderer thread in the list of removed
  buffers, and both source lists are empty afterwards.\<close>

theorem removeAllBuffers_empties:
  assumes "xl_list (links (r_bs r)) (addedBuffers r) xs" and "xl_list (links (r_bs r)) (buffers r) ys"
    and "xl_list (links (r_bs r)) (removedBuffers r) zs"
    and "distinct (addedBuffers r # xs @ buffers r # ys @ removedBuffers r # zs)"
    and "0 \<notin> set (removedBuffers r # xs @ ys)" and "\<And>x. x \<in> set xs \<Longrightarrow> bufs (r_bs r) x \<noteq> None"
  shows "\<exists>r'. removeAllBuffers r = Some r' \<and> xl_list (links (r_bs r')) (addedBuffers r') [] \<and>
    xl_list (links (r_bs r')) (buffers r') [] \<and> xl_list (links (r_bs r')) (removedBuffers r') (rev ys @ zs) \<and>
    bufs (r_bs r') = (\<lambda>a. if a \<in> set xs then None else bufs (r_bs r) a)"
proof -
  have "\<exists>st'. release_all (addedBuffers r) (r_bs r) = Some st' \<and> xl_list (links st') (addedBuffers r) [] \<and>
    bufs st' = (\<lambda>a. if a \<in> set xs then None else bufs (r_bs r) a) \<and>
    (\<forall>(m, ws) \<in> {(buffers r, ys), (removedBuffers r, zs)}. xl_list (links st') m ws)"
    by (rule release_all_empties [OF assms(1)]) (use assms in auto)
  then obtain b1 where b1: "release_all (addedBuffers r) (r_bs r) = Some b1" "xl_list (links b1) (addedBuffers r) []"
    "bufs b1 = (\<lambda>a. if a \<in> set xs then None else bufs (r_bs r) a)"
    "xl_list (links b1) (buffers r) ys" "xl_list (links b1) (removedBuffers r) zs" by auto
  have "\<exists>st'. move_all (buffers r) (removedBuffers r) b1 = Some st' \<and> xl_list (links st') (buffers r) [] \<and>
    xl_list (links st') (removedBuffers r) (rev ys @ zs) \<and> bufs st' = bufs b1 \<and>
    (\<forall>(k, ws) \<in> {(addedBuffers r, [])}. xl_list (links st') k ws)"
    by (rule move_all_moves [OF b1(4,5)]) (use assms(4,5) b1(2) in auto)
  then obtain b2 where "move_all (buffers r) (removedBuffers r) b1 = Some b2" "xl_list (links b2) (buffers r) []"
    "xl_list (links b2) (removedBuffers r) (rev ys @ zs)" "bufs b2 = bufs b1" "xl_list (links b2) (addedBuffers r) []"
    by auto
  with b1 show ?thesis by (simp add: removeAllBuffers_def)
qed

definition rend0 :: rend where
  "rend0 = addBuffer 2 \<lparr>r_bs = s_bs server0, addedBuffers = 100, buffers = 101, removedBuffers = 102, r_draws = []\<rparr>"

theorem removeAllBuffers_empties_witness:
  "\<exists>r'. removeAllBuffers rend0 = Some r' \<and> bufs (r_bs r') 2 = None \<and> bufs (r_bs r') 4 \<noteq> None"
proof -
  have l: "xl_list (links (r_bs rend0)) (addedBuffers rend0) [2]" "xl_list (links (r_bs rend0)) (buffers rend0) []"
    "xl_list (links (r_bs rend0)) (removedBuffers rend0) []"
    by (simp_all add: rend0_def addBuffer_def LorieBuffer_addToList_def xl_list_def xorg_list_add_def
        xorg_list_add_between_def xorg_list_del_def xorg_list_del_between_def xorg_list_init_def Let_def
        server0_def bst0_def)
  have b: "bufs (r_bs rend0) = [2 \<mapsto> ahb_buf 0 1, 4 \<mapsto> ahb_buf 1 3]" "addedBuffers rend0 = 100" "buffers rend0 = 101"
    "removedBuffers rend0 = 102"
    by (simp_all add: rend0_def addBuffer_def LorieBuffer_addToList_def server0_def)
  from removeAllBuffers_empties [OF l] show ?thesis by (auto simp: b)
qed

section \<open>The queue loop\<close>

fun apply_list :: "(nat \<Rightarrow> rend \<Rightarrow> rend) \<Rightarrow> nat \<Rightarrow> LorieGpuCopyEntry list \<Rightarrow> rend \<Rightarrow> rend option" where
  "apply_list wait n [] r = Some r"
| "apply_list wait n (e # es) r = Option.bind (apply_entry wait n e r) (apply_list wait n es)"

lemma apply_pending_list:
  assumes "ring_inv q"
  shows "apply_pending wait n ls q r =
    map_option (\<lambda>r'. (if pending q = [] then ls else e_serial (last (pending q)), (ring_pop ^^ length (pending q)) q, r'))
      (apply_list wait n (pending q) r)"
  using assms
proof (induction "pending q" arbitrary: q ls r)
  case Nil
  then have "ring_empty q" by (simp add: ring_empty_iff)
  then have "apply_pending wait n ls q r = Some (ls, q, r)" by (subst apply_pending.simps) simp
  with Nil show ?case by simp
next
  case (Cons e es)
  have ne: "\<not> ring_empty q" using Cons.hyps(2) by (simp add: ring_empty_iff flip: Cons.hyps(2))
  have p: "e = ring_head q" "es = pending (ring_pop q)"
    using Cons.hyps(2) ring.content_pop [OF Cons.prems ne] by simp_all
  note IH = Cons.hyps(1) [OF p(2) ring_inv_pop [OF Cons.prems ne]]
  have "apply_pending wait n ls q r =
      Option.bind (apply_entry wait n e r) (apply_pending wait n (e_serial e) (ring_pop q))"
    using ne p(1) by (subst apply_pending.simps) simp
  also have "\<dots> = map_option (\<lambda>r'. (e_serial (last (e # es)), (ring_pop ^^ length (e # es)) q, r'))
      (apply_list wait n (e # es) r)"
    by (cases "apply_entry wait n e r") (auto simp: IH p(2) [symmetric] funpow_swap1)
  finally show ?case by (simp flip: Cons.hyps(2))
qed


text \<open>A copy between buffers that are not there is skipped after the last attempt.\<close>

lemma findById_empty: "xl_list (links (r_bs r)) l [] \<Longrightarrow> LorieBufferList_findById 9 l i (r_bs r) = Some 0"
  using findById_spec [of "r_bs r" l "[]" 9 i] by simp

lemma find_nothing:
  assumes "xl_list (links (r_bs r)) (buffers r) []" and "xl_list (links (r_bs r)) (addedBuffers r) []"
  shows "findBufferWithRetry (\<lambda>k r. r) 9 i r = Some (0, r)"
proof -
  have o: "findBufferOnce 9 i r = Some (0, r)"
    using assms by (simp add: findBufferOnce_def findById_empty)
  have "findBuffer_retry k (\<lambda>k r. r) 9 i (0, r) = Some (0, r)" for k by (induction k) (simp_all add: o)
  then show ?thesis by (simp add: findBufferWithRetry_def o)
qed

definition rend1 :: rend where
  "rend1 = \<lparr>r_bs = bst0, addedBuffers = 100, buffers = 101, removedBuffers = 102, r_draws = []\<rparr>"

definition ring1 :: gpuCopyQueue where
  "ring1 = ring_push 7 3 4 0 0 [no_rect] (ring_at 0xffffffff)"


text \<open>When locking the pixels fails, \<open>loriePrepareAccess\<close> reports failure and keeps the mutex of
  the shared state if it had taken it: nothing unlocks it, since the access is not finished.\<close>

theorem loriePrepareAccess_keeps_lock:
  assumes "px_priv (s_pix s p) = Some v" and "pp_locked v = 0" and "pp_mem v = 0"
    and "lorieNeedsGpuLock prepare_dest p s = Some True"
    and "LorieBuffer_lock (pp_buffer v) (s_bs s) = Some (err, out, bs)" and "err \<noteq> 0"
  shows "\<exists>s'. loriePrepareAccess prepare_dest p s = Some (False, s') \<and> lock_depth s' = Suc (lock_depth s)"
  using assms by (auto simp: loriePrepareAccess_def Let_def set_locked_def split: option.splits)

theorem loriePrepareAccess_keeps_lock_witness:
  "\<exists>s'. loriePrepareAccess True 12 (server0\<lparr>s_bs := (s_bs server0)\<lparr>lock_rc := (\<lambda>_. 1)\<rparr>\<rparr>) = Some (False, s') \<and> lock_depth s' = 1"
proof -
  let ?s = "server0\<lparr>s_bs := (s_bs server0)\<lparr>lock_rc := (\<lambda>_. 1)\<rparr>\<rparr>"
  let ?v = "\<lparr>pp_buffer = 4, pp_flipped = False, pp_wasLocked = False, pp_imported = False, pp_locked = 0, pp_mem = 0\<rparr>"
  have v: "px_priv (s_pix ?s 12) = Some ?v" by (simp add: server0_def pix_of_def)
  have n: "lorieNeedsGpuLock True 12 ?s = Some True" by (simp add: lorieNeedsGpuLock_def server0_def)
  have "\<exists>out bs. LorieBuffer_lock (pp_buffer ?v) (s_bs ?s) = Some (1, out, bs)"
    by (simp add: LorieBuffer_lock_def server0_def ahb_buf_def buffer_consts bst0_def)
  then obtain out bs where l: "LorieBuffer_lock (pp_buffer ?v) (s_bs ?s) = Some (1, out, bs)" by blast
  show ?thesis
    using loriePrepareAccess_keeps_lock [OF v _ _ n l] by (simp add: server0_def)
qed

end
