(* ===== verification/Shmem.thy ===== *)
theory Shmem
  imports Prelude "HOL-Library.Monad_Syntax"
begin

text \<open>
  The System V shared memory of \<open>lorie/shm/shmem.c\<close>, as built for Android. Segments are ashmem regions
  listed in a table of the process; another process asks for them over a socket named after the
  creator. The state is the static data of the file with the descriptors and mappings of the process
  and the symbolic links that publish keys. Outside code is a parameter: the outcomes of the next
  system calls (\<open>sc_ok\<close>, used up means success), the socket names in use (\<open>taken\<close>), what the process
  behind a socket name answers (\<open>peer\<close>), whether links can be made at all (\<open>tmp_writable\<close>), and the
  kernel's own shared memory calls (\<open>kern\<close>). A table index out of range and a write through a null
  pointer are \<open>None\<close>. Not modelled: \<open>errno\<close>, the mutex, and failure of \<open>realloc\<close>. The signed product
  of \<open>ashv_shmid_from_counter\<close> wraps around.
\<close>

unbundle bit_operations_syntax

type_synonym shmid = "32 word"

record shmem_t =
  sm_id :: shmid
  sm_addr :: nat
  sm_descriptor :: int
  sm_size :: u64
  markedForDeletion :: bool
  sm_key :: int

record shmid_ds =
  shm_segsz :: u64
  shm_nattch :: nat
  ds_key :: int
  ds_uid :: nat
  ds_gid :: nat
  ds_cuid :: nat
  ds_cgid :: nat
  ds_mode :: nat
  ds_seq :: nat

record kernel =
  k_shmget :: "int \<Rightarrow> u64 \<Rightarrow> int \<Rightarrow> shmid"
  k_shmat :: "shmid \<Rightarrow> nat \<Rightarrow> int \<Rightarrow> nat option"
  k_shmdt :: "nat \<Rightarrow> int"
  k_shmctl :: "shmid \<Rightarrow> int \<Rightarrow> shmid_ds option \<Rightarrow> int \<times> shmid_ds option"

text \<open>How a process answers: no connection, no key read, no descriptor, or a region and its size.\<close>

datatype answer = Refused | NoKey | NoFd int | Region int int

record shm =
  shmem :: "shmem_t list"
  ashv_local_socket_id :: int
  ashv_pid_setup :: int
  listening :: bool
  shmem_counter :: u64
  syscall_supported :: bool
  getpid :: int
  geteuid :: nat
  getegid :: nat
  getpagesize :: u64
  sfds :: "int set"
  maps :: "nat \<Rightarrow> (int \<times> u64 \<times> bool) option"
  next_no :: nat
  symlinks :: "int \<Rightarrow> shmid option"
  tmp_writable :: bool
  taken :: "int set"
  peer :: "int \<Rightarrow> shmid \<Rightarrow> answer"
  sc_ok :: "bool list"
  kern :: kernel

definition IPC_PRIVATE :: int where "IPC_PRIVATE = 0"
definition IPC_RMID :: int where "IPC_RMID = 0"
definition IPC_STAT :: int where "IPC_STAT = 2"

section \<open>System calls\<close>

definition sys :: "shm \<Rightarrow> bool \<times> shm" where
  "sys s = (case sc_ok s of [] \<Rightarrow> (True, s) | b # bs \<Rightarrow> (b, s\<lparr>sc_ok := bs\<rparr>))"

definition new_descriptor :: "shm \<Rightarrow> int \<times> shm" where
  "new_descriptor s =
     (int (next_no s), s\<lparr>sfds := insert (int (next_no s)) (sfds s), next_no := Suc (next_no s)\<rparr>)"

definition sys_fd :: "shm \<Rightarrow> int \<times> shm" where
  "sys_fd s = (case sys s of (ok, s1) \<Rightarrow> if ok then new_descriptor s1 else (- 1, s1))"

definition close_descriptor :: "int \<Rightarrow> shm \<Rightarrow> shm" where
  "close_descriptor fd s = s\<lparr>sfds := sfds s - {fd}\<rparr>"

section \<open>Set-up\<close>

definition android_shmem_sysv_shm_force :: "8 word \<Rightarrow> shm \<Rightarrow> shm" where
  "android_shmem_sysv_shm_force enable s = s\<lparr>syscall_supported := enable \<noteq> 0\<rparr>"

fun strstr :: "string \<Rightarrow> string \<Rightarrow> string option" where
  "strstr [] needle = (if needle = [] then Some [] else None)"
| "strstr (c # cs) needle =
     (if take (length needle) (c # cs) = needle then Some (c # cs) else strstr cs needle)"

definition basename :: "string \<Rightarrow> string" where
  "basename p = rev (takeWhile (\<lambda>c. c \<noteq> CHR ''/'') (rev p))"

text \<open>\<open>status\<close> is the text of \<open>/proc/self/status\<close>, \<open>tracer\<close> the number \<open>sscanf\<close> reads and \<open>exe\<close> the
  program of a process. Scanning the null pointer is \<open>None\<close>.\<close>

definition isProot :: "string option \<Rightarrow> (string \<Rightarrow> int option) \<Rightarrow> (int \<Rightarrow> string option) \<Rightarrow> bool option" where
  "isProot status tracer exe =
     (case status of
        None \<Rightarrow> Some False
      | Some buf \<Rightarrow>
          let tracer_str = strstr buf ''TracerPid:'' in
          if tracer_str \<noteq> None then Some False
          else do {
            t \<leftarrow> tracer_str;
            (case tracer t of
               None \<Rightarrow> Some False
             | Some tpid \<Rightarrow>
                 if tpid = 0 then Some False
                 else
                   (case exe tpid of
                      None \<Rightarrow> Some False
                    | Some exe_path \<Rightarrow> Some (basename exe_path = ''proot'')))
          })"

definition check_syscall_support :: "bool option \<Rightarrow> bool \<Rightarrow> shm \<Rightarrow> shm option" where
  "check_syscall_support proot enosys s = do {
     p \<leftarrow> proot;
     Some (if \<not> p then s else if \<not> enosys then s\<lparr>syscall_supported := True\<rparr> else s)
   }"

definition ashmem_create_region :: "shm \<Rightarrow> int \<times> shm" where
  "ashmem_create_region s =
     (case sys_fd s of (fd, s1) \<Rightarrow>
        if fd < 0 then (fd, s1)
        else
          (case sys s1 of (name_ok, s2) \<Rightarrow>
             if \<not> name_ok then (- 1, close_descriptor fd s2)
             else
               (case sys s2 of (size_ok, s3) \<Rightarrow>
                  if \<not> size_ok then (- 1, close_descriptor fd s3) else (fd, s3))))"

definition ashv_check_pid :: "shm \<Rightarrow> shm" where
  "ashv_check_pid s =
     (if ashv_pid_setup s = 0 then s\<lparr>ashv_pid_setup := getpid s\<rparr>
      else if ashv_pid_setup s \<noteq> getpid s then
        s\<lparr>ashv_pid_setup := getpid s, ashv_local_socket_id := 0, listening := False, shmem := []\<rparr>
      else s)"

section \<open>Identifiers and the table\<close>

definition ashv_shmid_from_counter :: "u64 \<Rightarrow> shm \<Rightarrow> shmid" where
  "ashv_shmid_from_counter counter s = word_of_int (ashv_local_socket_id s * 0x10000) + ucast counter"

text \<open>C division rounds towards zero.\<close>

definition ashv_socket_id_from_shmid :: "shmid \<Rightarrow> int" where
  "ashv_socket_id_from_shmid i = sgn (sint i) * (\<bar>sint i\<bar> div 0x10000)"

fun index_from :: "(shmem_t \<Rightarrow> bool) \<Rightarrow> nat \<Rightarrow> shmem_t list \<Rightarrow> nat option" where
  "index_from p k [] = None"
| "index_from p k (e # es) = (if p e then Some k else index_from p (Suc k) es)"

definition ashv_find_local_index :: "shmid \<Rightarrow> shm \<Rightarrow> nat option" where
  "ashv_find_local_index i s = index_from (\<lambda>e. sm_id e = i) 0 (shmem s)"

text \<open>The listening thread, over the connections it accepts: \<open>None\<close> is one that sends too few bytes.
  A known segment is answered by its key and descriptor, and no other connection gets an answer.\<close>

fun ashv_thread_function :: "shmid option list \<Rightarrow> shm \<Rightarrow> (int \<times> int) option list" where
  "ashv_thread_function [] s = []"
| "ashv_thread_function (None # cs) s = None # ashv_thread_function cs s"
| "ashv_thread_function (Some i # cs) s =
     map_option (\<lambda>idx. (sm_key (shmem s ! idx), sm_descriptor (shmem s ! idx))) (ashv_find_local_index i s)
     # ashv_thread_function cs s"

definition android_shmem_delete :: "nat \<Rightarrow> shm \<Rightarrow> shm option" where
  "android_shmem_delete idx s = do {
     e \<leftarrow> rd (shmem s) idx;
     let s1 = (if sm_descriptor e \<noteq> 0 then close_descriptor (sm_descriptor e) s else s);
     Some (s1\<lparr>shmem := take idx (shmem s) @ drop (Suc idx) (shmem s)\<rparr>)
   }"

definition ashv_read_remote_segment :: "shmid \<Rightarrow> shm \<Rightarrow> nat option \<times> shm" where
  "ashv_read_remote_segment i s =
     (case sys_fd s of (recvsock, s1) \<Rightarrow>
        if recvsock = - 1 then (None, s1)
        else
          (case peer s1 (ashv_socket_id_from_shmid i) i of
             Refused \<Rightarrow> (None, close_descriptor recvsock s1)
           | a \<Rightarrow>
               (case sys s1 of (sent, s2) \<Rightarrow>
                  if \<not> sent then (None, close_descriptor recvsock s2)
                  else
                    (case a of
                       Region key len \<Rightarrow>
                         (case new_descriptor s2 of (fd, s3) \<Rightarrow>
                            let s4 = close_descriptor recvsock s3 in
                            if len = 0 \<or> len = - 1 then (None, s4)
                            else
                              (Some (length (shmem s4)),
                               s4\<lparr>shmem := shmem s4 @ [\<lparr>sm_id = i, sm_addr = 0, sm_descriptor = fd,
                                 sm_size = word_of_int len, markedForDeletion = False, sm_key = key\<rparr>]\<rparr>))
                     | _ \<Rightarrow> (None, close_descriptor recvsock s2)))))"

section \<open>\<open>shmget\<close>\<close>

text \<open>Only the socket number 0 counts as a failure of \<open>socket\<close>; with -1 every \<open>bind\<close> fails. The result
  says whether the call goes on; a failed \<open>malloc\<close> is a write through a null pointer, and the result
  of \<open>pthread_create\<close> is not looked at.\<close>

definition bind_id :: "int \<Rightarrow> shm \<Rightarrow> int option" where
  "bind_id sock s =
     (if sock = - 1 then None
      else find (\<lambda>n. n \<notin> taken s) (map (\<lambda>i. (getpid s + int i) mod 0x10000) [0..<4096]))"

definition start_listening :: "shm \<Rightarrow> (bool \<times> shm) option" where
  "start_listening s =
     (if listening s then Some (True, s)
      else
        (case sys_fd s of (sock, s1) \<Rightarrow>
           if sock = 0 then Some (False, s1)
           else
             (case bind_id sock s1 of
                None \<Rightarrow> Some (False, s1\<lparr>ashv_local_socket_id := 0\<rparr>)
              | Some n \<Rightarrow>
                  (case sys (s1\<lparr>ashv_local_socket_id := n, taken := insert n (taken s1)\<rparr>) of (listened, s2) \<Rightarrow>
                     if \<not> listened then Some (False, s2)
                     else
                       (case sys s2 of (allocated, s3) \<Rightarrow>
                          if \<not> allocated then None
                          else (case sys s3 of (created, s4) \<Rightarrow> Some (True, s4\<lparr>listening := created\<rparr>)))))))"

definition next_shmid :: "shm \<Rightarrow> shmid \<times> shm" where
  "next_shmid s =
     (let c = (shmem_counter s + 1) AND 0x7fff in
      (ashv_shmid_from_counter c s, s\<lparr>shmem_counter := c\<rparr>))"

text \<open>One look at the link of a key: the index of the segment it leads to, or the link removed.\<close>

definition follow_link :: "int \<Rightarrow> shm \<Rightarrow> nat option \<times> shm" where
  "follow_link key s =
     (case sys s of (ok, s1) \<Rightarrow>
        (case (if ok then symlinks s1 key else None) of
           None \<Rightarrow> (None, s1)
         | Some i \<Rightarrow>
             (case (if i = 0 then (None, s1)
                    else
                      (case ashv_find_local_index i s1 of
                         Some idx \<Rightarrow> (Some idx, s1)
                       | None \<Rightarrow> ashv_read_remote_segment i s1)) of
                (Some idx, s2) \<Rightarrow> (Some idx, s2)
              | (None, s2) \<Rightarrow>
                  (case sys s2 of (unlinked, s3) \<Rightarrow>
                     (None, if unlinked then s3\<lparr>symlinks := (symlinks s3)(key := None)\<rparr> else s3)))))"

definition make_link :: "int \<Rightarrow> shmid \<Rightarrow> shm \<Rightarrow> bool \<times> shm" where
  "make_link key i s =
     (case sys s of (ok, s1) \<Rightarrow>
        if ok \<and> tmp_writable s1 \<and> symlinks s1 key = None
        then (True, s1\<lparr>symlinks := (symlinks s1)(key \<mapsto> i)\<rparr>) else (False, s1))"

partial_function (option) claim_key :: "int \<Rightarrow> shmid \<Rightarrow> shm \<Rightarrow> ((nat + shmid) \<times> shm) option" where
  "claim_key key own s =
     (case follow_link key s of
        (Some idx, s1) \<Rightarrow> Some (Inl idx, s1)
      | (None, s1) \<Rightarrow>
          (case (if own = - 1 then next_shmid s1 else (own, s1)) of (i, s2) \<Rightarrow>
             (case make_link key i s2 of (linked, s3) \<Rightarrow>
                if linked then Some (Inr i, s3) else claim_key key i s3)))"

definition round_up :: "u64 \<Rightarrow> u64 \<Rightarrow> u64" where
  "round_up n p = ((n + p - 1) div p) * p"

definition create_segment :: "int \<Rightarrow> u64 \<Rightarrow> shmid \<Rightarrow> shm \<Rightarrow> shmid \<times> shm" where
  "create_segment key len own s =
     (case (if own = - 1 then next_shmid s else (own, s)) of (i, s1) \<Rightarrow>
        (case ashmem_create_region s1 of (fd, s2) \<Rightarrow>
           if fd < 0 then (- 1, s2)
           else (i, s2\<lparr>shmem := shmem s2 @ [\<lparr>sm_id = i, sm_addr = 0, sm_descriptor = fd,
                  sm_size = round_up len (getpagesize s2), markedForDeletion = False, sm_key = key\<rparr>]\<rparr>)))"

definition shmget :: "int \<Rightarrow> u64 \<Rightarrow> int \<Rightarrow> shm \<Rightarrow> (shmid \<times> shm) option" where
  "shmget key len flags s =
     (if syscall_supported s then
        Some (k_shmget (kern s) key (if 0x7fffffffffffffff < len then - 1 else len) flags, s)
      else do {
        (go_on, s1) \<leftarrow> start_listening (ashv_check_pid s);
        if \<not> go_on then Some (- 1, s1)
        else if key \<noteq> IPC_PRIVATE then do {
          (r, s2) \<leftarrow> claim_key key (- 1) s1;
          (case r of
             Inl idx \<Rightarrow> map_option (\<lambda>e. (sm_id e, s2)) (rd (shmem s2) idx)
           | Inr i \<Rightarrow> Some (create_segment key len i s2))
        }
        else Some (create_segment key len (- 1) s1)
      })"

section \<open>\<open>shmat\<close>, \<open>shmdt\<close> and \<open>shmctl\<close>\<close>

text \<open>\<open>None\<close> as the first result of \<open>shmat\<close> is the pointer -1. \<open>mmap\<close> takes an open descriptor and a
  size that is not 0; the address it picks is new.\<close>

definition map_segment :: "nat \<Rightarrow> int \<Rightarrow> shm \<Rightarrow> shm" where
  "map_segment idx shmflg s =
     (case sys s of (ok, s1) \<Rightarrow>
        let e = shmem s1 ! idx; a = next_no s1 in
        if ok \<and> sm_size e \<noteq> 0 \<and> sm_descriptor e \<in> sfds s1
        then s1\<lparr>maps := (maps s1)(a \<mapsto> (sm_descriptor e, sm_size e, shmflg = 0)), next_no := Suc a,
               shmem := (shmem s1)[idx := e\<lparr>sm_addr := a\<rparr>]\<rparr>
        else s1)"

definition shmat :: "shmid \<Rightarrow> nat \<Rightarrow> int \<Rightarrow> shm \<Rightarrow> nat option \<times> shm" where
  "shmat i shmaddr shmflg s =
     (if syscall_supported s then (k_shmat (kern s) i shmaddr shmflg, s)
      else
        let s0 = ashv_check_pid s in
        (case (case ashv_find_local_index i s0 of
                 Some idx \<Rightarrow> (Some idx, s0)
               | None \<Rightarrow>
                   if ashv_socket_id_from_shmid i \<noteq> ashv_local_socket_id s0
                   then ashv_read_remote_segment i s0 else (None, s0)) of
           (None, s1) \<Rightarrow> (None, s1)
         | (Some idx, s1) \<Rightarrow>
             let s2 = (if sm_addr (shmem s1 ! idx) = 0 then map_segment idx shmflg s1 else s1);
                 a = sm_addr (shmem s2 ! idx)
             in (if a \<noteq> 0 then Some a else None, s2)))"

definition shmdt :: "nat \<Rightarrow> shm \<Rightarrow> (int \<times> shm) option" where
  "shmdt a s =
     (if syscall_supported s then Some (k_shmdt (kern s) a, s)
      else
        let s0 = ashv_check_pid s in
        (case index_from (\<lambda>e. sm_addr e = a) 0 (shmem s0) of
           None \<Rightarrow> Some (0, s0)
         | Some idx \<Rightarrow>
             let e = shmem s0 ! idx;
                 s1 = s0\<lparr>maps := (maps s0)(a := None), shmem := (shmem s0)[idx := e\<lparr>sm_addr := 0\<rparr>]\<rparr>
             in if markedForDeletion e \<or> ashv_socket_id_from_shmid (sm_id e) \<noteq> ashv_local_socket_id s1
                then map_option (\<lambda>s2. (0, s2)) (android_shmem_delete idx s1)
                else Some (0, s1)))"

definition shmctl :: "shmid \<Rightarrow> int \<Rightarrow> shmid_ds option \<Rightarrow> shm \<Rightarrow> (int \<times> shmid_ds option \<times> shm) option" where
  "shmctl i cmd buf s =
     (if syscall_supported s then (case k_shmctl (kern s) i cmd buf of (r, b) \<Rightarrow> Some (r, b, s))
      else
        let s0 = ashv_check_pid s in
        if cmd = IPC_RMID then
          (case ashv_find_local_index i s0 of
             None \<Rightarrow> Some (0, buf, s0)
           | Some idx \<Rightarrow>
               let e = shmem s0 ! idx in
               if sm_addr e \<noteq> 0
               then Some (0, buf, s0\<lparr>shmem := (shmem s0)[idx := e\<lparr>markedForDeletion := True\<rparr>]\<rparr>)
               else map_option (\<lambda>s1. (0, buf, s1)) (android_shmem_delete idx s0))
        else if cmd = IPC_STAT then
          if buf = None then Some (- 1, buf, s0)
          else
            (case ashv_find_local_index i s0 of
               None \<Rightarrow> Some (- 1, buf, s0)
             | Some idx \<Rightarrow>
                 Some (0, Some \<lparr>shm_segsz = sm_size (shmem s0 ! idx), shm_nattch = 1,
                   ds_key = sm_key (shmem s0 ! idx), ds_uid = geteuid s0, ds_gid = getegid s0,
                   ds_cuid = geteuid s0, ds_cgid = getegid s0, ds_mode = 438, ds_seq = 1\<rparr>, s0))
        else Some (- 1, buf, s0))"

section \<open>The table, the descriptors and the mappings agree\<close>

definition entry_ok :: "shm \<Rightarrow> shmem_t \<Rightarrow> bool" where
  "entry_ok s e \<longleftrightarrow> sm_descriptor e \<in> sfds s \<and>
     (sm_addr e \<noteq> 0 \<longrightarrow> (\<exists>w. maps s (sm_addr e) = Some (sm_descriptor e, sm_size e, w)))"

definition numbers_ok :: "shm \<Rightarrow> bool" where
  "numbers_ok s \<longleftrightarrow> 0 < next_no s \<and> (\<forall>fd \<in> sfds s. fd < int (next_no s)) \<and>
     (\<forall>a. maps s a \<noteq> None \<longrightarrow> 0 < a \<and> a < next_no s)"

definition shm_inv :: "shm \<Rightarrow> bool" where
  "shm_inv s \<longleftrightarrow> numbers_ok s \<and> (\<forall>e \<in> set (shmem s). entry_ok s e) \<and> distinct (map sm_descriptor (shmem s))"

lemma sys_sel:
  assumes "sys s = (ok, t)"
  shows "t = s\<lparr>sc_ok := tl (sc_ok s)\<rparr>" and "ok \<longleftrightarrow> sc_ok s = [] \<or> hd (sc_ok s)"
  using assms by (auto simp: sys_def split: list.splits)

lemma sys_fd_cases:
  assumes "sys_fd s = (fd, t)"
  obtains "fd = - 1" and "t = s\<lparr>sc_ok := tl (sc_ok s)\<rparr>"
  | "fd = int (next_no s)"
    and "t = s\<lparr>sc_ok := tl (sc_ok s), sfds := insert fd (sfds s), next_no := Suc (next_no s)\<rparr>"
proof (cases "sys s")
  case (Pair ok s1)
  note s1 = sys_sel(1) [OF Pair]
  show thesis
  proof (cases ok)
    case True
    with assms Pair s1 show thesis by (intro that(2)) (auto simp: sys_fd_def new_descriptor_def)
  next
    case False
    with assms Pair s1 show thesis by (intro that(1)) (auto simp: sys_fd_def)
  qed
qed

lemma shm_inv_frame:
  assumes "shm_inv s" and "shmem t = shmem s" and "maps t = maps s" and "next_no t = next_no s" and "sfds t = sfds s"
  shows "shm_inv t"
  using assms by (simp add: shm_inv_def numbers_ok_def entry_ok_def)

lemma shm_inv_append:
  assumes "shm_inv s" and "sm_descriptor e \<in> sfds s" and "sm_addr e = 0"
    and "\<forall>x \<in> set (shmem s). sm_descriptor x \<noteq> sm_descriptor e"
  shows "shm_inv (s\<lparr>shmem := shmem s @ [e]\<rparr>)"
  using assms by (auto simp: shm_inv_def numbers_ok_def entry_ok_def)

lemma shm_inv_less:
  assumes "shm_inv s" and "e \<in> set (shmem s)"
  shows "sm_descriptor e < int (next_no s)"
  using assms by (auto simp: shm_inv_def numbers_ok_def entry_ok_def)

lemma shm_inv_new:
  assumes "shm_inv s"
  shows "shm_inv (s\<lparr>sfds := insert (int (next_no s)) (sfds s), next_no := Suc (next_no s)\<rparr>)"
  using assms by (fastforce simp: shm_inv_def numbers_ok_def entry_ok_def)

lemma shm_inv_close:
  assumes "shm_inv s" and "\<forall>x \<in> set (shmem s). sm_descriptor x \<noteq> fd"
  shows "shm_inv (close_descriptor fd s)"
  using assms by (auto simp: shm_inv_def numbers_ok_def entry_ok_def close_descriptor_def)

lemma shm_inv_sys:
  assumes "sys s = (ok, t)" and "shm_inv s"
  shows "shm_inv t"
  using shm_inv_frame [OF assms(2), of t] sys_sel(1) [OF assms(1)] by simp

lemma sys_table:
  assumes "sys s = (ok, t)"
  shows "shmem t = shmem s"
  using sys_sel(1) [OF assms] by simp

lemma sys_fd_inv:
  assumes "sys_fd s = (fd, t)" and "shm_inv s"
  shows "shm_inv t" and "shmem t = shmem s" and "\<forall>x \<in> set (shmem s). sm_descriptor x \<noteq> fd \<or> fd = - 1"
    and "fd = - 1 \<or> fd \<in> sfds t"
proof -
  have frame: "shm_inv (s\<lparr>sc_ok := tl (sc_ok s)\<rparr>)" by (rule shm_inv_frame [OF assms(2)]) simp_all
  show "shm_inv t" and "shmem t = shmem s" and "\<forall>x \<in> set (shmem s). sm_descriptor x \<noteq> fd \<or> fd = - 1"
    and "fd = - 1 \<or> fd \<in> sfds t"
    using assms(1) frame shm_inv_new [OF frame]
    by (auto elim!: sys_fd_cases dest!: shm_inv_less [OF assms(2)])
qed

lemma shm_inv_check_pid:
  assumes "shm_inv s"
  shows "shm_inv (ashv_check_pid s)"
  using assms by (auto simp: ashv_check_pid_def shm_inv_def numbers_ok_def entry_ok_def)

lemma shm_inv_delete:
  assumes "shm_inv s" and "idx < length (shmem s)"
  obtains t where "android_shmem_delete idx s = Some t" and "shm_inv t"
proof -
  let ?e = "shmem s ! idx"
  let ?t = "(if sm_descriptor ?e \<noteq> 0 then close_descriptor (sm_descriptor ?e) s else s)
    \<lparr>shmem := take idx (shmem s) @ drop (Suc idx) (shmem s)\<rparr>"
  have split: "shmem s = take idx (shmem s) @ ?e # drop (Suc idx) (shmem s)"
    by (rule id_take_nth_drop [OF assms(2)])
  have dist: "distinct (map sm_descriptor (take idx (shmem s) @ ?e # drop (Suc idx) (shmem s)))"
    using assms(1) split by (simp add: shm_inv_def)
  have sub: "set (take idx (shmem s) @ drop (Suc idx) (shmem s)) \<subseteq> set (shmem s)"
    by (auto dest: in_set_takeD in_set_dropD)
  have ne: "sm_descriptor x \<noteq> sm_descriptor ?e" if "x \<in> set (take idx (shmem s) @ drop (Suc idx) (shmem s))" for x
    using dist that by (auto simp: image_iff)
  have "entry_ok ?t x" if "x \<in> set (take idx (shmem s) @ drop (Suc idx) (shmem s))" for x
    using assms(1) sub ne [OF that] that by (auto simp: shm_inv_def entry_ok_def close_descriptor_def)
  moreover have "numbers_ok ?t"
    using assms(1) by (auto simp: shm_inv_def numbers_ok_def close_descriptor_def)
  ultimately have "shm_inv ?t"
    using dist by (simp add: shm_inv_def)
  then show thesis
    using assms(2) by (intro that [of ?t]) (simp_all add: android_shmem_delete_def rd_def Let_def)
qed

lemma index_from_Some:
  assumes "index_from p k es = Some n"
  shows "k \<le> n \<and> n < k + length es \<and> p (es ! (n - k))"
  using assms by (induction es arbitrary: k) (fastforce simp: nth_Cons' split: if_splits)+

lemma index_from_None: "index_from p k es = None \<longleftrightarrow> (\<forall>e \<in> set es. \<not> p e)"
  by (induction es arbitrary: k) auto

lemma index_from_append:
  "index_from p k (es @ fs) =
     (case index_from p k es of Some n \<Rightarrow> Some n | None \<Rightarrow> index_from p (k + length es) fs)"
  by (induction es arbitrary: k) (auto split: option.split)

lemma find_local_less:
  assumes "ashv_find_local_index i s = Some idx"
  shows "idx < length (shmem s)" and "sm_id (shmem s ! idx) = i"
  using index_from_Some [OF assms [unfolded ashv_find_local_index_def]] by auto

lemma read_remote_inv:
  assumes "ashv_read_remote_segment i s = (r, t)" and "shm_inv s"
  shows "shm_inv t \<and> (\<forall>idx. r = Some idx \<longrightarrow> idx < length (shmem t))"
proof (cases "sys_fd s")
  case (Pair fd s1)
  note i1 = sys_fd_inv [OF Pair assms(2)]
  show ?thesis
  proof (cases "fd = - 1 \<or> peer s1 (ashv_socket_id_from_shmid i) i = Refused")
    case True
    with assms(1) Pair i1 show ?thesis
      by (auto simp: ashv_read_remote_segment_def intro!: shm_inv_close split: if_splits)
  next
    case False
    obtain ok s2 where s2: "sys s1 = (ok, s2)" by fastforce
    have i2: "shm_inv s2" "shmem s2 = shmem s1"
      using shm_inv_sys [OF s2 i1(1)] sys_table [OF s2] by simp_all
    let ?s3 = "s2\<lparr>sfds := insert (int (next_no s2)) (sfds s2), next_no := Suc (next_no s2)\<rparr>"
    have i4: "shm_inv (close_descriptor fd ?s3)"
      using False i1 i2 by (intro shm_inv_close shm_inv_new) auto
    have "fd < int (next_no s2)"
      using False i1(1,4) sys_sel(1) [OF s2] by (auto simp: shm_inv_def numbers_ok_def)
    then have "shm_inv (close_descriptor fd ?s3\<lparr>shmem := shmem s2 @ [e]\<rparr>)"
      if "sm_descriptor e = int (next_no s2)" "sm_addr e = 0" for e
      using shm_inv_append [OF i4, of e] that shm_inv_less [OF i2(1)]
      by (fastforce simp: close_descriptor_def)
    moreover have "shm_inv (close_descriptor fd s2)"
      using False i1 i2 by (intro shm_inv_close) auto
    ultimately show ?thesis
      using False assms(1) Pair s2 i4
      by (auto simp: ashv_read_remote_segment_def new_descriptor_def Let_def close_descriptor_def
          split: if_splits answer.splits)
  qed
qed

lemma create_region_inv:
  assumes "ashmem_create_region s = (fd, t)" and "shm_inv s"
  shows "shm_inv t" and "shmem t = shmem s"
    and "fd < 0 \<or> fd \<in> sfds t \<and> (\<forall>x \<in> set (shmem t). sm_descriptor x \<noteq> fd)"
proof -
  obtain fd1 s1 where 1: "sys_fd s = (fd1, s1)" by fastforce
  obtain ok2 s2 where 2: "sys s1 = (ok2, s2)" by fastforce
  obtain ok3 s3 where 3: "sys s2 = (ok3, s3)" by fastforce
  note i1 = sys_fd_inv [OF 1 assms(2)]
  have i3: "shm_inv s2" "shm_inv s3" "shmem s2 = shmem s" "shmem s3 = shmem s" "sfds s3 = sfds s1"
    using shm_inv_sys [OF 2 i1(1)] shm_inv_sys [OF 3] sys_sel(1) [OF 2] sys_sel(1) [OF 3] i1(2) by auto
  show "shm_inv t"
    using assms(1) 1 2 3 i1 i3 by (auto simp: ashmem_create_region_def intro!: shm_inv_close split: if_splits)
  show "shmem t = shmem s"
    using assms(1) 1 2 3 i1 i3 by (auto simp: ashmem_create_region_def close_descriptor_def split: if_splits)
  then show "fd < 0 \<or> fd \<in> sfds t \<and> (\<forall>x \<in> set (shmem t). sm_descriptor x \<noteq> fd)"
    using assms(1) 1 2 3 i1 i3 by (auto simp: ashmem_create_region_def split: if_splits)
qed

lemma next_shmid_inv:
  assumes "next_shmid s = (i, t)" and "shm_inv s"
  shows "shm_inv t"
  using assms by (auto simp: next_shmid_def Let_def intro: shm_inv_frame)

lemma create_segment_inv:
  assumes "create_segment key len own s = (i, t)" and "shm_inv s"
  shows "shm_inv t"
proof -
  obtain j s1 where 1: "(if own = - 1 then next_shmid s else (own, s)) = (j, s1)" by fastforce
  have i1: "shm_inv s1" using 1 assms(2) by (auto intro: next_shmid_inv split: if_splits)
  obtain fd s2 where 2: "ashmem_create_region s1 = (fd, s2)" by fastforce
  note i2 = create_region_inv [OF 2 i1]
  show ?thesis
  proof (cases "fd < 0")
    case True
    with assms(1) 1 2 i2 show ?thesis by (simp add: create_segment_def)
  next
    case False
    then have "shm_inv (s2\<lparr>shmem := shmem s2 @ [e]\<rparr>)" if "sm_descriptor e = fd" "sm_addr e = 0" for e
      using i2 that by (intro shm_inv_append) auto
    with False assms(1) 1 2 show ?thesis by (auto simp: create_segment_def)
  qed
qed

lemma start_listening_inv:
  assumes "start_listening s = Some (r, t)" and "shm_inv s"
  shows "shm_inv t"
proof (cases "sys_fd s")
  case (Pair sock s1)
  note i1 = sys_fd_inv(1) [OF Pair assms(2)]
  have upd: "shm_inv (x\<lparr>listening := b\<rparr>)" "shm_inv (x\<lparr>ashv_local_socket_id := n\<rparr>)"
    "shm_inv (x\<lparr>ashv_local_socket_id := n, taken := ns\<rparr>)" if "shm_inv x" for x b n ns
    by (rule shm_inv_frame [OF that]; simp)+
  show ?thesis
    using assms Pair i1
    by (auto simp: start_listening_def intro!: upd split: if_splits option.splits prod.splits
        dest!: shm_inv_sys intro: shm_inv_sys)
qed

lemma follow_link_inv:
  assumes "follow_link key s = (r, t)" and "shm_inv s"
  shows "shm_inv t \<and> (\<forall>idx. r = Some idx \<longrightarrow> idx < length (shmem t))"
proof -
  obtain ok s1 where 1: "sys s = (ok, s1)" by fastforce
  note i1 = shm_inv_sys [OF 1 assms(2)]
  have unlink: "shm_inv (x\<lparr>symlinks := l\<rparr>)" if "shm_inv x" for x l
    by (rule shm_inv_frame [OF that]) simp_all
  have gone: "shm_inv (if b then y\<lparr>symlinks := l y\<rparr> else y)" if "sys x = (b, y)" "shm_inv x" for x y b l
    using shm_inv_sys [OF that] unlink by simp
  show ?thesis
  proof (cases "if ok then symlinks s1 key else None")
    case None
    with assms(1) 1 i1 show ?thesis by (simp add: follow_link_def)
  next
    case (Some i)
    obtain r2 s2 where 2: "(if i = 0 then (None, s1) else (case ashv_find_local_index i s1 of
        Some idx \<Rightarrow> (Some idx, s1) | None \<Rightarrow> ashv_read_remote_segment i s1)) = (r2, s2)" by fastforce
    have i2: "shm_inv s2 \<and> (\<forall>idx. r2 = Some idx \<longrightarrow> idx < length (shmem s2))"
      using 2 i1 read_remote_inv [OF _ i1] find_local_less(1)
      by (auto split: if_splits option.splits)
    obtain b s3 where 3: "sys s2 = (b, s3)" by fastforce
    show ?thesis
      using assms(1) 1 Some 2 3 i2 gone [OF 3] by (cases r2) (auto simp: follow_link_def)
  qed
qed

lemma make_link_inv:
  assumes "make_link key i s = (r, t)" and "shm_inv s"
  shows "shm_inv t"
proof (cases "sys s")
  case (Pair ok s1)
  have "shm_inv (s1\<lparr>symlinks := l\<rparr>)" for l
    by (rule shm_inv_frame [OF shm_inv_sys [OF Pair assms(2)]]) simp_all
  with assms Pair shm_inv_sys [OF Pair] show ?thesis by (auto simp: make_link_def split: if_splits)
qed

definition claimed_ok :: "shm \<Rightarrow> (nat + shmid) \<times> shm \<Rightarrow> bool" where
  "claimed_ok s y \<longleftrightarrow> (shm_inv s \<longrightarrow> shm_inv (snd y) \<and> (\<forall>idx. fst y = Inl idx \<longrightarrow> idx < length (shmem (snd y))))"

lemma claim_key_ok:
  assumes "claim_key key own s = Some y"
  shows "claimed_ok s y"
proof (rule claim_key.raw_induct [where P = "\<lambda>key own s y. claimed_ok s y", OF _ assms])
  fix claim :: "int \<Rightarrow> shmid \<Rightarrow> shm \<Rightarrow> ((nat + shmid) \<times> shm) option" and key own s y
  assume hyp: "\<And>key own s y. claim key own s = Some y \<Longrightarrow> claimed_ok s y"
    and body: "(case follow_link key s of (None, s1) \<Rightarrow>
        case (if own = - 1 then next_shmid s1 else (own, s1)) of (i, s2) \<Rightarrow>
        case make_link key i s2 of (linked, s3) \<Rightarrow> if linked then Some (Inr i, s3) else claim key i s3
      | (Some idx, s1) \<Rightarrow> Some (Inl idx, s1)) = Some y"
  obtain f s1 where f: "follow_link key s = (f, s1)" by fastforce
  obtain i s2 where n: "(if own = - 1 then next_shmid s1 else (own, s1)) = (i, s2)" by fastforce
  obtain l s3 where m: "make_link key i s2 = (l, s3)" by fastforce
  have i3: "shm_inv s3" if "shm_inv s"
    using follow_link_inv [OF f that] n by (auto intro: make_link_inv [OF m] next_shmid_inv split: if_splits)
  show "claimed_ok s y"
  proof (cases f)
    case None
    with body f n m hyp [of key i s3 y] i3 show ?thesis
      by (cases l) (auto simp: claimed_ok_def)
  next
    case (Some idx)
    with body f follow_link_inv [OF f] show ?thesis by (auto simp: claimed_ok_def)
  qed
qed

lemma claim_key_inv:
  assumes "claim_key key own s = Some (r, t)" and "shm_inv s"
  shows "shm_inv t \<and> (\<forall>idx. r = Inl idx \<longrightarrow> idx < length (shmem t))"
  using claim_key_ok [OF assms(1)] assms(2) by (simp add: claimed_ok_def)

lemma shmget_inv:
  assumes "shmget key len flags s = Some (i, t)" and "shm_inv s"
  shows "shm_inv t"
proof (cases "syscall_supported s")
  case True
  with assms show ?thesis by (simp add: shmget_def)
next
  case False
  with assms(1) obtain b s1 where 1: "start_listening (ashv_check_pid s) = Some (b, s1)"
    by (auto simp: shmget_def bind_eq_Some_conv)
  have i1: "shm_inv s1" by (rule start_listening_inv [OF 1 shm_inv_check_pid [OF assms(2)]])
  show ?thesis
  proof (cases "b \<and> key \<noteq> IPC_PRIVATE")
    case True
    with assms(1) False 1 obtain r s2 where 2: "claim_key key (- 1) s1 = Some (r, s2)"
      by (auto simp: shmget_def bind_eq_Some_conv)
    have i2: "shm_inv s2" using claim_key_inv [OF 2 i1] by simp
    show ?thesis
      using assms(1) False 1 True 2 i2
      by (cases r) (auto simp: shmget_def intro: create_segment_inv)
  next
    case not_keyed: False
    with assms(1) False 1 i1 show ?thesis
      by (auto simp: shmget_def intro: create_segment_inv split: if_splits)
  qed
qed

lemma shm_inv_attach:
  assumes "shm_inv s" and "idx < length (shmem s)" and "sm_addr (shmem s ! idx) = 0"
  shows "shm_inv (map_segment idx flg s)"
proof (cases "sys s")
  case (Pair ok s1)
  note i1 = shm_inv_sys [OF Pair assms(1)] and same = sys_sel(1) [OF Pair]
  let ?e = "shmem s1 ! idx" and ?a = "next_no s1"
  let ?e' = "?e\<lparr>sm_addr := ?a\<rparr>"
  let ?t = "s1\<lparr>maps := (maps s1)(?a \<mapsto> (sm_descriptor ?e, sm_size ?e, flg = 0)), next_no := Suc ?a,
               shmem := (shmem s1)[idx := ?e']\<rparr>"
  have old: "entry_ok ?t x" if "x \<in> set (shmem s1)" for x
  proof -
    have "maps s1 (sm_addr x) \<noteq> None \<longrightarrow> sm_addr x < ?a"
      using i1 by (auto simp: shm_inv_def numbers_ok_def)
    with i1 that show ?thesis by (auto simp: shm_inv_def entry_ok_def)
  qed
  have "entry_ok ?t ?e'" if "sm_descriptor ?e \<in> sfds s1"
    using that by (simp add: entry_ok_def)
  with old have "\<forall>x \<in> set (shmem ?t). entry_ok ?t x" if "sm_descriptor ?e \<in> sfds s1"
    using that set_update_subset_insert [of "shmem s1" idx ?e'] by auto
  moreover have "numbers_ok ?t" using i1 by (force simp: shm_inv_def numbers_ok_def)
  moreover have "distinct (map sm_descriptor (shmem ?t))"
  proof -
    have "map sm_descriptor ((shmem s1)[idx := ?e']) = (map sm_descriptor (shmem s1))[idx := sm_descriptor ?e]"
      by (simp add: map_update)
    also have "\<dots> = map sm_descriptor (shmem s1)"
      using assms(2) same by (simp add: list_update_same_conv)
    finally show ?thesis using i1 by (simp add: shm_inv_def)
  qed
  ultimately have "shm_inv ?t" if "sm_descriptor ?e \<in> sfds s1"
    using that by (simp add: shm_inv_def)
  with Pair i1 show ?thesis by (simp add: map_segment_def Let_def)
qed

lemma shmat_inv:
  assumes "shmat i shmaddr flg s = (r, t)" and "shm_inv s"
  shows "shm_inv t"
proof (cases "syscall_supported s")
  case True
  with assms show ?thesis by (simp add: shmat_def)
next
  case False
  let ?s0 = "ashv_check_pid s"
  note i0 = shm_inv_check_pid [OF assms(2)]
  obtain f s1 where 1: "(case ashv_find_local_index i ?s0 of Some idx \<Rightarrow> (Some idx, ?s0)
      | None \<Rightarrow> if ashv_socket_id_from_shmid i \<noteq> ashv_local_socket_id ?s0
                then ashv_read_remote_segment i ?s0 else (None, ?s0)) = (f, s1)" by fastforce
  have "shm_inv s1 \<and> (\<forall>idx. f = Some idx \<longrightarrow> idx < length (shmem s1))"
    using 1 i0 read_remote_inv [OF _ i0] find_local_less(1) by (auto split: option.splits if_splits)
  with assms(1) False 1 show ?thesis
    by (cases f) (auto simp: shmat_def Let_def intro: shm_inv_attach)
qed

lemma shm_inv_detach:
  assumes "shm_inv s" and "idx < length (shmem s)"
  defines "e \<equiv> shmem s ! idx"
  shows "shm_inv (s\<lparr>maps := (maps s)(sm_addr e := None), shmem := (shmem s)[idx := e\<lparr>sm_addr := 0\<rparr>]\<rparr>)"
    (is "shm_inv ?t")
proof -
  have desc: "map sm_descriptor (shmem ?t) = map sm_descriptor (shmem s)"
    using assms(2) by (simp add: map_update e_def list_update_same_conv)
  have "entry_ok ?t x" if x: "x \<in> set (shmem ?t)" for x
  proof -
    obtain k where k: "k < length (shmem s)" "x = shmem ?t ! k"
      using x by (auto simp: in_set_conv_nth)
    show ?thesis
    proof (cases "k = idx")
      case True
      with k assms show ?thesis by (simp add: entry_ok_def shm_inv_def)
    next
      case False
      then have xk: "x = shmem s ! k" using k by simp
      have "sm_descriptor x \<noteq> sm_descriptor e"
        using False assms k(1) xk by (auto simp: shm_inv_def distinct_conv_nth)
      moreover have "entry_ok s x" "entry_ok s e"
        using assms k(1) xk by (auto simp: shm_inv_def)
      ultimately show ?thesis by (auto simp: entry_ok_def)
    qed
  qed
  moreover have "numbers_ok ?t" using assms(1) by (auto simp: shm_inv_def numbers_ok_def)
  ultimately show ?thesis using assms(1) desc by (simp add: shm_inv_def)
qed

lemma shmdt_inv:
  assumes "shm_inv s"
  obtains r t where "shmdt a s = Some (r, t)" and "shm_inv t"
proof (cases "syscall_supported s")
  case True
  with assms show thesis by (intro that [of "k_shmdt (kern s) a" s]) (simp_all add: shmdt_def)
next
  case False
  let ?s0 = "ashv_check_pid s"
  note i0 = shm_inv_check_pid [OF assms]
  show thesis
  proof (cases "index_from (\<lambda>e. sm_addr e = a) 0 (shmem ?s0)")
    case None
    with False i0 show thesis by (intro that [of 0 ?s0]) (simp_all add: shmdt_def)
  next
    case (Some idx)
    let ?e = "shmem ?s0 ! idx"
    let ?s1 = "?s0\<lparr>maps := (maps ?s0)(a := None), shmem := (shmem ?s0)[idx := ?e\<lparr>sm_addr := 0\<rparr>]\<rparr>"
    have idx: "idx < length (shmem ?s0)" "sm_addr ?e = a"
      using index_from_Some [OF Some] by simp_all
    have i1: "shm_inv ?s1" using shm_inv_detach [OF i0 idx(1)] idx(2) by simp
    obtain t where t: "android_shmem_delete idx ?s1 = Some t" "shm_inv t"
      by (rule shm_inv_delete [OF i1, of idx]) (use idx in simp_all)
    let ?d = "markedForDeletion ?e \<or> ashv_socket_id_from_shmid (sm_id ?e) \<noteq> ashv_local_socket_id ?s1"
    have "shmdt a s = Some (0, if ?d then t else ?s1)"
      using False Some t by (simp add: shmdt_def Let_def)
    then show thesis using t i1 by (intro that [of 0 "if ?d then t else ?s1"]) simp_all
  qed
qed

lemma shm_inv_mark:
  assumes "shm_inv s" and "idx < length (shmem s)"
  shows "shm_inv (s\<lparr>shmem := (shmem s)[idx := (shmem s ! idx)\<lparr>markedForDeletion := True\<rparr>]\<rparr>)"
    (is "shm_inv ?t")
proof -
  have "map sm_descriptor (shmem ?t) = map sm_descriptor (shmem s)"
    using assms(2) by (simp add: map_update list_update_same_conv)
  moreover have "entry_ok ?t x" if "x \<in> set (shmem ?t)" for x
    using assms that by (auto simp: shm_inv_def entry_ok_def dest!: set_update_subset_insert [THEN subsetD])
  moreover have "numbers_ok ?t" using assms(1) by (simp add: shm_inv_def numbers_ok_def)
  ultimately show ?thesis using assms(1) by (simp add: shm_inv_def)
qed

lemma shmctl_inv:
  assumes "shm_inv s"
  obtains r b t where "shmctl i cmd buf s = Some (r, b, t)" and "shm_inv t"
proof (cases "\<not> syscall_supported s \<and> cmd = IPC_RMID \<and> ashv_find_local_index i (ashv_check_pid s) \<noteq> None")
  case False
  obtain r b where rb: "k_shmctl (kern s) i cmd buf = (r, b)" by fastforce
  show thesis
    using False rb assms shm_inv_check_pid [OF assms]
    by (cases "syscall_supported s"; cases "cmd = IPC_RMID"; cases "cmd = IPC_STAT"; cases "buf = None";
        cases "ashv_find_local_index i (ashv_check_pid s)")
      (auto simp: shmctl_def Let_def intro: that)
next
  case True
  let ?s0 = "ashv_check_pid s"
  note i0 = shm_inv_check_pid [OF assms]
  obtain idx where idx: "ashv_find_local_index i ?s0 = Some idx" using True by blast
  note less = find_local_less(1) [OF idx]
  obtain t where t: "android_shmem_delete idx ?s0 = Some t" "shm_inv t"
    by (rule shm_inv_delete [OF i0 less])
  show thesis
  proof (cases "sm_addr (shmem ?s0 ! idx) = 0")
    case gone: True
    with True idx t show thesis by (intro that [of 0 buf t]) (simp_all add: shmctl_def Let_def)
  next
    case False
    with True idx shm_inv_mark [OF i0 less] show thesis
      by (intro that [of 0 buf "?s0\<lparr>shmem := (shmem ?s0)[idx := (shmem ?s0 ! idx)\<lparr>markedForDeletion := True\<rparr>]\<rparr>"])
        (simp_all add: shmctl_def Let_def)
  qed
qed

text \<open>What a process can do: the four calls, and to go on as a forked child with another number.\<close>

inductive shm_step :: "shm \<Rightarrow> shm \<Rightarrow> bool" where
  step_get: "shmget key len flags s = Some (i, t) \<Longrightarrow> shm_step s t"
| step_at: "shmat i shmaddr flg s = (r, t) \<Longrightarrow> shm_step s t"
| step_dt: "shmdt a s = Some (r, t) \<Longrightarrow> shm_step s t"
| step_ctl: "shmctl i cmd buf s = Some (r, b, t) \<Longrightarrow> shm_step s t"
| step_fork: "shm_step s (s\<lparr>getpid := pid\<rparr>)"

lemma shm_step_inv:
  assumes "shm_step s t" and "shm_inv s"
  shows "shm_inv t"
  using assms
proof (induction rule: shm_step.induct)
  case (step_get key len flags s i t)
  then show ?case by (rule shmget_inv)
next
  case (step_at i shmaddr flg s r t)
  then show ?case by (rule shmat_inv)
next
  case (step_dt a s r t)
  then show ?case by (metis shmdt_inv option.inject prod.inject)
next
  case (step_ctl i cmd buf s r b t)
  then show ?case by (metis shmctl_inv option.inject prod.inject)
next
  case (step_fork s pid)
  then show ?case by (rule shm_inv_frame) simp_all
qed

lemma shm_steps_inv:
  assumes "shm_step\<^sup>*\<^sup>* s t" and "shm_inv s"
  shows "shm_inv t"
  using assms by (induction rule: rtranclp_induct) (auto intro: shm_step_inv)

section \<open>Identifiers carry the socket number\<close>

lemma sint_word_cases:
  assumes "0 \<le> k" and "k < 0x100000000"
  shows "sint (word_of_int k :: 32 word) = (if k < 0x80000000 then k else k - 0x100000000)"
proof -
  have "sint (word_of_int k :: 32 word) = signed_take_bit 31 k" by transfer simp
  also have "\<dots> = take_bit 32 (k + 2 ^ 31) - 2 ^ 31"
    using signed_take_bit_eq_take_bit_shift [of 31 k] by simp
  also have "take_bit 32 (k + 2 ^ 31) = (k + 0x80000000) mod 0x100000000" by (simp add: take_bit_eq_mod)
  finally have sint: "sint (word_of_int k :: 32 word) = (k + 0x80000000) mod 0x100000000 - 0x80000000" by simp
  show ?thesis
  proof (cases "k < 0x80000000")
    case True
    then have "(k + 0x80000000) mod 0x100000000 = k + 0x80000000"
      using assms(1) by (intro mod_pos_pos_trivial) simp_all
    with sint True show ?thesis by simp
  next
    case False
    have "(k + 0x80000000) mod 0x100000000 = (k - 0x80000000) mod 0x100000000"
      using mod_add_self2 [of "k - 0x80000000" "0x100000000 :: int"] by (simp add: add.commute)
    also have "\<dots> = k - 0x80000000" using assms False by (intro mod_pos_pos_trivial) simp_all
    finally show ?thesis using sint False by simp
  qed
qed

lemma shmid_as_int:
  assumes "c \<le> 0x7fff"
  shows "ashv_shmid_from_counter c s = word_of_int (ashv_local_socket_id s * 0x10000 + uint c)"
    and "0 \<le> uint c" and "uint c \<le> 0x7fff"
proof -
  show "uint c \<le> 0x7fff" using assms by (simp add: word_le_def)
  show "0 \<le> uint c" by simp
  show "ashv_shmid_from_counter c s = word_of_int (ashv_local_socket_id s * 0x10000 + uint c)"
    by (simp only: ashv_shmid_from_counter_def ucast_eq of_int_add)
qed

lemma socket_id_of_shmid:
  assumes "c \<le> 0x7fff" and "0 \<le> ashv_local_socket_id s" and "ashv_local_socket_id s < 0x10000"
  shows "ashv_socket_id_from_shmid (ashv_shmid_from_counter c s) = ashv_local_socket_id s
    \<longleftrightarrow> ashv_local_socket_id s < 0x8000"
proof -
  define n where "n = ashv_local_socket_id s"
  note c = shmid_as_int(1) [OF assms(1), of s] shmid_as_int(2,3) [OF assms(1)]
  have sint: "sint (ashv_shmid_from_counter c s)
      = (if n < 0x8000 then n * 0x10000 + uint c else n * 0x10000 + uint c - 0x100000000)"
  proof -
    have n: "0 \<le> n" "n < 0x10000" using assms(2,3) by (simp_all add: n_def)
    have "n * 0x10000 + uint c < 0x80000000 \<longleftrightarrow> n < 0x8000" using c(2,3) by linarith
    moreover have "0 \<le> n * 0x10000 + uint c" and "n * 0x10000 + uint c < 0x100000000"
      using n c(2,3) by linarith+
    ultimately show ?thesis unfolding c(1) n_def [symmetric] by (simp only: sint_word_cases)
  qed
  show ?thesis
  proof (cases "n < 0x8000")
    case True
    define k where "k = n * 0x10000 + uint c"
    have n: "0 \<le> n" using assms(2) by (simp add: n_def)
    have k: "0 \<le> k" "k div 0x10000 = n" using n c(2,3) unfolding k_def by linarith+
    have "sgn k * (\<bar>k\<bar> div 0x10000) = n" using k by (cases "k = 0") (simp_all add: sgn_if)
    with True sint show ?thesis by (simp add: ashv_socket_id_from_shmid_def n_def k_def)
  next
    case False
    then have "sint (ashv_shmid_from_counter c s) < 0" using sint assms(3) c(3) by (simp add: n_def)
    then have "ashv_socket_id_from_shmid (ashv_shmid_from_counter c s) \<le> 0"
      by (simp add: ashv_socket_id_from_shmid_def sgn_if)
    with False show ?thesis by (simp add: n_def)
  qed
qed

lemma counter_le: "(x::u64) AND 0x7fff \<le> 0x7fff"
  by (rule word_and_le1)

section \<open>The loop over the link of a key\<close>

lemma read_remote_frame:
  assumes "ashv_read_remote_segment i s = (r, t)"
  shows "symlinks t = symlinks s \<and> tmp_writable t = tmp_writable s \<and> length (sc_ok t) \<le> length (sc_ok s)"
proof -
  obtain fd s1 where 1: "sys_fd s = (fd, s1)" by fastforce
  obtain ok s2 where 2: "sys s1 = (ok, s2)" by fastforce
  have "symlinks s1 = symlinks s \<and> tmp_writable s1 = tmp_writable s \<and> length (sc_ok s1) \<le> length (sc_ok s)"
    using 1 by (rule sys_fd_cases) simp_all
  with assms 1 2 sys_sel(1) [OF 2] show ?thesis
    by (auto simp: ashv_read_remote_segment_def new_descriptor_def close_descriptor_def Let_def
        split: if_splits answer.splits)
qed

lemma follow_link_frame:
  assumes "follow_link key s = (None, t)"
  shows "tmp_writable t = tmp_writable s" and "length (sc_ok t) \<le> length (sc_ok s) - 1"
    and "sc_ok s = [] \<or> symlinks s key = None \<Longrightarrow> symlinks t key = None"
proof -
  obtain ok s1 where 1: "sys s = (ok, s1)" by fastforce
  note s1 = sys_sel [OF 1]
  let ?goal = "tmp_writable t = tmp_writable s \<and> length (sc_ok t) \<le> length (sc_ok s) - 1 \<and>
    (sc_ok s = [] \<or> symlinks s key = None \<longrightarrow> symlinks t key = None)"
  have ?goal
  proof (cases "if ok then symlinks s1 key else None")
    case None
    with assms 1 s1 show ?thesis by (auto simp: follow_link_def split: if_splits)
  next
    case (Some i)
    obtain r s2 where 2: "(if i = 0 then (None, s1) else (case ashv_find_local_index i s1 of
        Some idx \<Rightarrow> (Some idx, s1) | None \<Rightarrow> ashv_read_remote_segment i s1)) = (r, s2)" by fastforce
    have f2: "symlinks s2 = symlinks s1 \<and> tmp_writable s2 = tmp_writable s1 \<and> length (sc_ok s2) \<le> length (sc_ok s1)"
      using 2 read_remote_frame by (fastforce split: if_splits option.splits)
    obtain b s3 where 3: "sys s2 = (b, s3)" by fastforce
    have r: "r = None" and t: "t = (if b then s3\<lparr>symlinks := (symlinks s3)(key := None)\<rparr> else s3)"
      using assms 1 2 3 Some by (auto simp: follow_link_def split: option.splits)
    have linked: "symlinks s key \<noteq> None" using Some s1 by (auto split: if_splits)
    have "b" if "sc_ok s = []" using that f2 s1 sys_sel(2) [OF 3] by simp
    with f2 s1 sys_sel(1) [OF 3] t linked show ?thesis by auto
  qed
  then show "tmp_writable t = tmp_writable s" and "length (sc_ok t) \<le> length (sc_ok s) - 1"
    and "sc_ok s = [] \<or> symlinks s key = None \<Longrightarrow> symlinks t key = None" by auto
qed

lemma next_shmid_frame:
  assumes "(if own = - 1 then next_shmid s else (own, s)) = (i, t)"
  shows "symlinks t = symlinks s" and "tmp_writable t = tmp_writable s" and "sc_ok t = sc_ok s"
  using assms by (auto simp: next_shmid_def Let_def split: if_splits)

lemma make_link_False:
  assumes "make_link key i s = (False, t)"
  shows "t = s\<lparr>sc_ok := tl (sc_ok s)\<rparr>" and "tmp_writable s \<Longrightarrow> symlinks s key = None \<Longrightarrow> sc_ok s \<noteq> []"
proof -
  obtain ok s1 where 1: "sys s = (ok, s1)" by fastforce
  show "t = s\<lparr>sc_ok := tl (sc_ok s)\<rparr>"
    using assms 1 sys_sel(1) [OF 1] by (simp add: make_link_def split: if_splits)
  show "sc_ok s \<noteq> []" if "tmp_writable s" "symlinks s key = None"
    using assms 1 sys_sel [OF 1] that by (auto simp: make_link_def split: if_splits)
qed

lemma claim_key_returns:
  assumes "tmp_writable s"
  shows "\<exists>r. claim_key key own s = Some r"
  using assms
proof (induction "length (sc_ok s)" arbitrary: own s rule: less_induct)
  case less
  obtain f s1 where f: "follow_link key s = (f, s1)" by fastforce
  obtain i s2 where n: "(if own = - 1 then next_shmid s1 else (own, s1)) = (i, s2)" by fastforce
  obtain l s3 where m: "make_link key i s2 = (l, s3)" by fastforce
  show ?case
  proof (cases "f = None \<and> \<not> l")
    case True
    then have f1: "follow_link key s = (None, s1)" and m1: "make_link key i s2 = (False, s3)"
      using f m by simp_all
    note frame = follow_link_frame [OF f1] next_shmid_frame [OF n] make_link_False [OF m1]
    have "sc_ok s \<noteq> []" using frame less.prems by auto
    then have "length (sc_ok s3) < length (sc_ok s)"
      using frame by (cases "sc_ok s") auto
    moreover have "tmp_writable s3" using frame less.prems by simp
    ultimately obtain r where "claim_key key i s3 = Some r" using less.hyps by blast
    with f1 n m1 show ?thesis by (subst claim_key.simps) simp
  next
    case False
    with f n m show ?thesis by (subst claim_key.simps) (auto split: option.splits)
  qed
qed

lemma claim_key_diverges:
  assumes "\<not> tmp_writable s" and "symlinks s key = None"
  shows "claim_key key own s = None"
proof (rule ccontr)
  assume "claim_key key own s \<noteq> None"
  then obtain y where y: "claim_key key own s = Some y" by blast
  have "tmp_writable s \<or> symlinks s key \<noteq> None"
  proof (rule claim_key.raw_induct [where P = "\<lambda>key own s y. tmp_writable s \<or> symlinks s key \<noteq> None", OF _ y])
    fix claim :: "int \<Rightarrow> shmid \<Rightarrow> shm \<Rightarrow> ((nat + shmid) \<times> shm) option" and key own s y
    assume hyp: "\<And>key own s y. claim key own s = Some y \<Longrightarrow> tmp_writable s \<or> symlinks s key \<noteq> None"
      and body: "(case follow_link key s of (None, s1) \<Rightarrow>
          case (if own = - 1 then next_shmid s1 else (own, s1)) of (i, s2) \<Rightarrow>
          case make_link key i s2 of (linked, s3) \<Rightarrow> if linked then Some (Inr i, s3) else claim key i s3
        | (Some idx, s1) \<Rightarrow> Some (Inl idx, s1)) = Some y"
    show "tmp_writable s \<or> symlinks s key \<noteq> None"
    proof (rule ccontr)
      assume no: "\<not> (tmp_writable s \<or> symlinks s key \<noteq> None)"
      obtain f s1 where f: "follow_link key s = (f, s1)" by fastforce
      have f1: "follow_link key s = (None, s1)"
        using f no by (auto simp: follow_link_def split: prod.splits if_splits dest!: sys_sel(1))
      obtain i s2 where n: "(if own = - 1 then next_shmid s1 else (own, s1)) = (i, s2)" by fastforce
      obtain l s3 where m: "make_link key i s2 = (l, s3)" by fastforce
      note frame = follow_link_frame [OF f1] next_shmid_frame [OF n]
      have "\<not> l" using m frame no by (auto simp: make_link_def split: prod.splits if_splits dest!: sys_sel(1))
      then have m1: "make_link key i s2 = (False, s3)" using m by simp
      have "claim key i s3 = Some y" using body f1 n m1 by simp
      from hyp [OF this] frame no make_link_False(1) [OF m1] show False by simp
    qed
  qed
  with assms show False by simp
qed

section \<open>The life of a segment in its own process\<close>

definition ready :: "shm \<Rightarrow> bool" where
  "ready s \<longleftrightarrow> \<not> syscall_supported s \<and> ashv_pid_setup s = getpid s \<and> listening s \<and> sc_ok s = [] \<and> shm_inv s \<and>
     0 \<le> ashv_local_socket_id s \<and> ashv_local_socket_id s < 0x10000 \<and>
     (\<forall>e \<in> set (shmem s). sm_id e \<noteq> fst (next_shmid s))"

definition own_entry :: "u64 \<Rightarrow> shm \<Rightarrow> shmem_t" where
  "own_entry len s = \<lparr>sm_id = fst (next_shmid s), sm_addr = 0, sm_descriptor = int (next_no s),
     sm_size = round_up len (getpagesize s), markedForDeletion = False, sm_key = IPC_PRIVATE\<rparr>"

definition got :: "u64 \<Rightarrow> shm \<Rightarrow> shm" where
  "got len s = (snd (next_shmid s))\<lparr>sfds := insert (int (next_no s)) (sfds s), next_no := Suc (next_no s),
     shmem := shmem s @ [own_entry len s]\<rparr>"

definition attached :: "u64 \<Rightarrow> shm \<Rightarrow> shm" where
  "attached len s = (got len s)
     \<lparr>maps := (maps s)(Suc (next_no s) \<mapsto> (int (next_no s), round_up len (getpagesize s), True)),
      next_no := Suc (Suc (next_no s)), shmem := shmem s @ [(own_entry len s)\<lparr>sm_addr := Suc (next_no s)\<rparr>]\<rparr>"

lemma check_pid_ready:
  assumes "ashv_pid_setup s = getpid s"
  shows "ashv_check_pid s = s"
  using assms by (auto simp: ashv_check_pid_def intro: shm.equality)

lemma next_shmid_sel:
  "shmem (snd (next_shmid s)) = shmem s" "maps (snd (next_shmid s)) = maps s" "sfds (snd (next_shmid s)) = sfds s"
  "next_no (snd (next_shmid s)) = next_no s" "sc_ok (snd (next_shmid s)) = sc_ok s"
  "syscall_supported (snd (next_shmid s)) = syscall_supported s" "getpid (snd (next_shmid s)) = getpid s"
  "ashv_pid_setup (snd (next_shmid s)) = ashv_pid_setup s" "getpagesize (snd (next_shmid s)) = getpagesize s"
  "ashv_local_socket_id (snd (next_shmid s)) = ashv_local_socket_id s"
  by (simp_all add: next_shmid_def Let_def)

lemma shmget_ready:
  assumes "ready s"
  shows "shmget IPC_PRIVATE len flags s = Some (fst (next_shmid s), got len s)"
proof -
  obtain i s1 where n: "next_shmid s = (i, s1)" by fastforce
  then have s1: "sc_ok s1 = []" "next_no s1 = next_no s" "shmem s1 = shmem s" "sfds s1 = sfds s"
    "getpagesize s1 = getpagesize s"
    using assms next_shmid_sel [of s] by (simp_all add: ready_def)
  have "create_segment IPC_PRIVATE len (- 1) s = (i, got len s)"
    using n s1 by (simp add: create_segment_def ashmem_create_region_def sys_fd_def sys_def new_descriptor_def
        got_def own_entry_def)
  with assms n show ?thesis
    by (simp add: shmget_def check_pid_ready start_listening_def ready_def)
qed

lemma find_local_last:
  assumes "shmem t = es @ [e]" and "\<forall>x \<in> set es. sm_id x \<noteq> sm_id e"
  shows "ashv_find_local_index (sm_id e) t = Some (length es)"
  using assms index_from_None [of "\<lambda>x. sm_id x = sm_id e" 0 es]
  by (simp add: ashv_find_local_index_def index_from_append)

lemma shmat_got:
  assumes "ready s" and "round_up len (getpagesize s) \<noteq> 0"
  shows "shmat (fst (next_shmid s)) a 0 (got len s) = (Some (Suc (next_no s)), attached len s)"
proof -
  have idx: "ashv_find_local_index (fst (next_shmid s)) (got len s) = Some (length (shmem s))"
    using find_local_last [of "got len s" "shmem s" "own_entry len s"] assms(1)
    by (simp add: got_def own_entry_def ready_def)
  have "ashv_check_pid (got len s) = got len s" and "\<not> syscall_supported (got len s)"
    using assms(1) by (auto simp: got_def ready_def next_shmid_sel intro!: check_pid_ready)
  moreover have "map_segment (length (shmem s)) 0 (got len s) = attached len s"
    using assms by (simp add: map_segment_def sys_def got_def attached_def own_entry_def ready_def next_shmid_sel)
  ultimately show ?thesis
    using idx by (simp add: shmat_def Let_def got_def own_entry_def attached_def)
qed

lemma addr_unused:
  assumes "shm_inv s" and "next_no s \<le> a"
  shows "maps s a = None" and "\<forall>x \<in> set (shmem s). sm_addr x \<noteq> a"
proof -
  show m: "maps s a = None" using assms by (meson leD numbers_ok_def shm_inv_def)
  then show "\<forall>x \<in> set (shmem s). sm_addr x \<noteq> a"
    using assms by (auto simp: shm_inv_def numbers_ok_def entry_ok_def)
qed

lemma shmdt_last:
  assumes "\<not> syscall_supported t" and "ashv_pid_setup t = getpid t" and "shmem t = es @ [e]"
    and "\<forall>x \<in> set es. sm_addr x \<noteq> sm_addr e" and "sm_descriptor e \<noteq> 0"
  shows "shmdt (sm_addr e) t = Some (0,
     if markedForDeletion e \<or> ashv_socket_id_from_shmid (sm_id e) \<noteq> ashv_local_socket_id t
     then t\<lparr>maps := (maps t)(sm_addr e := None), sfds := sfds t - {sm_descriptor e}, shmem := es\<rparr>
     else t\<lparr>maps := (maps t)(sm_addr e := None), shmem := es @ [e\<lparr>sm_addr := 0\<rparr>]\<rparr>)"
proof -
  have "index_from (\<lambda>x. sm_addr x = sm_addr e) 0 (shmem t) = Some (length es)"
    using assms(3,4) index_from_None [of "\<lambda>x. sm_addr x = sm_addr e" 0 es] by (simp add: index_from_append)
  with assms show ?thesis
    by (simp add: shmdt_def check_pid_ready Let_def android_shmem_delete_def rd_def close_descriptor_def)
qed

section \<open>Properties\<close>

text \<open>A process without segments whose calls go to this file, listening on socket number \<open>n\<close>.\<close>

definition shm0 :: "int \<Rightarrow> shm" where
  "shm0 n = \<lparr>shmem = [], ashv_local_socket_id = n, ashv_pid_setup = n, listening = True, shmem_counter = 0,
     syscall_supported = False, getpid = n, geteuid = 5, getegid = 5, getpagesize = 4096, sfds = {0}, maps = Map.empty,
     next_no = 7, symlinks = Map.empty, tmp_writable = True, taken = {n}, peer = (\<lambda>_ _. Refused), sc_ok = [],
     kern = \<lparr>k_shmget = \<lambda>_ _ _. - 1, k_shmat = \<lambda>_ _ _. None, k_shmdt = \<lambda>_. - 1, k_shmctl = \<lambda>_ _ b. (- 1, b)\<rparr>\<rparr>"

lemma shm0_inv: "shm_inv (shm0 n)"
  by (simp add: shm0_def shm_inv_def numbers_ok_def)

lemma shm0_ready:
  assumes "0 \<le> n" and "n < 0x10000"
  shows "ready (shm0 n)"
  using assms shm0_inv [of n] by (simp add: ready_def shm0_def)

lemma shm0_page: "round_up 100 (getpagesize (shm0 n)) \<noteq> 0"
  by (simp add: round_up_def shm0_def)

text \<open>C5: Starting without segments, after any sequence of the four calls and forks the table, the
  open descriptors and the mappings agree (every listed descriptor is open and listed once, every
  attached segment is mapped at its address from its descriptor), and a detach or a control call
  stays within the table.\<close>

theorem shm_reachable_safe:
  assumes "shmem s0 = []" and "numbers_ok s0" and "shm_step\<^sup>*\<^sup>* s0 s"
  shows "shm_inv s \<and> (\<forall>a. shmdt a s \<noteq> None) \<and> (\<forall>i cmd buf. shmctl i cmd buf s \<noteq> None)"
proof -
  have "shm_inv s0" using assms(1,2) by (simp add: shm_inv_def)
  then have i: "shm_inv s" by (rule shm_steps_inv [OF assms(3)])
  have "shmdt a s \<noteq> None" for a by (rule shmdt_inv [OF i, of a]) simp
  moreover have "shmctl i cmd buf s \<noteq> None" for i cmd buf by (rule shmctl_inv [OF i, of i cmd buf]) simp
  ultimately show ?thesis using i by blast
qed

lemma shm0_step: "shm_step (shm0 5) (got 100 (shm0 5))"
  using shmget_ready [OF shm0_ready, of 5 100 0] by (auto intro: step_get)

theorem shm_reachable_safe_witness:
  "shm_inv (got 100 (shm0 5)) \<and> shmdt 8 (got 100 (shm0 5)) \<noteq> None"
  using shm_reachable_safe [of "shm0 5" "got 100 (shm0 5)"] shm0_step
  by (simp add: shm0_def numbers_ok_def r_into_rtranclp)

text \<open>The socket number put into a segment identifier is read back from it exactly when it is
  below 0x8000: a larger one makes the identifier negative.\<close>

theorem shmid_socket_roundtrip:
  assumes "c \<le> 0x7fff" and "0 \<le> ashv_local_socket_id s" and "ashv_local_socket_id s < 0x10000"
  shows "ashv_socket_id_from_shmid (ashv_shmid_from_counter c s) = ashv_local_socket_id s
    \<longleftrightarrow> ashv_local_socket_id s < 0x8000"
  by (rule socket_id_of_shmid [OF assms])

theorem shmid_socket_roundtrip_witness:
  "ashv_socket_id_from_shmid (ashv_shmid_from_counter 3 (shm0 5)) = 5 \<and>
   ashv_socket_id_from_shmid (ashv_shmid_from_counter 3 (shm0 0x9000)) \<noteq> 0x9000"
  using shmid_socket_roundtrip [of 3 "shm0 5"] shmid_socket_roundtrip [of 3 "shm0 0x9000"]
  by (simp add: shm0_def)

text \<open>A process that creates a private segment, attaches it and detaches it again keeps the
  segment, which nobody asked to remove, exactly when its socket number is below 0x8000; otherwise
  the detach closes and forgets it.\<close>

theorem shmdt_keeps_own:
  assumes "ready s" and "round_up len (getpagesize s) \<noteq> 0"
  shows "\<exists>i s1 a s2 s3. shmget IPC_PRIVATE len flags s = Some (i, s1) \<and> shmat i 0 0 s1 = (Some a, s2) \<and>
    shmdt a s2 = Some (0, s3) \<and>
    (ashv_find_local_index i s3 \<noteq> None \<longleftrightarrow> ashv_local_socket_id s < 0x8000)"
proof -
  let ?e = "(own_entry len s)\<lparr>sm_addr := Suc (next_no s)\<rparr>" and ?i = "fst (next_shmid s)"
  have inv: "shm_inv s" and fresh: "\<forall>x \<in> set (shmem s). sm_id x \<noteq> ?i" using assms(1) by (simp_all add: ready_def)
  have id: "ashv_socket_id_from_shmid ?i = ashv_local_socket_id s \<longleftrightarrow> ashv_local_socket_id s < 0x8000"
    using socket_id_of_shmid [OF counter_le, of s] assms(1) by (simp add: next_shmid_def Let_def ready_def)
  have t: "\<not> syscall_supported (attached len s)" "ashv_pid_setup (attached len s) = getpid (attached len s)"
    "shmem (attached len s) = shmem s @ [?e]" "ashv_local_socket_id (attached len s) = ashv_local_socket_id s"
    using assms(1) by (simp_all add: attached_def got_def next_shmid_sel ready_def)
  have e: "sm_addr ?e = Suc (next_no s)" "\<not> markedForDeletion ?e" "sm_id ?e = ?i" "sm_descriptor ?e \<noteq> 0"
    using inv by (simp_all add: own_entry_def shm_inv_def numbers_ok_def)
  have "\<forall>x \<in> set (shmem s). sm_addr x \<noteq> sm_addr ?e"
    using addr_unused(2) [OF inv, of "Suc (next_no s)"] e(1) by simp
  note dt = shmdt_last [OF t(1,2,3) this e(4)]
  obtain s3 where s3: "shmdt (Suc (next_no s)) (attached len s) = Some (0, s3)"
    "shmem s3 = (if ashv_local_socket_id s < 0x8000 then shmem s @ [?e\<lparr>sm_addr := 0\<rparr>] else shmem s)"
    using dt id e(2,3) t(4) by (auto simp: e(1))
  have "ashv_find_local_index ?i s3 \<noteq> None \<longleftrightarrow> ashv_local_socket_id s < 0x8000"
    using s3(2) fresh e(3)
    by (simp add: ashv_find_local_index_def index_from_append index_from_None split: option.split)
  with s3(1) shmget_ready [OF assms(1)] shmat_got [OF assms] show ?thesis by blast
qed

theorem shmdt_keeps_own_witness:
  "\<exists>i s1 a s2 s3. shmget IPC_PRIVATE 100 0 (shm0 0x9000) = Some (i, s1) \<and> shmat i 0 0 s1 = (Some a, s2) \<and>
    shmdt a s2 = Some (0, s3) \<and> ashv_find_local_index i s3 = None"
proof -
  have "\<not> ashv_local_socket_id (shm0 0x9000) < 0x8000" by (simp add: shm0_def)
  with shmdt_keeps_own [OF shm0_ready shm0_page, of "0x9000" 0] show ?thesis by auto
qed

text \<open>C31: A segment removed with \<open>IPC_RMID\<close> while attached stays mapped until it is detached; the detach
  then takes away its table entry, its descriptor and its mapping, and leaves the others as they were
  before the segment was created.\<close>

theorem shm_rmid_at_detach:
  assumes "ready s" and "round_up len (getpagesize s) \<noteq> 0"
  shows "\<exists>i s1 a s2 s3 s4. shmget IPC_PRIVATE len flags s = Some (i, s1) \<and> shmat i 0 0 s1 = (Some a, s2) \<and>
    shmctl i IPC_RMID None s2 = Some (0, None, s3) \<and> maps s3 a \<noteq> None \<and> shmdt a s3 = Some (0, s4) \<and>
    shmem s4 = shmem s \<and> sfds s4 = sfds s \<and> maps s4 = maps s"
proof -
  let ?i = "fst (next_shmid s)" and ?a = "Suc (next_no s)"
  let ?e = "(own_entry len s)\<lparr>sm_addr := ?a\<rparr>"
  let ?m = "?e\<lparr>markedForDeletion := True\<rparr>"
  let ?t = "(attached len s)\<lparr>shmem := shmem s @ [?m]\<rparr>"
  have inv: "shm_inv s" and fresh: "\<forall>x \<in> set (shmem s). sm_id x \<noteq> sm_id ?e"
    using assms(1) by (simp_all add: ready_def own_entry_def)
  have n: "maps s ?a = None" "\<forall>x \<in> set (shmem s). sm_addr x \<noteq> sm_addr ?m" "int (next_no s) \<notin> sfds s" "0 < next_no s"
    using addr_unused [OF inv, of ?a] inv by (auto simp: shm_inv_def numbers_ok_def)
  have t: "\<not> syscall_supported (attached len s)" "ashv_pid_setup (attached len s) = getpid (attached len s)"
    "shmem (attached len s) = shmem s @ [?e]"
    using assms(1) by (simp_all add: attached_def got_def next_shmid_sel ready_def)
  have "ashv_find_local_index ?i (attached len s) = Some (length (shmem s))"
    using find_local_last [OF t(3) fresh] by (simp add: own_entry_def)
  then have ctl: "shmctl ?i IPC_RMID None (attached len s) = Some (0, None, ?t)"
    using t by (simp add: shmctl_def check_pid_ready Let_def)
  have tab: "shmem ?t = shmem s @ [?m]" "\<not> syscall_supported ?t" "ashv_pid_setup ?t = getpid ?t" using t by simp_all
  have m: "markedForDeletion ?m" "sm_addr ?m = ?a" "sm_descriptor ?m = int (next_no s)" "sm_descriptor ?m \<noteq> 0"
    using n(4) by (simp_all add: own_entry_def)
  obtain s4 where s4: "shmdt ?a ?t = Some (0, s4)" "shmem s4 = shmem s" "maps s4 = (maps ?t)(?a := None)"
    "sfds s4 = sfds ?t - {int (next_no s)}"
    using shmdt_last [OF tab(2,3,1) n(2) m(4)] unfolding m(2,3) by (simp add: m(1))
  have "maps ?t ?a \<noteq> None" "(maps ?t)(?a := None) = maps s" "sfds ?t - {int (next_no s)} = sfds s"
    using n by (auto simp: attached_def got_def)
  with s4 shmget_ready [OF assms(1), of len flags] shmat_got [OF assms, of 0] ctl show ?thesis by metis
qed

theorem shm_rmid_at_detach_witness:
  "\<exists>i s1 a s2 s3 s4. shmget IPC_PRIVATE 100 0 (shm0 5) = Some (i, s1) \<and> shmat i 0 0 s1 = (Some a, s2) \<and>
    shmctl i IPC_RMID None s2 = Some (0, None, s3) \<and> maps s3 a \<noteq> None \<and> shmdt a s3 = Some (0, s4) \<and>
    shmem s4 = shmem (shm0 5) \<and> sfds s4 = sfds (shm0 5) \<and> maps s4 = maps (shm0 5)"
  by (rule shm_rmid_at_detach [OF shm0_ready shm0_page]) simp_all

text \<open>C32: A listening process that asks for a segment by key gets an answer, whatever calls fail on
  the way, when symbolic links can be made; when they cannot and the key has none, the call never
  returns.\<close>

theorem shmget_key_returns:
  assumes "\<not> syscall_supported s" and "ashv_pid_setup s = getpid s" and "listening s" and "shm_inv s"
    and "key \<noteq> IPC_PRIVATE"
  shows "(tmp_writable s \<longrightarrow> shmget key len flags s \<noteq> None) \<and>
    (\<not> tmp_writable s \<and> symlinks s key = None \<longrightarrow> shmget key len flags s = None)"
proof -
  have start: "start_listening (ashv_check_pid s) = Some (True, s)"
    using assms(2,3) by (simp add: check_pid_ready start_listening_def)
  have "shmget key len flags s \<noteq> None" if writable: "tmp_writable s"
  proof -
    obtain r t where r: "claim_key key (- 1) s = Some (r, t)" using claim_key_returns [OF writable] by fastforce
    then show ?thesis
      using assms(1,5) start claim_key_inv [OF r assms(4)] by (cases r) (simp_all add: shmget_def rd_def)
  qed
  moreover have "shmget key len flags s = None" if "\<not> tmp_writable s" "symlinks s key = None"
    using assms(1,5) start claim_key_diverges [OF that] by (simp add: shmget_def)
  ultimately show ?thesis by blast
qed

theorem shmget_key_returns_witness:
  "shmget 9 100 0 (shm0 5) \<noteq> None \<and> shmget 9 100 0 ((shm0 5)\<lparr>tmp_writable := False\<rparr>) = None"
proof -
  have "shm_inv ((shm0 5)\<lparr>tmp_writable := False\<rparr>)" by (rule shm_inv_frame [OF shm0_inv]) simp_all
  then show ?thesis
    using shmget_key_returns [of "shm0 5" 9 100 0] shm0_inv [of 5]
      shmget_key_returns [of "(shm0 5)\<lparr>tmp_writable := False\<rparr>" 9 100 0]
    by (simp add: shm0_def IPC_PRIVATE_def)
qed

end
