(* ===== verification/Resource.thy ===== *)
theory Resource
  imports Dix "HOL-Library.Monad_Syntax" "HOL-Library.Sublist"
begin

text \<open>
  The resource database of the X server, \<open>xserver/dix/resource.c\<close>: for every client a hash table with
  chained buckets, doubled when it is four times as full as it has buckets, in which the same
  identifier may stand several times under different types. A chain is the list of its records. The
  functions that delete a resource belong to other parts of the server and may change the tables
  themselves: they are the parameter \<open>df\<close>, and a loop that looks into an array of buckets freed
  meanwhile ends in \<open>None\<close>, as do \<open>FatalError\<close> and an index out of range. Callbacks on the state of a
  resource only observe and are a log. The cached logarithm of \<open>ResourceClientBits\<close> and the cached
  mask of \<open>HashResourceID\<close> are recomputed, as the limit of clients is set once, at start.
\<close>

unbundle bit_operations_syntax

section \<open>Data\<close>

type_synonym restype = u32

record ResourceRec =
  res_id :: xid
  res_type :: restype
  res_value :: nat

record ClientResourceRec =
  resources :: "ResourceRec list list"
  elements :: int
  buckets :: nat
  hashsize :: nat
  fakeID :: xid
  endFakeID :: xid

datatype deleteFunc =
    Del_NoopDDA | Del_DeleteWindow | Del_dixDestroyPixmap | Del_FreeGC | Del_CloseFont | Del_FreeCursor
  | Del_FreeColormap | Del_FreeClientPixels | Del_OtherClientGone | Del_DeletePassiveGrab | Del_Extension nat

datatype sizeFunc = Size_GetDefaultBytes | Size_GetWindowBytes | Size_GetPixmapBytes | Size_GetGcBytes | Size_Other nat

datatype findSubResFunc = Sub_DefaultFindSubRes | Sub_FindWindowSubRes | Sub_FindGCSubRes | Sub_Other nat

record ResourceType =
  deleteFunc :: deleteFunc
  sizeFunc :: sizeFunc
  findSubResFunc :: findSubResFunc
  rt_errorValue :: xstatus

datatype resource_event = ResourceStateAdding ResourceRec | ResourceStateFreeing ResourceRec

record resdb =
  clientTable :: "client \<Rightarrow> ClientResourceRec"
  lastResourceType :: restype
  lastResourceClass :: restype
  TypeMask :: restype
  resourceTypes :: "ResourceType list"
  LimitClients :: nat
  noPanoramiXExtension :: bool
  exceptions :: "client set"
  errorValues :: "client \<Rightarrow> xid"
  res_log :: "resource_event list"
  res_mallocs :: "bool list"

text \<open>A delete function gets the value and the identifier of the resource.\<close>

type_synonym deleter = "deleteFunc \<Rightarrow> nat \<Rightarrow> xid \<Rightarrow> resdb \<Rightarrow> resdb option"

type_synonym res_policy = "client \<Rightarrow> xid \<Rightarrow> restype \<Rightarrow> mask \<Rightarrow> xstatus"

definition SERVER_MINID :: xid where "SERVER_MINID = 32"
definition INITBUCKETS :: nat where "INITBUCKETS = 64"
definition INITHASHSIZE :: nat where "INITHASHSIZE = 6"
definition MAXHASHSIZE :: nat where "MAXHASHSIZE = 16"
definition SERVER_BIT :: xid where "SERVER_BIT = 0x40000000"
definition RC_DRAWABLE :: restype where "RC_DRAWABLE = push_bit 30 1"
definition RC_NEVERRETAIN :: restype where "RC_NEVERRETAIN = push_bit 29 1"
definition RC_LASTPREDEF :: restype where "RC_LASTPREDEF = RC_NEVERRETAIN"
definition RC_ANY :: restype where "RC_ANY = NOT 0"
definition RT_LASTPREDEF :: restype where "RT_LASTPREDEF = 9"

definition res_malloc :: "resdb \<Rightarrow> bool \<times> resdb" where
  "res_malloc st = (case res_mallocs st of [] \<Rightarrow> (True, st) | b # bs \<Rightarrow> (b, st\<lparr>res_mallocs := bs\<rparr>))"

definition upd_table :: "client \<Rightarrow> (ClientResourceRec \<Rightarrow> ClientResourceRec) \<Rightarrow> resdb \<Rightarrow> resdb" where
  "upd_table c f st = st\<lparr>clientTable := (clientTable st)(c := f (clientTable st c))\<rparr>"

definition CallResourceStateCallback :: "resource_event \<Rightarrow> resdb \<Rightarrow> resdb" where
  "CallResourceStateCallback e st = st\<lparr>res_log := res_log st @ [e]\<rparr>"

section \<open>Types and classes\<close>

definition predefTypes :: "ResourceType list" where
  "predefTypes =
     [\<lparr>deleteFunc = Del_NoopDDA, sizeFunc = Size_GetDefaultBytes, findSubResFunc = Sub_DefaultFindSubRes, rt_errorValue = BadValue\<rparr>,
      \<lparr>deleteFunc = Del_DeleteWindow, sizeFunc = Size_GetWindowBytes, findSubResFunc = Sub_FindWindowSubRes, rt_errorValue = BadWindow\<rparr>,
      \<lparr>deleteFunc = Del_dixDestroyPixmap, sizeFunc = Size_GetPixmapBytes, findSubResFunc = Sub_DefaultFindSubRes, rt_errorValue = BadPixmap\<rparr>,
      \<lparr>deleteFunc = Del_FreeGC, sizeFunc = Size_GetGcBytes, findSubResFunc = Sub_FindGCSubRes, rt_errorValue = BadGC\<rparr>,
      \<lparr>deleteFunc = Del_CloseFont, sizeFunc = Size_GetDefaultBytes, findSubResFunc = Sub_DefaultFindSubRes, rt_errorValue = BadFont\<rparr>,
      \<lparr>deleteFunc = Del_FreeCursor, sizeFunc = Size_GetDefaultBytes, findSubResFunc = Sub_DefaultFindSubRes, rt_errorValue = BadCursor\<rparr>,
      \<lparr>deleteFunc = Del_FreeColormap, sizeFunc = Size_GetDefaultBytes, findSubResFunc = Sub_DefaultFindSubRes, rt_errorValue = BadColor\<rparr>,
      \<lparr>deleteFunc = Del_FreeClientPixels, sizeFunc = Size_GetDefaultBytes, findSubResFunc = Sub_DefaultFindSubRes, rt_errorValue = BadColor\<rparr>,
      \<lparr>deleteFunc = Del_OtherClientGone, sizeFunc = Size_GetDefaultBytes, findSubResFunc = Sub_DefaultFindSubRes, rt_errorValue = BadValue\<rparr>,
      \<lparr>deleteFunc = Del_DeletePassiveGrab, sizeFunc = Size_GetDefaultBytes, findSubResFunc = Sub_DefaultFindSubRes, rt_errorValue = BadValue\<rparr>]"

definition CreateNewResourceType :: "deleteFunc \<Rightarrow> resdb \<Rightarrow> restype \<times> resdb" where
  "CreateNewResourceType f st =
     (let next = lastResourceType st + 1 in
      if next AND lastResourceClass st \<noteq> 0 then (0, st)
      else
        (case res_malloc st of (ok, st1) \<Rightarrow>
           if \<not> ok then (0, st1)
           else (next, st1\<lparr>lastResourceType := next, resourceTypes := resourceTypes st1 @
             [\<lparr>deleteFunc = f, sizeFunc = Size_GetDefaultBytes, findSubResFunc = Sub_DefaultFindSubRes,
               rt_errorValue = BadValue\<rparr>]\<rparr>)))"

definition type_index :: "restype \<Rightarrow> resdb \<Rightarrow> nat" where
  "type_index t st = unat (t AND TypeMask st)"

definition upd_type :: "restype \<Rightarrow> (ResourceType \<Rightarrow> ResourceType) \<Rightarrow> resdb \<Rightarrow> resdb option" where
  "upd_type t f st = do {
     r \<leftarrow> rd (resourceTypes st) (type_index t st);
     ts \<leftarrow> wr (resourceTypes st) (type_index t st) (f r);
     Some (st\<lparr>resourceTypes := ts\<rparr>)
   }"

definition GetResourceTypeSizeFunc :: "restype \<Rightarrow> resdb \<Rightarrow> sizeFunc option" where
  "GetResourceTypeSizeFunc t st = map_option sizeFunc (rd (resourceTypes st) (type_index t st))"

definition SetResourceTypeSizeFunc :: "restype \<Rightarrow> sizeFunc \<Rightarrow> resdb \<Rightarrow> resdb option" where
  "SetResourceTypeSizeFunc t f = upd_type t (\<lambda>r. r\<lparr>sizeFunc := f\<rparr>)"

definition SetResourceTypeFindSubResFunc :: "restype \<Rightarrow> findSubResFunc \<Rightarrow> resdb \<Rightarrow> resdb option" where
  "SetResourceTypeFindSubResFunc t f = upd_type t (\<lambda>r. r\<lparr>findSubResFunc := f\<rparr>)"

definition SetResourceTypeErrorValue :: "restype \<Rightarrow> xstatus \<Rightarrow> resdb \<Rightarrow> resdb option" where
  "SetResourceTypeErrorValue t e = upd_type t (\<lambda>r. r\<lparr>rt_errorValue := e\<rparr>)"

definition CreateNewResourceClass :: "resdb \<Rightarrow> restype \<times> resdb" where
  "CreateNewResourceClass st =
     (let next = drop_bit 1 (lastResourceClass st) in
      if next AND lastResourceType st \<noteq> 0 then (0, st)
      else (next, st\<lparr>lastResourceClass := next, TypeMask := next - 1\<rparr>))"

section \<open>Identifiers\<close>

fun ilog2_loop :: "nat \<Rightarrow> nat \<Rightarrow> nat" where
  "ilog2_loop val bits = (if val = 0 then bits else ilog2_loop (val div 2) (Suc bits))"

declare ilog2_loop.simps [simp del]

definition ilog2 :: "nat \<Rightarrow> nat" where
  "ilog2 val = (if val = 0 then 0 else ilog2_loop val 0 - 1)"

definition ResourceClientBits :: "resdb \<Rightarrow> nat" where
  "ResourceClientBits st = ilog2 (LimitClients st)"

definition CLIENTOFFSET :: "resdb \<Rightarrow> nat" where
  "CLIENTOFFSET st = 29 - ResourceClientBits st"

definition RESOURCE_ID_MASK :: "resdb \<Rightarrow> xid" where
  "RESOURCE_ID_MASK st = push_bit (CLIENTOFFSET st) 1 - 1"

definition RESOURCE_CLIENT_MASK :: "resdb \<Rightarrow> xid" where
  "RESOURCE_CLIENT_MASK st = push_bit (CLIENTOFFSET st) (push_bit (ResourceClientBits st) 1 - 1)"

definition CLIENT_ID :: "xid \<Rightarrow> resdb \<Rightarrow> client" where
  "CLIENT_ID rid st = unat (drop_bit (CLIENTOFFSET st) (rid AND RESOURCE_CLIENT_MASK st))"

definition clientAsMask :: "client \<Rightarrow> resdb \<Rightarrow> xid" where
  "clientAsMask c st = push_bit (CLIENTOFFSET st) (of_nat c)"

definition InitClientResources :: "client \<Rightarrow> resdb \<Rightarrow> bool \<times> resdb" where
  "InitClientResources c st =
     (case (if c = serverClient then
              (case res_malloc (st\<lparr>lastResourceType := RT_LASTPREDEF, lastResourceClass := RC_LASTPREDEF,
                      TypeMask := RC_LASTPREDEF - 1, resourceTypes := []\<rparr>) of (ok, st1) \<Rightarrow>
                 if ok then (True, st1\<lparr>resourceTypes := predefTypes\<rparr>) else (False, st1))
            else (True, st)) of (ok, st1) \<Rightarrow>
        if \<not> ok then (False, st1)
        else
          (case res_malloc st1 of (ok, st2) \<Rightarrow>
             if \<not> ok then (False, upd_table c (\<lambda>t. t\<lparr>resources := []\<rparr>) st2)
             else
               let fid = clientAsMask c st2 OR (if c \<noteq> 0 then SERVER_BIT else SERVER_MINID) in
               (True, upd_table c (\<lambda>t. \<lparr>resources = replicate INITBUCKETS [], elements = 0, buckets = INITBUCKETS,
                  hashsize = INITHASHSIZE, fakeID = fid, endFakeID = (fid OR RESOURCE_ID_MASK st2) + 1\<rparr>) st2)))"

definition HashResourceID :: "xid \<Rightarrow> nat \<Rightarrow> resdb \<Rightarrow> nat" where
  "HashResourceID rid numBits st =
     (let i = rid AND RESOURCE_ID_MASK st; low = NOT (push_bit numBits (NOT 0)) in
      if numBits < 9 then unat ((i XOR drop_bit numBits i XOR drop_bit (2 * numBits) i) AND low)
      else unat ((i XOR drop_bit numBits i) AND low))"

text \<open>The chain in which an identifier of a client belongs.\<close>

definition chain_index :: "client \<Rightarrow> xid \<Rightarrow> resdb \<Rightarrow> nat" where
  "chain_index c rid st = HashResourceID rid (hashsize (clientTable st c)) st"

definition chain :: "client \<Rightarrow> xid \<Rightarrow> resdb \<Rightarrow> ResourceRec list option" where
  "chain c rid st = rd (resources (clientTable st c)) (chain_index c rid st)"

section \<open>Free identifiers\<close>

partial_function (option) AvailableID_from :: "client \<Rightarrow> xid \<Rightarrow> xid \<Rightarrow> resdb \<Rightarrow> xid option" where
  "AvailableID_from c rid maxid st =
     (if rid \<le> maxid then
        (case chain c rid st of
           None \<Rightarrow> None
         | Some rs \<Rightarrow> if \<forall>r \<in> set rs. res_id r \<noteq> rid then Some rid else AvailableID_from c (rid + 1) maxid st)
      else Some 0)"

definition AvailableID :: "client \<Rightarrow> xid \<Rightarrow> xid \<Rightarrow> xid \<Rightarrow> resdb \<Rightarrow> xid option" where
  "AvailableID c rid maxid goodid st =
     (if rid \<le> goodid \<and> goodid \<le> maxid then Some goodid else AvailableID_from c rid maxid st)"

text \<open>One resource of the scan of \<open>GetXIDRange\<close> splits the range \<open>(rid, maxid)\<close>; the third component is a
  free identifier found so far.\<close>

definition range_step :: "client \<Rightarrow> resdb \<Rightarrow> ResourceRec \<Rightarrow> xid \<times> xid \<times> xid \<Rightarrow> (xid \<times> xid \<times> xid) option" where
  "range_step c st r x =
     (case x of (rid, maxid, goodid) \<Rightarrow>
        if res_id r < rid \<or> maxid < res_id r then Some x
        else if maxid - res_id r \<le> res_id r - rid then do {
          g \<leftarrow> AvailableID c rid (res_id r - 1) goodid st;
          Some (if g \<noteq> 0 then (rid, res_id r - 1, g) else (res_id r + 1, maxid, g))
        }
        else do {
          g \<leftarrow> AvailableID c (res_id r + 1) maxid goodid st;
          Some (if g = 0 then (rid, res_id r - 1, g) else (res_id r + 1, maxid, g))
        })"

fun range_scan :: "client \<Rightarrow> resdb \<Rightarrow> ResourceRec list \<Rightarrow> xid \<times> xid \<times> xid \<Rightarrow> (xid \<times> xid \<times> xid) option" where
  "range_scan c st [] x = Some x"
| "range_scan c st (r # rs) x = Option.bind (range_step c st r x) (range_scan c st rs)"

definition all_resources :: "client \<Rightarrow> resdb \<Rightarrow> ResourceRec list" where
  "all_resources c st = concat (take (buckets (clientTable st c)) (resources (clientTable st c)))"

definition range_start :: "client \<Rightarrow> bool \<Rightarrow> resdb \<Rightarrow> xid" where
  "range_start c server st =
     (if server then clientAsMask c st OR (if c \<noteq> 0 then SERVER_BIT else SERVER_MINID) else clientAsMask c st)"

definition GetXIDRange :: "client \<Rightarrow> bool \<Rightarrow> resdb \<Rightarrow> (xid \<times> xid) option" where
  "GetXIDRange c server st =
     (let rid = range_start c server st in do {
        (lo, hi, good) \<leftarrow> range_scan c st (all_resources c st) (rid, rid OR RESOURCE_ID_MASK st, 0);
        Some (if hi < lo then (0, 0) else (lo, hi))
      })"

text \<open>The number of \<open>FakeClientID\<close> past the end of its range; \<open>None\<close> is the fatal error of the server's own
  client.\<close>

definition FakeClientID :: "client \<Rightarrow> resdb \<Rightarrow> (xid \<times> resdb) option" where
  "FakeClientID c st =
     (let t = clientTable st c; rid = fakeID t; st1 = upd_table c (\<lambda>t. t\<lparr>fakeID := fakeID t + 1\<rparr>) st in
      if rid \<noteq> endFakeID t then Some (rid, st1)
      else do {
        (lo, hi) \<leftarrow> GetXIDRange c True st1;
        (if lo = 0 then
           if c = 0 then None
           else
             let id2 = clientAsMask c st1 OR (SERVER_BIT * 3); max2 = id2 OR RESOURCE_ID_MASK st1 in
             Some (id2, upd_table c (\<lambda>t. t\<lparr>fakeID := id2 + 1, endFakeID := max2 + 1\<rparr>)
               (st1\<lparr>exceptions := insert c (exceptions st1)\<rparr>))
         else Some (lo, upd_table c (\<lambda>t. t\<lparr>fakeID := lo + 1, endFakeID := hi + 1\<rparr>) st1))
      })"

section \<open>Adding\<close>

text \<open>The records are moved to twice as many chains, in order.\<close>

definition rehash :: "nat \<Rightarrow> resdb \<Rightarrow> ResourceRec list \<Rightarrow> ResourceRec list list \<Rightarrow> ResourceRec list list option" where
  "rehash numBits st rs table =
     fold (\<lambda>r acc. do {
        tb \<leftarrow> acc;
        b \<leftarrow> rd tb (HashResourceID (res_id r) numBits st);
        wr tb (HashResourceID (res_id r) numBits st) (b @ [r])
      }) rs (Some table)"

definition RebuildTable :: "client \<Rightarrow> resdb \<Rightarrow> resdb option" where
  "RebuildTable c st =
     (case res_malloc st of (ok, st1) \<Rightarrow>
        if \<not> ok then Some st1
        else
          (case res_malloc st1 of (ok, st2) \<Rightarrow>
             if \<not> ok then Some st2
             else
               let t = clientTable st2 c; n = 2 * buckets t; hs = Suc (hashsize t) in do {
                 new \<leftarrow> rehash hs st2 (all_resources c st2) (replicate n []);
                 Some (upd_table c (\<lambda>t. t\<lparr>resources := new, buckets := n, hashsize := hs\<rparr>) st2)
               }))"

definition call_delete :: "deleter \<Rightarrow> restype \<Rightarrow> nat \<Rightarrow> xid \<Rightarrow> resdb \<Rightarrow> resdb option" where
  "call_delete df t v rid st = do {
     r \<leftarrow> rd (resourceTypes st) (type_index t st);
     df (deleteFunc r) v rid st
   }"

definition put_chain :: "client \<Rightarrow> nat \<Rightarrow> ResourceRec list \<Rightarrow> int \<Rightarrow> resdb \<Rightarrow> resdb" where
  "put_chain c b rs n st =
     upd_table c (\<lambda>t. t\<lparr>resources := (resources t)[b := rs], elements := elements t + n\<rparr>) st"

definition AddResource :: "deleter \<Rightarrow> xid \<Rightarrow> restype \<Rightarrow> nat \<Rightarrow> resdb \<Rightarrow> (bool \<times> resdb) option" where
  "AddResource df rid type value st =
     (let c = CLIENT_ID rid st; t = clientTable st c in
      if buckets t = 0 then None
      else do {
        st1 \<leftarrow> (if 4 * int (buckets t) \<le> elements t \<and> hashsize t < MAXHASHSIZE then RebuildTable c st else Some st);
        rs \<leftarrow> chain c rid st1;
        (case res_malloc st1 of (ok, st2) \<Rightarrow>
           if \<not> ok then map_option (\<lambda>st3. (False, st3)) (call_delete df type value rid st2)
           else
             let res = \<lparr>res_id = rid, res_type = type, res_value = value\<rparr> in
             Some (True, CallResourceStateCallback (ResourceStateAdding res)
               (put_chain c (chain_index c rid st2) (res # rs) 1 st2)))
      })"

section \<open>Freeing\<close>

definition doFreeResource :: "deleter \<Rightarrow> ResourceRec \<Rightarrow> bool \<Rightarrow> resdb \<Rightarrow> resdb option" where
  "doFreeResource df res skip st =
     (let st1 = CallResourceStateCallback (ResourceStateFreeing res) st in
      if \<not> skip then call_delete df (res_type res) (res_value res) (res_id res) st1 else Some st1)"

text \<open>The loop that unlinks and frees the records of a chain that satisfy \<open>p\<close>, starting over when the
  number of elements shows that a delete function changed the table; the array of chains it
  points into must still be there.\<close>

partial_function (option) free_loop ::
    "deleter \<Rightarrow> (ResourceRec \<Rightarrow> bool) \<Rightarrow> (ResourceRec \<Rightarrow> bool) \<Rightarrow> client \<Rightarrow> nat \<Rightarrow> nat \<Rightarrow> resdb \<Rightarrow> resdb option" where
  "free_loop df p skip c b k st =
     (case rd (resources (clientTable st c)) b of
        None \<Rightarrow> None
      | Some rs \<Rightarrow>
          if length rs \<le> k then Some st
          else if p (rs ! k) then
            let st1 = put_chain c b (take k rs @ drop (Suc k) rs) (- 1) st in
            Option.bind (doFreeResource df (rs ! k) (skip (rs ! k)) st1)
              (\<lambda>st2. if length (resources (clientTable st2 c)) \<noteq> length (resources (clientTable st1 c)) then None
                     else if elements (clientTable st2 c) \<noteq> elements (clientTable st1 c)
                     then free_loop df p skip c b 0 st2
                     else free_loop df p skip c b k st2)
          else free_loop df p skip c b (Suc k) st)"

definition FreeResource :: "deleter \<Rightarrow> xid \<Rightarrow> restype \<Rightarrow> resdb \<Rightarrow> resdb option" where
  "FreeResource df rid skipDeleteFuncType st =
     (let c = CLIENT_ID rid st in
      if c < LimitClients st \<and> buckets (clientTable st c) \<noteq> 0
      then free_loop df (\<lambda>r. res_id r = rid) (\<lambda>r. res_type r = skipDeleteFuncType) c (chain_index c rid st) 0 st
      else Some st)"

fun first_split :: "('a \<Rightarrow> bool) \<Rightarrow> 'a list \<Rightarrow> ('a list \<times> 'a \<times> 'a list) option" where
  "first_split p [] = None"
| "first_split p (x # xs) =
     (if p x then Some ([], x, xs) else map_option (\<lambda>(ys, y, zs). (x # ys, y, zs)) (first_split p xs))"

definition FreeResourceByType :: "deleter \<Rightarrow> xid \<Rightarrow> restype \<Rightarrow> bool \<Rightarrow> resdb \<Rightarrow> resdb option" where
  "FreeResourceByType df rid type skipFree st =
     (let c = CLIENT_ID rid st in
      if c < LimitClients st \<and> buckets (clientTable st c) \<noteq> 0 then do {
        rs \<leftarrow> chain c rid st;
        (case first_split (\<lambda>r. res_id r = rid \<and> res_type r = type) rs of
           None \<Rightarrow> Some st
         | Some (ys, r, zs) \<Rightarrow>
             doFreeResource df r skipFree (put_chain c (chain_index c rid st) (ys @ zs) (- 1) st))
      }
      else Some st)"

definition ChangeResourceValue :: "xid \<Rightarrow> restype \<Rightarrow> nat \<Rightarrow> resdb \<Rightarrow> (bool \<times> resdb) option" where
  "ChangeResourceValue rid rtype value st =
     (let c = CLIENT_ID rid st in
      if c < LimitClients st \<and> buckets (clientTable st c) \<noteq> 0 then do {
        rs \<leftarrow> chain c rid st;
        (case first_split (\<lambda>r. res_id r = rid \<and> res_type r = rtype) rs of
           None \<Rightarrow> Some (False, st)
         | Some (ys, r, zs) \<Rightarrow>
             Some (True, put_chain c (chain_index c rid st) (ys @ r\<lparr>res_value := value\<rparr> # zs) 0 st))
      }
      else Some (False, st))"

text \<open>The loops over all chains of a client; \<open>j\<close> counts up to the number of chains there are by then.\<close>

partial_function (option) free_never_retain :: "deleter \<Rightarrow> client \<Rightarrow> nat \<Rightarrow> resdb \<Rightarrow> resdb option" where
  "free_never_retain df c j st =
     (if j < buckets (clientTable st c) then
        Option.bind (free_loop df (\<lambda>r. res_type r AND RC_NEVERRETAIN \<noteq> 0) (\<lambda>r. False) c j 0 st)
          (free_never_retain df c (Suc j))
      else Some st)"

definition FreeClientNeverRetainResources :: "deleter \<Rightarrow> client option \<Rightarrow> resdb \<Rightarrow> resdb option" where
  "FreeClientNeverRetainResources df client st =
     (case client of None \<Rightarrow> Some st | Some c \<Rightarrow> free_never_retain df c 0 st)"

partial_function (option) free_chain :: "deleter \<Rightarrow> client \<Rightarrow> nat \<Rightarrow> resdb \<Rightarrow> resdb option" where
  "free_chain df c j st =
     (case rd (resources (clientTable st c)) j of
        None \<Rightarrow> None
      | Some [] \<Rightarrow> Some st
      | Some (r # rs) \<Rightarrow>
          let st1 = put_chain c j rs (- 1) st in
          Option.bind (doFreeResource df r False st1)
            (\<lambda>st2. if length (resources (clientTable st2 c)) \<noteq> length (resources (clientTable st1 c)) then None
                   else free_chain df c j st2))"

partial_function (option) free_chains :: "deleter \<Rightarrow> client \<Rightarrow> nat \<Rightarrow> resdb \<Rightarrow> resdb option" where
  "free_chains df c j st =
     (if j < buckets (clientTable st c) then Option.bind (free_chain df c j st) (free_chains df c (Suc j))
      else Some st)"

text \<open>\<open>save\<close> stands for \<open>HandleSaveSet\<close> of the window code.\<close>

definition FreeClientResources ::
    "deleter \<Rightarrow> (client \<Rightarrow> resdb \<Rightarrow> resdb option) \<Rightarrow> client option \<Rightarrow> resdb \<Rightarrow> resdb option" where
  "FreeClientResources df save client st =
     (case client of
        None \<Rightarrow> Some st
      | Some c \<Rightarrow> do {
          st1 \<leftarrow> save c st;
          st2 \<leftarrow> free_chains df c 0 st1;
          Some (upd_table c (\<lambda>t. t\<lparr>resources := [], buckets := 0\<rparr>) st2)
        })"

fun FreeAllResources ::
    "deleter \<Rightarrow> (client \<Rightarrow> resdb \<Rightarrow> resdb option) \<Rightarrow> nat \<Rightarrow> resdb \<Rightarrow> resdb option" where
  "FreeAllResources df save 0 st = Some st"
| "FreeAllResources df save (Suc i) st = do {
     st1 \<leftarrow> (if buckets (clientTable st i) \<noteq> 0 then FreeClientResources df save (Some i) st else Some st);
     FreeAllResources df save i st1
   }"

section \<open>Looking up\<close>

definition set_errorValue :: "client option \<Rightarrow> xid \<Rightarrow> resdb \<Rightarrow> resdb" where
  "set_errorValue client rid st =
     (case client of None \<Rightarrow> st | Some c \<Rightarrow> st\<lparr>errorValues := (errorValues st)(c := rid)\<rparr>)"

definition find_resource :: "xid \<Rightarrow> (ResourceRec \<Rightarrow> bool) \<Rightarrow> resdb \<Rightarrow> ResourceRec option option" where
  "find_resource rid p st =
     (let c = CLIENT_ID rid st in
      if c < LimitClients st \<and> buckets (clientTable st c) \<noteq> 0
      then map_option (find (\<lambda>r. res_id r = rid \<and> p r)) (chain c rid st) else Some None)"

definition dixLookupResourceByType ::
    "res_policy \<Rightarrow> xid \<Rightarrow> restype \<Rightarrow> client option \<Rightarrow> mask \<Rightarrow> resdb \<Rightarrow> (xstatus \<times> nat option \<times> resdb) option" where
  "dixLookupResourceByType pol rid rtype client mode st =
     (if lastResourceType st < rtype AND TypeMask st then Some (BadImplementation, None, st)
      else do {
        res \<leftarrow> find_resource rid (\<lambda>r. res_type r = rtype) st;
        t \<leftarrow> rd (resourceTypes st) (type_index rtype st);
        let st1 = set_errorValue client rid st;
        Some (case res of
           None \<Rightarrow> (rt_errorValue t, None, st1)
         | Some r \<Rightarrow>
             let rc = (case client of None \<Rightarrow> Success | Some c \<Rightarrow> pol c rid (res_type r) mode) in
             if rc = BadValue then (rt_errorValue t, None, st1)
             else if rc \<noteq> Success then (rc, None, st1)
             else (Success, Some (res_value r), st1))
      })"

definition dixLookupResourceByClass ::
    "res_policy \<Rightarrow> xid \<Rightarrow> restype \<Rightarrow> client option \<Rightarrow> mask \<Rightarrow> resdb \<Rightarrow> (xstatus \<times> nat option \<times> resdb) option" where
  "dixLookupResourceByClass pol rid rclass client mode st = do {
     res \<leftarrow> find_resource rid (\<lambda>r. res_type r AND rclass \<noteq> 0) st;
     let st1 = set_errorValue client rid st;
     Some (case res of
        None \<Rightarrow> (BadValue, None, st1)
      | Some r \<Rightarrow>
          let rc = (case client of None \<Rightarrow> Success | Some c \<Rightarrow> pol c rid (res_type r) mode) in
          if rc \<noteq> Success then (rc, None, st1) else (Success, Some (res_value r), st1))
   }"

definition LegalNewID :: "res_policy \<Rightarrow> xid \<Rightarrow> client \<Rightarrow> resdb \<Rightarrow> (bool \<times> resdb) option" where
  "LegalNewID pol rid c st =
     (let minid = clientAsMask c st OR (if c \<noteq> 0 then SERVER_BIT else SERVER_MINID);
          maxid = (fakeID (clientTable st c) OR RESOURCE_ID_MASK st) + 1 in
      if \<not> noPanoramiXExtension st \<and> minid \<le> rid \<and> rid \<le> maxid then Some (True, st)
      else if clientAsMask c st = rid AND NOT (RESOURCE_ID_MASK st) then
        map_option (\<lambda>(rc, v, st1). (rc = BadValue, st1))
          (dixLookupResourceByClass pol rid RC_ANY (Some serverClient) DixGetAttrAccess st)
      else Some (False, st))"

partial_function (option) xid_list ::
    "res_policy \<Rightarrow> nat \<Rightarrow> xid \<Rightarrow> xid \<Rightarrow> xid list \<Rightarrow> resdb \<Rightarrow> (xid list \<times> resdb) option" where
  "xid_list pol count rid maxid pids st =
     (if length pids < count \<and> rid \<le> maxid then
        (case dixLookupResourceByClass pol rid RC_ANY (Some serverClient) DixGetAttrAccess st of
           None \<Rightarrow> None
         | Some (rc, v, st1) \<Rightarrow>
             xid_list pol count (rid + 1) maxid (if rc = BadValue then pids @ [rid] else pids) st1)
      else Some (pids, st))"

definition GetXIDList :: "res_policy \<Rightarrow> client \<Rightarrow> nat \<Rightarrow> resdb \<Rightarrow> (xid list \<times> resdb) option" where
  "GetXIDList pol c count st =
     (let rid = clientAsMask c st in xid_list pol count rid (rid OR RESOURCE_ID_MASK st) [] st)"

text \<open>
  The walks over all resources of a client. \<open>func\<close> gets a record and the state; when it changes the
  number of elements the chain is walked again from its head, which must still be there. As the
  source demands of \<open>func\<close>, it does not both add and remove resources.
\<close>

partial_function (option) walk_chain ::
    "(ResourceRec \<Rightarrow> bool) \<Rightarrow> (ResourceRec \<Rightarrow> resdb \<Rightarrow> resdb option) \<Rightarrow> client \<Rightarrow> nat \<Rightarrow> nat \<Rightarrow> ResourceRec list
       \<Rightarrow> resdb \<Rightarrow> resdb option" where
  "walk_chain p func c len i this st =
     (case this of
        [] \<Rightarrow> Some st
      | r # next \<Rightarrow>
          if p r then
            Option.bind (func r st)
              (\<lambda>st1. if elements (clientTable st1 c) = elements (clientTable st c) then walk_chain p func c len i next st1
                     else if length (resources (clientTable st1 c)) \<noteq> len then None
                     else Option.bind (rd (resources (clientTable st1 c)) i)
                            (\<lambda>head. walk_chain p func c len i head st1))
          else walk_chain p func c len i next st)"

partial_function (option) walk_chains ::
    "(ResourceRec \<Rightarrow> bool) \<Rightarrow> (ResourceRec \<Rightarrow> resdb \<Rightarrow> resdb option) \<Rightarrow> client \<Rightarrow> nat \<Rightarrow> nat \<Rightarrow> resdb \<Rightarrow> resdb option" where
  "walk_chains p func c len i st =
     (if i < buckets (clientTable st c) then
        Option.bind (rd (resources (clientTable st c)) i)
          (\<lambda>head. Option.bind (walk_chain p func c len i head st) (walk_chains p func c len (Suc i)))
      else Some st)"

definition the_client :: "client option \<Rightarrow> client" where
  "the_client client = (case client of None \<Rightarrow> serverClient | Some c \<Rightarrow> c)"

definition FindClientResourcesByType ::
    "client option \<Rightarrow> restype \<Rightarrow> (ResourceRec \<Rightarrow> resdb \<Rightarrow> resdb option) \<Rightarrow> resdb \<Rightarrow> resdb option" where
  "FindClientResourcesByType client type func st =
     (let c = the_client client in
      walk_chains (\<lambda>r. type = 0 \<or> res_type r = type) func c (length (resources (clientTable st c))) 0 st)"

definition FindAllClientResources ::
    "client option \<Rightarrow> (ResourceRec \<Rightarrow> resdb \<Rightarrow> resdb option) \<Rightarrow> resdb \<Rightarrow> resdb option" where
  "FindAllClientResources client func st =
     (let c = the_client client in walk_chains (\<lambda>r. True) func c (length (resources (clientTable st c))) 0 st)"

text \<open>Here \<open>func\<close> only looks at the resources and says which one is meant.\<close>

definition LookupClientResourceComplex ::
    "client option \<Rightarrow> restype \<Rightarrow> (nat \<Rightarrow> xid \<Rightarrow> bool) \<Rightarrow> resdb \<Rightarrow> nat option" where
  "LookupClientResourceComplex client type func st =
     map_option res_value (find (\<lambda>r. (type = 0 \<or> res_type r = type) \<and> func (res_value r) (res_id r))
       (all_resources (the_client client) st))"

end
