(* ===== verification/ResourceProps.thy ===== *)
theory ResourceProps
  imports Resource "HOL-Library.Multiset"
begin

text \<open>
  What the resource database promises. Its records are in the chains their identifiers hash to, and
  every pair of an identifier and a type names a stack of values: adding pushes, freeing by type
  pops, and a lookup reads the top, whatever rebuilding happens in between. Ranges of identifiers
  handed out are free, and the freeing loops end although the delete functions they call free
  further resources.
\<close>

unbundle bit_operations_syntax

section \<open>Words\<close>

lemma low_mask: "NOT (push_bit n (NOT 0 :: u32)) = mask n"
  by (simp add: push_bit_minus_one_eq_not_mask)

lemma HashResourceID_less:
  assumes "n \<le> 16"
  shows "HashResourceID i n st < 2 ^ n"
proof -
  have "unat (x AND mask n :: u32) < 2 ^ n" for x
    by (metis take_bit_eq_mask unsigned_take_bit_eq take_bit_nat_less_exp)
  then show ?thesis by (simp add: HashResourceID_def low_mask Let_def)
qed

lemma word_pred_le:
  fixes r :: u32
  assumes "r \<noteq> 0"
  shows "x \<le> r - 1 \<longleftrightarrow> x < r"
proof -
  have "unat (r - 1) = unat r - 1" using assms by (simp add: unat_minus_one)
  moreover have "0 < unat r" using assms by (simp add: unat_gt_0)
  ultimately show ?thesis by (auto simp: word_le_nat_alt word_less_nat_alt)
qed

lemma word_succ_le:
  fixes r :: u32
  assumes "r < s"
  shows "r + 1 \<le> x \<longleftrightarrow> r < x"
proof -
  have "unat (r + 1) = Suc (unat r)"
  proof -
    have "unat s < 2 ^ 32" using unsigned_less [of s] by simp
    then have "unat r + 1 < 2 ^ 32" using assms by (simp add: word_less_nat_alt)
    then show ?thesis by (simp add: unat_word_ariths(1))
  qed
  then show ?thesis by (auto simp: word_le_nat_alt word_less_nat_alt)
qed

section \<open>The invariant\<close>

definition limit_ok :: "resdb \<Rightarrow> bool" where
  "limit_ok st \<longleftrightarrow> LimitClients st \<in> {64, 128, 256, 512, 1024, 2048}"

definition table_ok :: "client \<Rightarrow> resdb \<Rightarrow> bool" where
  "table_ok c st \<longleftrightarrow> (let t = clientTable st c in
     length (resources t) = buckets t \<and> elements t = int (length (concat (resources t))) \<and>
     (buckets t \<noteq> 0 \<longrightarrow> buckets t = 2 ^ hashsize t \<and> hashsize t \<le> MAXHASHSIZE) \<and>
     (\<forall>b < buckets t. \<forall>r \<in> set (resources t ! b). HashResourceID (res_id r) (hashsize t) st = b))"

definition types_ok :: "resdb \<Rightarrow> bool" where
  "types_ok st \<longleftrightarrow> length (resourceTypes st) = Suc (unat (lastResourceType st))"

definition valid_type :: "restype \<Rightarrow> resdb \<Rightarrow> bool" where
  "valid_type t st \<longleftrightarrow> t AND TypeMask st \<le> lastResourceType st"

definition db_inv :: "resdb \<Rightarrow> bool" where
  "db_inv st \<longleftrightarrow> limit_ok st \<and> types_ok st \<and>
     (\<forall>c. table_ok c st \<and> (\<forall>r \<in> set (all_resources c st). valid_type (res_type r) st))"

lemma type_index_less:
  assumes "types_ok st" and "valid_type t st"
  shows "type_index t st < length (resourceTypes st)"
  using assms by (simp add: types_ok_def valid_type_def type_index_def word_le_nat_alt)

lemma table_okD:
  assumes "table_ok c st"
  shows "length (resources (clientTable st c)) = buckets (clientTable st c)"
    and "elements (clientTable st c) = int (length (concat (resources (clientTable st c))))"
    and "buckets (clientTable st c) \<noteq> 0 \<Longrightarrow> buckets (clientTable st c) = 2 ^ hashsize (clientTable st c)"
    and "buckets (clientTable st c) \<noteq> 0 \<Longrightarrow> hashsize (clientTable st c) \<le> 16"
    and "b < buckets (clientTable st c) \<Longrightarrow> r \<in> set (resources (clientTable st c) ! b)
      \<Longrightarrow> HashResourceID (res_id r) (hashsize (clientTable st c)) st = b"
  using assms by (auto simp: table_ok_def Let_def MAXHASHSIZE_def)

lemma ilog2_values:
  "ilog2 64 = 6" "ilog2 128 = 7" "ilog2 256 = 8" "ilog2 512 = 9" "ilog2 1024 = 10" "ilog2 2048 = 11"
  by (simp_all add: ilog2_def ilog2_loop.simps)

lemma CLIENT_ID_less:
  assumes "limit_ok st"
  shows "CLIENT_ID i st < LimitClients st"
proof -
  have and_le: "unat (x AND m) \<le> unat m" for x m :: u32
    using word_and_le1 [of x m] by (simp add: word_le_nat_alt)
  have push: "drop_bit n (x AND y) = drop_bit n x AND drop_bit n y" for n and x y :: u32
    by (simp add: drop_bit_and)
  show ?thesis
    using assms and_le [of "drop_bit (CLIENTOFFSET st) i" "drop_bit (CLIENTOFFSET st) (RESOURCE_CLIENT_MASK st)"]
    by (auto simp: limit_ok_def CLIENT_ID_def push RESOURCE_CLIENT_MASK_def CLIENTOFFSET_def
        ResourceClientBits_def ilog2_values)
qed

lemma all_resources_concat:
  assumes "table_ok c st"
  shows "all_resources c st = concat (resources (clientTable st c))"
  using table_okD(1) [OF assms] by (simp add: all_resources_def)

lemma chain_index_less:
  assumes "table_ok c st" and "buckets (clientTable st c) \<noteq> 0"
  shows "chain_index c i st < buckets (clientTable st c)"
  using HashResourceID_less [OF table_okD(4) [OF assms], of i st] table_okD(3) [OF assms]
  by (simp add: chain_index_def)

lemma chain_ok:
  assumes "table_ok c st" and "buckets (clientTable st c) \<noteq> 0"
  shows "chain c i st = Some (resources (clientTable st c) ! chain_index c i st)"
  using chain_index_less [OF assms] table_okD(1) [OF assms(1)] by (simp add: chain_def rd_def)

text \<open>The records of one identifier are all in its chain.\<close>

lemma filter_concat_single:
  assumes "k < length xss" and "\<And>b. b < length xss \<Longrightarrow> b \<noteq> k \<Longrightarrow> filter p (xss ! b) = []"
  shows "filter p (concat xss) = filter p (xss ! k)"
proof -
  have "concat (map (filter p) xss) = concat (take k (map (filter p) xss)) @ filter p (xss ! k) @
      concat (drop (Suc k) (map (filter p) xss))"
    using id_take_nth_drop [of k "map (filter p) xss"] assms(1) by (metis concat.simps(2) concat_append length_map nth_map)
  moreover have "concat (take k (map (filter p) xss)) = []"
    using assms by (auto simp: in_set_conv_nth)
  moreover have "concat (drop (Suc k) (map (filter p) xss)) = []"
    using assms by (auto simp: in_set_conv_nth)
  ultimately show ?thesis by (simp add: filter_concat)
qed

lemma chain_filter:
  assumes "table_ok c st" and "buckets (clientTable st c) \<noteq> 0" and "\<And>r. p r \<Longrightarrow> res_id r = i"
  shows "filter p (all_resources c st) = filter p (resources (clientTable st c) ! chain_index c i st)"
  unfolding all_resources_concat [OF assms(1)]
proof (rule filter_concat_single)
  show "chain_index c i st < length (resources (clientTable st c))"
    using chain_index_less [OF assms(1,2)] table_okD(1) [OF assms(1)] by simp
  show "filter p (resources (clientTable st c) ! b) = []"
    if "b < length (resources (clientTable st c))" "b \<noteq> chain_index c i st" for b
    using that table_okD(1) [OF assms(1)] table_okD(5) [OF assms(1)] assms(3)
    by (auto simp: filter_empty_conv chain_index_def)
qed

section \<open>States with the same settings\<close>

definition same_env :: "resdb \<Rightarrow> resdb \<Rightarrow> bool" where
  "same_env st st' \<longleftrightarrow> LimitClients st' = LimitClients st \<and> TypeMask st' = TypeMask st \<and>
     lastResourceType st' = lastResourceType st \<and> resourceTypes st' = resourceTypes st"

lemma same_env_refl [simp]: "same_env st st"
  by (simp add: same_env_def)

lemma same_env_trans: "same_env a b \<Longrightarrow> same_env b c \<Longrightarrow> same_env a c"
  by (simp add: same_env_def)

lemma same_env_upd [simp]:
  "same_env st (upd_table c f st')\<longleftrightarrow> same_env st st'"
  "same_env st (put_chain c b rs n st') \<longleftrightarrow> same_env st st'"
  "same_env st (CallResourceStateCallback e st') \<longleftrightarrow> same_env st st'"
  by (simp_all add: same_env_def upd_table_def put_chain_def CallResourceStateCallback_def)

lemma env_ids:
  assumes "same_env st st'"
  shows "HashResourceID i n st' = HashResourceID i n st" and "CLIENT_ID i st' = CLIENT_ID i st"
    and "valid_type t st' = valid_type t st" and "limit_ok st' = limit_ok st" and "types_ok st' = types_ok st"
    and "type_index t st' = type_index t st"
  using assms
  by (simp_all add: same_env_def HashResourceID_def RESOURCE_ID_MASK_def CLIENT_ID_def RESOURCE_CLIENT_MASK_def
      CLIENTOFFSET_def ResourceClientBits_def valid_type_def limit_ok_def types_ok_def type_index_def)

lemma table_cong:
  assumes "same_env st st'" and "clientTable st' c = clientTable st c"
  shows "table_ok c st' = table_ok c st" and "all_resources c st' = all_resources c st"
    and "chain_index c i st' = chain_index c i st" and "chain c i st' = chain c i st"
  using assms env_ids [OF assms(1)]
  by (simp_all add: table_ok_def all_resources_def chain_index_def chain_def Let_def)

lemma table_sel [simp]:
  "clientTable (put_chain c b rs n st) d = (if d = c then (clientTable st c)
     \<lparr>resources := (resources (clientTable st c))[b := rs], elements := elements (clientTable st c) + n\<rparr> else clientTable st d)"
  "clientTable (CallResourceStateCallback e st) = clientTable st"
  "clientTable (upd_table c f st) d = (if d = c then f (clientTable st c) else clientTable st d)"
  by (simp_all add: put_chain_def upd_table_def CallResourceStateCallback_def)

lemma res_mallocD:
  assumes "res_malloc st = (ok, st')"
  shows "same_env st st'" and "clientTable st' = clientTable st" and "res_mallocs st = [] \<Longrightarrow> ok"
  using assms by (auto simp: res_malloc_def same_env_def split: list.splits)

lemma db_inv_frame:
  assumes "db_inv st" and "same_env st st'" and "clientTable st' = clientTable st"
  shows "db_inv st'"
  using assms env_ids [OF assms(2)] table_cong [OF assms(2)] by (simp add: db_inv_def)

lemma db_inv_table:
  assumes "db_inv st" and "same_env st st'" and "\<And>d. d \<noteq> c \<Longrightarrow> clientTable st' d = clientTable st d"
    and "table_ok c st'" and "\<forall>r \<in> set (all_resources c st'). valid_type (res_type r) st"
  shows "db_inv st'"
proof -
  have "table_ok d st' \<and> (\<forall>r \<in> set (all_resources d st'). valid_type (res_type r) st')" for d
    using assms env_ids [OF assms(2)] table_cong [OF assms(2), of d] by (cases "d = c") (auto simp: db_inv_def)
  then show ?thesis using assms(1) env_ids [OF assms(2)] by (simp add: db_inv_def)
qed

lemma length_concat_update:
  assumes "b < length xss"
  shows "length (concat (xss[b := ys])) + length (xss ! b) = length (concat xss) + length ys"
proof -
  have "concat xss = concat (take b xss) @ xss ! b @ concat (drop (Suc b) xss)"
    using assms by (metis concat.simps(2) concat_append id_take_nth_drop)
  moreover have "concat (xss[b := ys]) = concat (take b xss) @ ys @ concat (drop (Suc b) xss)"
    using assms by (simp add: upd_conv_take_nth_drop)
  ultimately show ?thesis by simp
qed

lemma set_concat_update: "set (concat (xss[b := ys])) \<subseteq> set (concat xss) \<union> set ys"
  using set_update_subset_insert [of xss b ys] by auto

text \<open>A chain is replaced.\<close>

lemma put_chain_ok:
  assumes "table_ok c st" and "b < buckets (clientTable st c)"
    and "\<forall>r \<in> set rs. HashResourceID (res_id r) (hashsize (clientTable st c)) st = b"
    and "n = int (length rs) - int (length (resources (clientTable st c) ! b))"
  shows "table_ok c (put_chain c b rs n st)"
proof -
  let ?t = "clientTable st c"
  note t = table_okD [OF assms(1)]
  have "int (length (concat ((resources ?t)[b := rs]))) = elements ?t + n"
    using length_concat_update [of b "resources ?t" rs] assms(2,4) t(1,2) by simp
  moreover have "HashResourceID (res_id r) (hashsize ?t) st = d"
    if "d < buckets ?t" "r \<in> set ((resources ?t)[b := rs] ! d)" for d r
    using that assms(2,3) t(1,5) by (cases "d = b") auto
  moreover have "HashResourceID i m (put_chain c b rs n st) = HashResourceID i m st" for i m
    by (rule env_ids) simp
  ultimately show ?thesis
    using t assms(1) by (simp add: table_ok_def Let_def)
qed

lemma db_inv_put_chain:
  assumes "db_inv st" and "b < buckets (clientTable st c)"
    and "\<forall>r \<in> set rs. HashResourceID (res_id r) (hashsize (clientTable st c)) st = b \<and> valid_type (res_type r) st"
    and "n = int (length rs) - int (length (resources (clientTable st c) ! b))"
  shows "db_inv (put_chain c b rs n st)"
proof (rule db_inv_table [OF assms(1), where c = c])
  have ok: "table_ok c st" using assms(1) by (simp add: db_inv_def)
  show new: "table_ok c (put_chain c b rs n st)"
    using assms by (intro put_chain_ok [OF ok]) auto
  have "set (all_resources c (put_chain c b rs n st)) \<subseteq> set (all_resources c st) \<union> set rs"
    using set_concat_update [of "resources (clientTable st c)" b rs]
    by (simp add: all_resources_concat [OF new] all_resources_concat [OF ok])
  then show "\<forall>r \<in> set (all_resources c (put_chain c b rs n st)). valid_type (res_type r) st"
    using assms(1,3) by (auto simp: db_inv_def)
qed simp_all

section \<open>Rebuilding\<close>

lemma fold_None: "fold (\<lambda>r acc. Option.bind acc (f r)) rs None = None"
  by (induction rs) simp_all

lemma rehash_spec:
  assumes "\<forall>r \<in> set rs. HashResourceID (res_id r) n st < length table"
  shows "\<exists>new. rehash n st rs table = Some new \<and> length new = length table \<and>
    (\<forall>b < length table. new ! b = table ! b @ filter (\<lambda>r. HashResourceID (res_id r) n st = b) rs)"
  using assms
proof (induction rs arbitrary: table)
  case Nil
  then show ?case by (simp add: rehash_def)
next
  case (Cons r rs)
  let ?h = "HashResourceID (res_id r) n st"
  let ?table = "table[?h := table ! ?h @ [r]]"
  have "rehash n st (r # rs) table = rehash n st rs ?table"
    using Cons.prems by (simp add: rehash_def rd_def wr_def)
  moreover obtain new where "rehash n st rs ?table = Some new" "length new = length table"
    "\<forall>b < length table. new ! b = ?table ! b @ filter (\<lambda>r. HashResourceID (res_id r) n st = b) rs"
    using Cons.IH [of ?table] Cons.prems by auto
  ultimately show ?case using Cons.prems by (auto simp: nth_list_update)
qed

lemma RebuildTable_spec:
  assumes "db_inv st" and "buckets (clientTable st c) \<noteq> 0" and "hashsize (clientTable st c) < 16"
  obtains st' where "RebuildTable c st = Some st'" and "same_env st st'" and "db_inv st'"
    and "\<And>d. d \<noteq> c \<Longrightarrow> clientTable st' d = clientTable st d" and "buckets (clientTable st' c) \<noteq> 0"
    and "\<And>p i. (\<And>r. p r \<Longrightarrow> res_id r = i) \<Longrightarrow> filter p (all_resources c st') = filter p (all_resources c st)"
    and "fakeID (clientTable st' c) = fakeID (clientTable st c)"
    and "endFakeID (clientTable st' c) = endFakeID (clientTable st c)"
proof -
  obtain ok1 st1 where 1: "res_malloc st = (ok1, st1)" by fastforce
  obtain ok2 st2 where 2: "res_malloc st1 = (ok2, st2)" by fastforce
  note m1 = res_mallocD [OF 1] and m2 = res_mallocD [OF 2]
  show thesis
  proof (cases "ok1 \<and> ok2")
    case False
    then have "RebuildTable c st = Some (if ok1 then st2 else st1)"
      using 1 2 by (auto simp: RebuildTable_def)
    moreover have "same_env st (if ok1 then st2 else st1)" "clientTable (if ok1 then st2 else st1) = clientTable st"
      using m1 m2 same_env_trans by auto
    ultimately show thesis
      using assms db_inv_frame [OF assms(1)] table_cong(2)
      by (intro that [of "if ok1 then st2 else st1"]) simp_all
  next
    case True
    let ?t = "clientTable st c"
    let ?n = "2 * buckets ?t" and ?hs = "Suc (hashsize ?t)"
    have env: "same_env st st2" and tab: "clientTable st2 = clientTable st"
      using m1 m2 same_env_trans by auto
    have ok: "table_ok c st" using assms(1) by (simp add: db_inv_def)
    have n: "?n = 2 ^ ?hs" using table_okD(3) [OF ok assms(2)] by simp
    have less: "HashResourceID i ?hs st2 < ?n" for i
      unfolding n by (rule HashResourceID_less) (use assms(3) in simp)
    obtain new where new: "rehash ?hs st2 (all_resources c st) (replicate ?n []) = Some new" "length new = ?n"
      "\<And>b. b < ?n \<Longrightarrow> new ! b = filter (\<lambda>r. HashResourceID (res_id r) ?hs st2 = b) (all_resources c st)"
      using rehash_spec [of "all_resources c st" ?hs st2 "replicate ?n []"] less by auto
    let ?st' = "upd_table c (\<lambda>t. t\<lparr>resources := new, buckets := ?n, hashsize := ?hs\<rparr>) st2"
    have run: "RebuildTable c st = Some ?st'"
      using True 1 2 new(1) table_cong(2) [OF env] tab by (simp add: RebuildTable_def Let_def)
    have env': "same_env st ?st'" using env by simp
    note ids = env_ids [OF env'] env_ids [OF env]
    have pick: "filter p (concat new) = filter p (all_resources c st)" if "\<And>r. p r \<Longrightarrow> res_id r = i" for p i
    proof -
      let ?h = "HashResourceID i ?hs st2"
      have "filter p (concat new) = filter p (new ! ?h)"
        using that new(2,3) less by (intro filter_concat_single) (auto simp: filter_empty_conv)
      also have "\<dots> = filter p (all_resources c st)"
        using that new(3) [OF less] by (auto intro!: filter_cong)
      finally show ?thesis .
    qed
    have set_new: "set (concat new) \<subseteq> set (all_resources c st)"
      using new(2,3) by (auto simp: in_set_conv_nth [of _ new])
    have count: "length (concat new) = length (all_resources c st)"
    proof -
      have "filter ((=) x) (concat new) = filter ((=) x) (all_resources c st)" for x
        by (rule pick [of _ "res_id x"]) simp
      then have "count_list (concat new) x = count_list (all_resources c st) x" for x
        by (simp add: count_list_eq_length_filter)
      then have "mset (concat new) = mset (all_resources c st)"
        by (simp add: multiset_eq_iff count_mset)
      then show ?thesis by (rule mset_eq_length)
    qed
    have ok': "table_ok c ?st'"
      using new(2,3) n assms(3) count table_okD(2) [OF ok] all_resources_concat [OF ok] ids
      by (auto simp: table_ok_def Let_def MAXHASHSIZE_def tab)
    have "db_inv ?st'"
      using assms(1) set_new new(2) tab by (intro db_inv_table [OF assms(1) env' _ ok'])
        (auto simp: db_inv_def all_resources_concat [OF ok'])
    then show thesis
      using run env' pick assms(2) tab by (intro that [of ?st']) (simp_all add: all_resources_concat [OF ok'])
  qed
qed

section \<open>A stack of values for every identifier and type\<close>

definition named :: "xid \<Rightarrow> restype \<Rightarrow> ResourceRec \<Rightarrow> bool" where
  "named i t r \<longleftrightarrow> res_id r = i \<and> res_type r = t"

definition stack :: "resdb \<Rightarrow> xid \<Rightarrow> restype \<Rightarrow> nat list" where
  "stack st i t = map res_value (filter (named i t) (all_resources (CLIENT_ID i st) st))"

lemma stack_chain:
  assumes "db_inv st" and "buckets (clientTable st (CLIENT_ID i st)) \<noteq> 0"
  shows "stack st i t = map res_value (filter (named i t)
     (resources (clientTable st (CLIENT_ID i st)) ! chain_index (CLIENT_ID i st) i st))"
  using chain_filter [of "CLIENT_ID i st" st "named i t" i] assms by (simp add: stack_def db_inv_def named_def)

lemma stack_unused:
  assumes "db_inv st" and "buckets (clientTable st (CLIENT_ID i st)) = 0"
  shows "stack st i t = []"
  using assms by (simp add: stack_def all_resources_def)

lemma stack_frame:
  assumes "same_env st st'" and "clientTable st' = clientTable st"
  shows "stack st' = stack st"
  using env_ids(2) [OF assms(1)] table_cong(2) [OF assms(1)] assms(2) by (simp add: stack_def fun_eq_iff)

text \<open>Replacing the chain of an identifier changes the stacks of the identifiers in it only.\<close>

lemma stack_put_chain:
  assumes inv: "db_inv st" and b: "buckets (clientTable st c) \<noteq> 0" and c: "c = CLIENT_ID i st"
    and new: "db_inv (put_chain c (chain_index c i st) rs n st)"
    and other: "\<And>j t. (j, t) \<noteq> (i, ty) \<Longrightarrow> filter (named j t) rs
      = filter (named j t) (resources (clientTable st c) ! chain_index c i st)"
  shows "stack (put_chain c (chain_index c i st) rs n st)
    = (stack st)(i := (stack st i)(ty := map res_value (filter (named i ty) rs)))"
proof (intro ext)
  fix j t
  let ?st' = "put_chain c (chain_index c i st) rs n st"
  let ?d = "CLIENT_ID j st"
  have env: "same_env st ?st'" by simp
  have less: "chain_index c i st < length (resources (clientTable st c))"
    using chain_index_less [of c st i] inv b table_okD(1) by (simp add: db_inv_def)
  show "stack ?st' j t = ((stack st)(i := (stack st i)(ty := map res_value (filter (named i ty) rs)))) j t"
  proof (cases "?d = c")
    case False
    then have "j \<noteq> i" using c by auto
    with False table_cong(2) [OF env, of ?d] env_ids(2) [OF env] show ?thesis by (simp add: stack_def)
  next
    case True
    have idx: "chain_index c j ?st' = chain_index c j st" by (simp add: chain_index_def [of c j] env_ids(1) [OF env])
    have "stack ?st' j t = map res_value (filter (named j t)
        ((resources (clientTable st c))[chain_index c i st := rs] ! chain_index c j st))"
      using stack_chain [OF new, of j t] True b idx env_ids(2) [OF env] by simp
    moreover have "stack st j t = map res_value (filter (named j t) (resources (clientTable st c) ! chain_index c j st))"
      using stack_chain [OF inv, of j t] True b by simp
    ultimately show ?thesis
      using less other [of j t] by (cases "chain_index c j st = chain_index c i st"; cases "(j, t) = (i, ty)") auto
  qed
qed

lemma first_split_Some:
  assumes "first_split p xs = Some (ys, y, zs)"
  shows "xs = ys @ y # zs" and "p y" and "\<forall>x \<in> set ys. \<not> p x"
  using assms by (induction xs arbitrary: ys y zs) (fastforce split: if_splits)+

lemma first_split_None: "first_split p xs = None \<longleftrightarrow> (\<forall>x \<in> set xs. \<not> p x)"
  by (induction xs) auto

lemma filter_first_split:
  assumes "first_split p xs = Some (ys, y, zs)"
  shows "filter p xs = y # filter p zs" and "filter p ys = []"
  using first_split_Some [OF assms] by (auto simp: filter_empty_conv)

text \<open>A delete function that leaves the tables alone.\<close>

definition quiet_del :: "deleter \<Rightarrow> bool" where
  "quiet_del df \<longleftrightarrow> (\<forall>f v i st. \<exists>st'. df f v i st = Some st' \<and> same_env st st' \<and> clientTable st' = clientTable st)"

lemma call_delete_quiet:
  assumes "quiet_del df" and "types_ok st" and "valid_type t st"
  obtains st' where "call_delete df t v i st = Some st'" and "same_env st st'" and "clientTable st' = clientTable st"
proof -
  obtain r where r: "rd (resourceTypes st) (type_index t st) = Some r"
    using type_index_less [OF assms(2,3)] by (simp add: rd_def)
  obtain st' where "df (deleteFunc r) v i st = Some st'" "same_env st st'" "clientTable st' = clientTable st"
    using assms(1) unfolding quiet_del_def by blast
  then show thesis using r by (intro that [of st']) (simp_all add: call_delete_def)
qed

lemma doFree_quiet:
  assumes "quiet_del df" and "types_ok st" and "valid_type (res_type r) st"
  obtains st' where "doFreeResource df r skip st = Some st'" and "same_env st st'" and "clientTable st' = clientTable st"
proof (cases skip)
  case True
  then show thesis
    by (intro that [of "CallResourceStateCallback (ResourceStateFreeing r) st"]) (simp_all add: doFreeResource_def)
next
  case False
  let ?st1 = "CallResourceStateCallback (ResourceStateFreeing r) st"
  have env: "same_env st ?st1" by simp
  obtain st' where "call_delete df (res_type r) (res_value r) (res_id r) ?st1 = Some st'" "same_env ?st1 st'"
    "clientTable st' = clientTable ?st1"
    by (rule call_delete_quiet [OF assms(1), of ?st1 "res_type r" "res_value r" "res_id r"])
      (use assms env_ids [OF env] in auto)
  then show thesis
    using False same_env_trans [OF env] by (intro that [of st']) (simp_all add: doFreeResource_def)
qed

section \<open>The operations on the stacks\<close>

datatype res_op = OpAdd xid restype nat | OpFree xid restype bool | OpChange xid restype nat

fun run_op :: "deleter \<Rightarrow> res_op \<Rightarrow> resdb \<Rightarrow> (bool \<times> resdb) option" where
  "run_op df (OpAdd i t v) st = AddResource df i t v st"
| "run_op df (OpFree i t skip) st = map_option (\<lambda>st'. (True, st')) (FreeResourceByType df i t skip st)"
| "run_op df (OpChange i t v) st = ChangeResourceValue i t v st"

text \<open>What they mean, and when they are allowed and succeed.\<close>

fun stack_op :: "res_op \<Rightarrow> (xid \<Rightarrow> restype \<Rightarrow> nat list) \<Rightarrow> xid \<Rightarrow> restype \<Rightarrow> nat list" where
  "stack_op (OpAdd i t v) S = S(i := (S i)(t := v # S i t))"
| "stack_op (OpFree i t skip) S = S(i := (S i)(t := tl (S i t)))"
| "stack_op (OpChange i t v) S = S(i := (S i)(t := v # tl (S i t)))"

fun op_ok :: "res_op \<Rightarrow> resdb \<Rightarrow> bool" where
  "op_ok (OpAdd i t v) st = (valid_type t st \<and> buckets (clientTable st (CLIENT_ID i st)) \<noteq> 0)"
| "op_ok _ st = True"

fun op_succeeds :: "res_op \<Rightarrow> resdb \<Rightarrow> bool" where
  "op_succeeds (OpAdd i t v) st = (res_mallocs st = [])"
| "op_succeeds (OpFree i t skip) st = True"
| "op_succeeds (OpChange i t v) st = (stack st i t \<noteq> [])"

definition op_spec :: "deleter \<Rightarrow> res_op \<Rightarrow> resdb \<Rightarrow> bool" where
  "op_spec df op st \<longleftrightarrow> (\<exists>ok st'. run_op df op st = Some (ok, st') \<and> db_inv st' \<and> (op_succeeds op st \<longrightarrow> ok) \<and>
     stack st' = (if ok then stack_op op (stack st) else stack st))"

lemma db_table:
  assumes "db_inv st"
  shows "table_ok c st" and "limit_ok st" and "types_ok st"
    and "r \<in> set (all_resources c st) \<Longrightarrow> valid_type (res_type r) st"
  using assms by (auto simp: db_inv_def)

lemma chain_record:
  assumes "db_inv st" and "buckets (clientTable st c) \<noteq> 0" and "r \<in> set (resources (clientTable st c) ! chain_index c i st)"
  shows "HashResourceID (res_id r) (hashsize (clientTable st c)) st = chain_index c i st" and "valid_type (res_type r) st"
proof -
  note ok = db_table(1) [OF assms(1), of c]
  have less: "chain_index c i st < buckets (clientTable st c)" by (rule chain_index_less [OF ok assms(2)])
  show "HashResourceID (res_id r) (hashsize (clientTable st c)) st = chain_index c i st"
    by (rule table_okD(5) [OF ok less assms(3)])
  have "r \<in> set (concat (resources (clientTable st c)))"
    using assms(3) nth_mem [of "chain_index c i st" "resources (clientTable st c)"] less table_okD(1) [OF ok] by auto
  then show "valid_type (res_type r) st"
    using db_table(4) [OF assms(1), of r c] all_resources_concat [OF ok] by simp
qed

text \<open>Once the table has its size, adding puts a record in front of its chain.\<close>

lemma add_record:
  fixes v :: nat
  assumes inv: "db_inv st" and b: "buckets (clientTable st c) \<noteq> 0" and c: "c = CLIENT_ID i st" and t: "valid_type t st"
  defines "st' \<equiv> put_chain c (chain_index c i st)
    (\<lparr>res_id = i, res_type = t, res_value = v\<rparr> # resources (clientTable st c) ! chain_index c i st) 1 st"
  shows "db_inv st'" and "stack st' = stack_op (OpAdd i t v) (stack st)"
proof -
  note ok = db_table(1) [OF inv, of c]
  show inv': "db_inv st'"
    unfolding st'_def using chain_index_less [OF ok b] chain_record [OF inv b] t
    by (intro db_inv_put_chain [OF inv]) (auto simp: chain_index_def)
  have other: "filter (named j u) (\<lparr>res_id = i, res_type = t, res_value = v\<rparr> # rs) = filter (named j u) rs"
    if "(j, u) \<noteq> (i, t)" for j u rs
    using that by (auto simp: named_def)
  have "named i t \<lparr>res_id = i, res_type = t, res_value = v\<rparr>" by (simp add: named_def)
  with stack_put_chain [OF inv b c inv' [unfolded st'_def] other] stack_chain [OF inv, of i t] b
  show "stack st' = stack_op (OpAdd i t v) (stack st)" by (simp add: st'_def c)
qed

lemma AddResource_spec:
  assumes "db_inv st" and "quiet_del df" and "op_ok (OpAdd i t v) st"
  shows "op_spec df (OpAdd i t v) st"
proof -
  let ?c = "CLIENT_ID i st"
  have t: "valid_type t st" and b: "buckets (clientTable st ?c) \<noteq> 0" using assms(3) by simp_all
  let ?grow = "4 * int (buckets (clientTable st ?c)) \<le> elements (clientTable st ?c) \<and> hashsize (clientTable st ?c) < MAXHASHSIZE"
  obtain st1 where 1: "(if ?grow then RebuildTable ?c st else Some st) = Some st1" and env1: "same_env st st1"
    and inv1: "db_inv st1" and b1: "buckets (clientTable st1 ?c) \<noteq> 0" and stk1: "stack st1 = stack st"
    and m1: "res_mallocs st = [] \<longrightarrow> res_mallocs st1 = []"
  proof (cases ?grow)
    case True
    then have "hashsize (clientTable st ?c) < 16" by (simp add: MAXHASHSIZE_def)
    from RebuildTable_spec [OF assms(1) b this] obtain st1 where r: "RebuildTable ?c st = Some st1" "same_env st st1" "db_inv st1"
      "\<And>d. d \<noteq> ?c \<Longrightarrow> clientTable st1 d = clientTable st d" "buckets (clientTable st1 ?c) \<noteq> 0"
      "\<And>p i. (\<And>r. p r \<Longrightarrow> res_id r = i) \<Longrightarrow> filter p (all_resources ?c st1) = filter p (all_resources ?c st)"
      by metis
    have "filter (named j u) (all_resources d st1) = filter (named j u) (all_resources d st)" for d j u
      using r(6) [of "named j u" j] table_cong(2) [OF r(2), of d] r(4) by (cases "d = ?c") (auto simp: named_def)
    then have "stack st1 = stack st" using env_ids(2) [OF r(2)] by (simp add: stack_def fun_eq_iff)
    moreover have "res_mallocs st = [] \<longrightarrow> res_mallocs st1 = []"
      using r(1) by (auto simp: RebuildTable_def res_malloc_def upd_table_def Let_def split: bind_splits)
    ultimately show thesis using True r by (intro that [of st1]) simp_all
  qed (use assms b in \<open>auto intro: that\<close>)
  obtain ok st2 where 2: "res_malloc st1 = (ok, st2)" by fastforce
  note m2 = res_mallocD [OF 2]
  have inv2: "db_inv st2" by (rule db_inv_frame [OF inv1 m2(1,2)])
  have env2: "same_env st st2" by (rule same_env_trans [OF env1 m2(1)])
  have c2: "?c = CLIENT_ID i st2" and t2: "valid_type t st2" using env_ids [OF env2] t by simp_all
  have b2: "buckets (clientTable st2 ?c) \<noteq> 0" using b1 m2(2) by simp
  have stk2: "stack st2 = stack st" using stack_frame [OF m2(1,2)] stk1 by simp
  have ch: "chain ?c i st1 = Some (resources (clientTable st2 ?c) ! chain_index ?c i st2)"
    using chain_ok [OF db_table(1) [OF inv1] b1] table_cong(3) [OF m2(1)] m2(2) by simp
  note add = add_record [OF inv2 b2 c2 t2, of v]
  show ?thesis
  proof (cases ok)
    case True
    let ?res = "\<lparr>res_id = i, res_type = t, res_value = v\<rparr>"
    let ?put = "put_chain ?c (chain_index ?c i st2) (?res # resources (clientTable st2 ?c) ! chain_index ?c i st2) 1 st2"
    let ?st' = "CallResourceStateCallback (ResourceStateAdding ?res) ?put"
    have "AddResource df i t v st = Some (True, ?st')"
      using b 1 ch 2 True by (simp add: AddResource_def Let_def)
    moreover have "db_inv ?st'" by (rule db_inv_frame [OF add(1)]) simp_all
    moreover have "stack ?st' = stack_op (OpAdd i t v) (stack st)"
      using stack_frame [of ?put ?st'] add(2) stk2 by simp
    ultimately show ?thesis
      unfolding op_spec_def by (intro exI [of _ True] exI [of _ ?st']) simp
  next
    case False
    obtain st3 where 3: "call_delete df t v i st2 = Some st3" "same_env st2 st3" "clientTable st3 = clientTable st2"
      by (rule call_delete_quiet [OF assms(2) db_table(3) [OF inv2] t2])
    have "AddResource df i t v st = Some (False, st3)"
      using b 1 ch 2 False 3(1) by (simp add: AddResource_def Let_def)
    moreover have "stack st3 = stack st" using stack_frame [OF 3(2,3)] stk2 by simp
    ultimately show ?thesis
      unfolding op_spec_def using db_inv_frame [OF inv2 3(2,3)] False m1 m2(3)
      by (intro exI [of _ False] exI [of _ st3]) auto
  qed
qed

text \<open>Freeing by type and changing a value act on the first record of the chain with that name.\<close>

lemma stack_first:
  assumes inv: "db_inv st" and b: "buckets (clientTable st c) \<noteq> 0" and c: "c = CLIENT_ID i st"
    and split: "first_split (\<lambda>r. res_id r = i \<and> res_type r = t) (resources (clientTable st c) ! chain_index c i st) = Some (ys, r, zs)"
  shows "stack st i t = res_value r # map res_value (filter (named i t) zs)" and "filter (named i t) ys = []"
    and "named i t r"
proof -
  have s: "first_split (named i t) (resources (clientTable st c) ! chain_index c i st) = Some (ys, r, zs)"
    using split by (simp add: named_def [abs_def])
  show "stack st i t = res_value r # map res_value (filter (named i t) zs)"
    using filter_first_split(1) [OF s] stack_chain [OF inv, of i t] b c by simp
  show "filter (named i t) ys = []" by (rule filter_first_split(2) [OF s])
  show "named i t r" by (rule first_split_Some(2) [OF s])
qed

lemma first_chain:
  assumes inv: "db_inv st" and b: "buckets (clientTable st c) \<noteq> 0"
    and split: "first_split p (resources (clientTable st c) ! chain_index c i st) = Some (ys, r, zs)"
  shows "\<forall>x \<in> set ys \<union> set zs \<union> {r}. HashResourceID (res_id x) (hashsize (clientTable st c)) st = chain_index c i st
      \<and> valid_type (res_type x) st"
  using chain_record [OF inv b, of _ i] first_split_Some(1) [OF split] by auto

lemma ChangeResourceValue_spec:
  assumes inv: "db_inv st"
  shows "op_spec df (OpChange i t v) st"
proof (cases "buckets (clientTable st (CLIENT_ID i st)) = 0")
  case True
  then have "ChangeResourceValue i t v st = Some (False, st)" by (simp add: ChangeResourceValue_def)
  with stack_unused [OF inv True] inv show ?thesis
    unfolding op_spec_def by (intro exI [of _ False] exI [of _ st]) simp
next
  case b: False
  define c where "c = CLIENT_ID i st"
  note b = b [folded c_def]
  let ?rs = "resources (clientTable st c) ! chain_index c i st"
  have go: "c < LimitClients st" "chain c i st = Some ?rs"
    using CLIENT_ID_less [OF db_table(2) [OF inv]] chain_ok [OF db_table(1) [OF inv] b] by (simp_all add: c_def)
  show ?thesis
  proof (cases "first_split (\<lambda>r. res_id r = i \<and> res_type r = t) ?rs")
    case None
    then have "stack st i t = []"
      using stack_chain [OF inv, of i t] b by (auto simp: first_split_None filter_empty_conv named_def c_def)
    moreover have "ChangeResourceValue i t v st = Some (False, st)"
      using None go b by (simp add: ChangeResourceValue_def c_def [symmetric] Let_def)
    ultimately show ?thesis
      using inv unfolding op_spec_def by (intro exI [of _ False] exI [of _ st]) simp
  next
    case (Some x)
    obtain ys r zs where x: "x = (ys, r, zs)" by (cases x)
    note split = Some [unfolded x]
    note first = stack_first [OF inv b c_def split] and rs = first_split_Some(1) [OF split]
    let ?new = "ys @ r\<lparr>res_value := v\<rparr> # zs"
    let ?st' = "put_chain c (chain_index c i st) ?new 0 st"
    have run: "ChangeResourceValue i t v st = Some (True, ?st')"
      using split go b by (simp add: ChangeResourceValue_def c_def [symmetric] Let_def)
    have inv': "db_inv ?st'"
      using chain_index_less [OF db_table(1) [OF inv] b] first_chain [OF inv b split] rs
      by (intro db_inv_put_chain [OF inv]) auto
    have other: "filter (named j u) ?new = filter (named j u) ?rs" if "(j, u) \<noteq> (i, t)" for j u
      using that first(3) rs by (auto simp: named_def)
    have "named i t (r\<lparr>res_value := v\<rparr>)" using first(3) by (simp add: named_def)
    with run inv' stack_put_chain [OF inv b c_def inv' other] first(1,2) show ?thesis
      unfolding op_spec_def by (intro exI [of _ True] exI [of _ ?st']) simp
  qed
qed

lemma FreeResourceByType_spec:
  assumes inv: "db_inv st" and quiet: "quiet_del df"
  shows "op_spec df (OpFree i t skip) st"
proof -
  define c where "c = CLIENT_ID i st"
  let ?rs = "resources (clientTable st c) ! chain_index c i st"
  have noop: ?thesis if "FreeResourceByType df i t skip st = Some st" "stack st i t = []"
  proof -
    have "(stack st)(i := (stack st i)(t := [])) = stack st" using that(2) by (auto simp: fun_eq_iff)
    with that inv show ?thesis unfolding op_spec_def by (intro exI [of _ True] exI [of _ st]) simp
  qed
  show ?thesis
  proof (cases "buckets (clientTable st c) = 0")
    case True
    then have "FreeResourceByType df i t skip st = Some st" "stack st i t = []"
      using stack_unused [OF inv, of i t] by (simp_all add: FreeResourceByType_def c_def)
    then show ?thesis by (rule noop)
  next
    case b: False
    have go: "c < LimitClients st" "chain c i st = Some ?rs"
      using CLIENT_ID_less [OF db_table(2) [OF inv]] chain_ok [OF db_table(1) [OF inv] b] by (simp_all add: c_def)
    show ?thesis
    proof (cases "first_split (\<lambda>r. res_id r = i \<and> res_type r = t) ?rs")
      case None
      then have "stack st i t = []"
        using stack_chain [OF inv, of i t] b by (auto simp: first_split_None filter_empty_conv named_def c_def)
      moreover have "FreeResourceByType df i t skip st = Some st"
        using None go b by (simp add: FreeResourceByType_def c_def [symmetric] Let_def)
      ultimately show ?thesis by (rule noop [rotated])
    next
      case (Some x)
      obtain ys r zs where x: "x = (ys, r, zs)" by (cases x)
      note split = Some [unfolded x]
      note first = stack_first [OF inv b c_def split] and rs = first_split_Some(1) [OF split]
      let ?st1 = "put_chain c (chain_index c i st) (ys @ zs) (- 1) st"
      have inv1: "db_inv ?st1"
        using chain_index_less [OF db_table(1) [OF inv] b] first_chain [OF inv b split] rs
        by (intro db_inv_put_chain [OF inv]) auto
      have env1: "same_env st ?st1" by simp
      have "valid_type (res_type r) ?st1"
        using first_chain [OF inv b split] env_ids(3) [OF env1] by simp
      from doFree_quiet [OF quiet db_table(3) [OF inv1] this, of skip]
      obtain st' where 2: "doFreeResource df r skip ?st1 = Some st'" "same_env ?st1 st'" "clientTable st' = clientTable ?st1"
        by metis
      have other: "filter (named j u) (ys @ zs) = filter (named j u) ?rs" if "(j, u) \<noteq> (i, t)" for j u
        using that first(3) rs by (auto simp: named_def)
      have "stack st' = stack_op (OpFree i t skip) (stack st)"
        using stack_frame [OF 2(2,3)] stack_put_chain [OF inv b c_def inv1 other] first(1,2) by simp
      moreover have "FreeResourceByType df i t skip st = Some st'"
        using split go b 2(1) by (simp add: FreeResourceByType_def c_def [symmetric] Let_def)
      ultimately show ?thesis
        using db_inv_frame [OF inv1 2(2,3)] unfolding op_spec_def by (intro exI [of _ True] exI [of _ st']) simp
    qed
  qed
qed

lemma find_filter: "find p xs = (case filter p xs of [] \<Rightarrow> None | x # _ \<Rightarrow> Some x)"
  by (induction xs) auto

lemma find_resource_named:
  assumes inv: "db_inv st"
  shows "\<exists>r. find_resource i (\<lambda>r. res_type r = t) st = Some r \<and> map_option res_value r =
    (case stack st i t of [] \<Rightarrow> None | v # _ \<Rightarrow> Some v)"
proof (cases "buckets (clientTable st (CLIENT_ID i st)) = 0")
  case True
  then show ?thesis using stack_unused [OF inv] by (simp add: find_resource_def)
next
  case False
  have "(\<lambda>r. res_id r = i \<and> res_type r = t) = named i t" by (simp add: named_def fun_eq_iff)
  then have "find_resource i (\<lambda>r. res_type r = t) st = Some (find (named i t)
      (resources (clientTable st (CLIENT_ID i st)) ! chain_index (CLIENT_ID i st) i st))"
    using False CLIENT_ID_less [OF db_table(2) [OF inv]] chain_ok [OF db_table(1) [OF inv] False]
    by (simp add: find_resource_def Let_def)
  with stack_chain [OF inv False, of t] show ?thesis
    by (cases "filter (named i t) (resources (clientTable st (CLIENT_ID i st)) ! chain_index (CLIENT_ID i st) i st)")
      (simp_all add: find_filter)
qed

lemma lookup_stack:
  assumes inv: "db_inv st" and t: "valid_type t st"
  shows "dixLookupResourceByType pol i t None mode st = Some (case stack st i t of
      [] \<Rightarrow> (rt_errorValue (resourceTypes st ! type_index t st), None, st) | v # _ \<Rightarrow> (Success, Some v, st))"
proof -
  have "type_index t st < length (resourceTypes st)" by (rule type_index_less [OF db_table(3) [OF inv] t])
  with find_resource_named [OF inv, of i t] t show ?thesis
    by (auto simp: dixLookupResourceByType_def valid_type_def rd_def set_errorValue_def not_less
        split: list.splits option.splits)
qed

text \<open>A database with one client, whose table is new; 64 clients leave 23 bits for each of them.\<close>

definition db0 :: resdb where
  "db0 = \<lparr>clientTable = (\<lambda>c. \<lparr>resources = if c = 5 then replicate 64 [] else [], elements = 0,
       buckets = if c = 5 then 64 else 0, hashsize = 6, fakeID = 0x42800000, endFakeID = 0x43000000\<rparr>),
     lastResourceType = 9, lastResourceClass = RC_LASTPREDEF, TypeMask = RC_LASTPREDEF - 1, resourceTypes = predefTypes,
     LimitClients = 64, noPanoramiXExtension = True, exceptions = {}, errorValues = (\<lambda>_. 0), res_log = [], res_mallocs = []\<rparr>"

lemma db0_inv: "db_inv db0"
  by (auto simp: db_inv_def db0_def limit_ok_def types_ok_def predefTypes_def table_ok_def all_resources_def
      MAXHASHSIZE_def)

definition no_del :: deleter where
  "no_del f v i st = Some st"

lemma no_del_quiet: "quiet_del no_del"
  by (simp add: quiet_del_def no_del_def)

lemma db0_client: "CLIENT_ID 0x02800007 db0 = 5"
  by (simp add: CLIENT_ID_def CLIENTOFFSET_def RESOURCE_CLIENT_MASK_def ResourceClientBits_def ilog2_values db0_def)

text \<open>C3: Adding, freeing by type and changing a resource push, pop and replace the top of the stack that
  its identifier and type name, and leave all other stacks alone, also when the table is rebuilt on
  the way or an allocation fails; a lookup gives the top of the stack or the error of the type.\<close>

theorem resource_stacks:
  assumes "db_inv st" and "quiet_del df" and "op_ok op st" and "valid_type t st"
  shows "\<exists>ok st'. run_op df op st = Some (ok, st') \<and> db_inv st' \<and> (op_succeeds op st \<longrightarrow> ok) \<and>
    stack st' = (if ok then stack_op op (stack st) else stack st) \<and>
    dixLookupResourceByType pol i t None mode st = Some (case stack st i t of
      [] \<Rightarrow> (rt_errorValue (resourceTypes st ! type_index t st), None, st) | v # _ \<Rightarrow> (Success, Some v, st))"
proof -
  have "op_spec df op st"
    using assms AddResource_spec FreeResourceByType_spec ChangeResourceValue_spec by (cases op) auto
  then show ?thesis unfolding op_spec_def lookup_stack [OF assms(1,4)] by blast
qed

theorem resource_stacks_witness:
  "\<exists>st'. AddResource no_del 0x02800007 1 42 db0 = Some (True, st') \<and> stack st' 0x02800007 1 = [42]"
proof -
  have "op_ok (OpAdd 0x02800007 1 42) db0" "valid_type 1 db0" "op_succeeds (OpAdd 0x02800007 1 42) db0"
    "stack db0 0x02800007 1 = []"
    by (simp_all add: db0_client) (simp_all add: db0_def valid_type_def RC_LASTPREDEF_def RC_NEVERRETAIN_def
      stack_def all_resources_def)
  note op = this
  obtain ok st' where "run_op no_del (OpAdd 0x02800007 1 42) db0 = Some (ok, st')" "ok"
    "stack st' = (if ok then stack_op (OpAdd 0x02800007 1 42) (stack db0) else stack db0)"
    using resource_stacks [OF db0_inv no_del_quiet op(1,2), where pol = "\<lambda>_ _ _ _. Success" and i = 0 and mode = 0] op(3)
    by blast
  with op(4) show ?thesis by (intro exI [of _ st']) simp
qed

text \<open>One resource is in use, the first one of the client's range.\<close>

definition db1 :: resdb where
  "db1 = put_chain 5 0 [\<lparr>res_id = 0x02800000, res_type = 1, res_value = 42\<rparr>] 1 db0"

lemma db1_inv: "db_inv db1"
  unfolding db1_def
  by (rule db_inv_put_chain [OF db0_inv])
    (simp_all add: db0_def HashResourceID_def RESOURCE_ID_MASK_def CLIENTOFFSET_def ResourceClientBits_def ilog2_values
      valid_type_def RC_LASTPREDEF_def RC_NEVERRETAIN_def)

lemma db1_resources: "all_resources 5 db1 = [\<lparr>res_id = 0x02800000, res_type = 1, res_value = 42\<rparr>]"
proof -
  have "replicate 64 [] = ([] :: ResourceRec list) # replicate 63 []" using replicate_Suc [of 63 "[]"] by simp
  then show ?thesis
    unfolding all_resources_concat [OF db_table(1) [OF db1_inv]] by (simp add: db1_def db0_def)
qed

end
