(* ===== verification/ResourceIds.thy ===== *)
theory ResourceIds
  imports ResourceProps
begin

text \<open>
  The identifiers that the server hands out to clients and makes up itself: \<open>GetXIDRange\<close> finds a range
  without a used one whenever there is an unused one, although it keeps only one side of every
  used identifier it meets, and \<open>FakeClientID\<close> never gives an identifier in use.
\<close>

unbundle bit_operations_syntax

definition used :: "client \<Rightarrow> resdb \<Rightarrow> xid set" where
  "used c st = res_id ` set (all_resources c st)"

lemma chain_used:
  assumes "table_ok c st" and "buckets (clientTable st c) \<noteq> 0"
  shows "\<exists>rs. chain c i st = Some rs \<and> ((\<forall>r \<in> set rs. res_id r \<noteq> i) \<longleftrightarrow> i \<notin> used c st)"
proof -
  let ?ch = "resources (clientTable st c) ! chain_index c i st"
  have "filter (\<lambda>r. res_id r = i) (all_resources c st) = filter (\<lambda>r. res_id r = i) ?ch"
    by (rule chain_filter [OF assms]) simp
  from arg_cong [where f = set, OF this]
  have "r \<in> set (all_resources c st) \<and> res_id r = i \<longleftrightarrow> r \<in> set ?ch \<and> res_id r = i" for r
    unfolding set_filter by blast
  then have "(\<forall>r \<in> set ?ch. res_id r \<noteq> i) \<longleftrightarrow> i \<notin> used c st"
    unfolding used_def by blast
  with chain_ok [OF assms] show ?thesis by simp
qed

definition avail_ok :: "client \<Rightarrow> resdb \<Rightarrow> xid \<Rightarrow> xid \<Rightarrow> xid \<Rightarrow> bool" where
  "avail_ok c st lo hi g \<longleftrightarrow> (if g = 0 then {lo..hi} \<subseteq> used c st else g \<in> {lo..hi} - used c st)"

lemma AvailableID_from_ok:
  assumes "table_ok c st" and "buckets (clientTable st c) \<noteq> 0" and "0 < lo" and "hi < s"
  shows "\<exists>g. AvailableID_from c lo hi st = Some g \<and> avail_ok c st lo hi g"
  using assms(3)
proof (induction "unat hi + 1 - unat lo" arbitrary: lo rule: less_induct)
  case less
  show ?case
  proof (cases "lo \<le> hi")
    case False
    then show ?thesis by (subst AvailableID_from.simps) (simp add: avail_ok_def)
  next
    case True
    obtain rs where rs: "chain c lo st = Some rs" "(\<forall>r \<in> set rs. res_id r \<noteq> lo) \<longleftrightarrow> lo \<notin> used c st"
      using chain_used [OF assms(1,2)] by blast
    show ?thesis
    proof (cases "lo \<in> used c st")
      case False
      then show ?thesis
        using True rs less.prems by (subst AvailableID_from.simps) (auto simp: avail_ok_def)
    next
      case here: True
      have succ: "lo + 1 \<le> x \<longleftrightarrow> lo < x" for x using word_succ_le [of lo s] True assms(4) by simp
      have less1: "lo < lo + 1" using succ [of "lo + 1"] by simp
      have "unat lo < unat (lo + 1)" "unat lo \<le> unat hi"
        using less1 True by (simp_all add: word_less_nat_alt word_le_nat_alt)
      then have "unat hi + 1 - unat (lo + 1) < unat hi + 1 - unat lo" by simp
      moreover have "0 < lo + 1" using less1 by (meson order.strict_trans less.prems)
      ultimately obtain g where g: "AvailableID_from c (lo + 1) hi st = Some g" "avail_ok c st (lo + 1) hi g"
        using less.hyps by blast
      have "AvailableID_from c lo hi st = Some g"
        using True rs here g(1) by (subst AvailableID_from.simps) auto
      moreover have "{lo..hi} = insert lo {lo + 1..hi}"
        unfolding set_eq_iff atLeastAtMost_iff insert_iff succ using True by (metis order.order_iff_strict)
      then have "avail_ok c st lo hi g" using g(2) here by (auto simp: avail_ok_def split: if_splits)
      ultimately show ?thesis by blast
    qed
  qed
qed

lemma AvailableID_ok:
  assumes "table_ok c st" and "buckets (clientTable st c) \<noteq> 0" and "0 < lo" and "hi < s"
    and "good = 0 \<or> good \<notin> used c st"
  shows "\<exists>g. AvailableID c lo hi good st = Some g \<and> avail_ok c st lo hi g"
  using AvailableID_from_ok [OF assms(1-4)] assms(3,5)
  by (auto simp: AvailableID_def avail_ok_def)

text \<open>The part of the range that is left after some resources: no resource seen is in it, and it has a
  free identifier if the whole range has one.\<close>

definition range_ok :: "client \<Rightarrow> resdb \<Rightarrow> xid \<Rightarrow> xid \<Rightarrow> ResourceRec set \<Rightarrow> xid \<times> xid \<times> xid \<Rightarrow> bool" where
  "range_ok c st lo0 hi0 seen x = (case x of (lo, hi, good) \<Rightarrow>
     {lo..hi} \<subseteq> {lo0..hi0} \<and> 0 < lo \<and> (\<forall>r \<in> seen. res_id r \<notin> {lo..hi}) \<and>
     ({lo0..hi0} \<subseteq> used c st \<or> \<not> {lo..hi} \<subseteq> used c st) \<and> (good = 0 \<or> good \<notin> used c st))"

lemma range_step_ok:
  assumes tab: "table_ok c st" "buckets (clientTable st c) \<noteq> 0" and r: "res_id r \<in> used c st"
    and start: "0 < lo0" and hi0: "hi0 < s" and ok: "range_ok c st lo0 hi0 seen x"
  shows "\<exists>y. range_step c st r x = Some y \<and> range_ok c st lo0 hi0 (insert r seen) y"
proof -
  obtain lo hi good where x: "x = (lo, hi, good)" by (cases x)
  let ?i = "res_id r"
  have ok: "{lo..hi} \<subseteq> {lo0..hi0}" "0 < lo" "\<forall>r \<in> seen. res_id r \<notin> {lo..hi}"
    "{lo0..hi0} \<subseteq> used c st \<or> \<not> {lo..hi} \<subseteq> used c st" "good = 0 \<or> good \<notin> used c st"
    using ok unfolding range_ok_def x prod.case by blast+
  show ?thesis
  proof (cases "?i \<in> {lo..hi}")
    case False
    then have "range_step c st r x = Some x" by (auto simp: range_step_def x)
    moreover have "range_ok c st lo0 hi0 (insert r seen) x"
      unfolding range_ok_def x prod.case using ok False by blast
    ultimately show ?thesis by blast
  next
    case True
    then have i: "lo \<le> ?i" "?i \<le> hi" "lo0 \<le> ?i" "?i \<le> hi0" "?i \<noteq> 0" "?i < s"
      using ok(1,2) hi0 by (auto simp: subset_iff)
    have pred: "y \<le> ?i - 1 \<longleftrightarrow> y < ?i" for y by (rule word_pred_le [OF i(5)])
    have succ: "?i + 1 \<le> y \<longleftrightarrow> ?i < y" for y by (rule word_succ_le [OF i(6)])
    have parts: "{lo..hi} = {lo..?i - 1} \<union> {?i} \<union> {?i + 1..hi}" 
      unfolding set_eq_iff atLeastAtMost_iff Un_iff insert_iff empty_iff pred succ
      using i(1,2) by (meson linorder_neqE order.strict_trans1 order.strict_trans2 order.strict_implies_order)
    have sub: "{lo..?i - 1} \<subseteq> {lo0..hi0}" "{?i + 1..hi} \<subseteq> {lo0..hi0}" using ok(1) parts by blast+
    have "?i < ?i + 1" using succ [of "?i + 1"] by simp
    then have pos: "0 < ?i + 1" by (rule le_less_trans [OF word_zero_le])
    have bound: "?i - 1 < s" "hi < s"
    proof -
      have "?i - 1 < ?i" using pred [of "?i - 1"] by simp
      then show "?i - 1 < s" using i(6) by (rule order.strict_trans)
      have "hi \<in> {lo0..hi0}" using ok(1) i(1,2) by auto
      then show "hi < s" using hi0 by auto
    qed
    have seen: "\<forall>q \<in> insert r seen. res_id q \<notin> {lo..?i - 1}" "\<forall>q \<in> insert r seen. res_id q \<notin> {?i + 1..hi}"
      using ok(3) parts pred [of ?i] succ [of ?i] by auto
    have split: "{lo0..hi0} \<subseteq> used c st \<or> \<not> {lo..?i - 1} \<subseteq> used c st \<or> \<not> {?i + 1..hi} \<subseteq> used c st"
      using ok(4) parts r by blast
    obtain g where g: "AvailableID c lo (?i - 1) good st = Some g" "avail_ok c st lo (?i - 1) g"
      using AvailableID_ok [OF tab ok(2) bound(1) ok(5)] by blast
    obtain h where h: "AvailableID c (?i + 1) hi good st = Some h" "avail_ok c st (?i + 1) hi h"
      using AvailableID_ok [OF tab pos bound(2) ok(5)] by blast
    have avail: "a \<notin> used c st \<and> \<not> {l..u} \<subseteq> used c st" if "avail_ok c st l u a" "a \<noteq> 0" for l u a
      using that by (auto simp: avail_ok_def)
    have none: "{l..u} \<subseteq> used c st" if "avail_ok c st l u 0" for l u using that by (simp add: avail_ok_def)
    let ?lower = "\<lambda>a. (lo, ?i - 1, a)" and ?upper = "\<lambda>a. (?i + 1, hi, a)"
    have inside: "\<not> (?i < lo \<or> hi < ?i)" using i(1,2) by (simp add: not_less)
    have "range_step c st r x = Some (if hi - ?i \<le> ?i - lo then (if g \<noteq> 0 then ?lower g else ?upper g)
        else (if h = 0 then ?lower h else ?upper h))"
      unfolding range_step_def x prod.case if_not_P [OF inside] using g(1) h(1) by simp
    moreover have "range_ok c st lo0 hi0 (insert r seen) (?lower g)" if "g \<noteq> 0"
      unfolding range_ok_def prod.case using sub(1) ok(2) seen(1) avail [OF g(2) that] by blast
    moreover have "range_ok c st lo0 hi0 (insert r seen) (?upper g)" if "g = 0"
      unfolding range_ok_def prod.case using sub(2) pos seen(2) split none [of lo "?i - 1"] g(2) that by blast
    moreover have "range_ok c st lo0 hi0 (insert r seen) (?lower h)" if "h = 0"
      unfolding range_ok_def prod.case using sub(1) ok(2) seen(1) split none [of "?i + 1" hi] h(2) that by blast
    moreover have "range_ok c st lo0 hi0 (insert r seen) (?upper h)" if "h \<noteq> 0"
      unfolding range_ok_def prod.case using sub(2) pos seen(2) avail [OF h(2) that] by blast
    ultimately show ?thesis by auto
  qed
qed

lemma range_scan_ok:
  assumes "table_ok c st" "buckets (clientTable st c) \<noteq> 0" and "set rs \<subseteq> set (all_resources c st)"
    and "0 < lo0" and "hi0 < s" and "range_ok c st lo0 hi0 seen x"
  shows "\<exists>y. range_scan c st rs x = Some y \<and> range_ok c st lo0 hi0 (seen \<union> set rs) y"
  using assms(3,6)
proof (induction rs arbitrary: x seen)
  case (Cons r rs)
  have "res_id r \<in> used c st" using Cons.prems(1) by (simp add: used_def)
  then obtain y where y: "range_step c st r x = Some y" "range_ok c st lo0 hi0 (insert r seen) y"
    using range_step_ok [OF assms(1,2) _ assms(4,5) Cons.prems(2)] by blast
  from Cons.IH [OF _ y(2)] Cons.prems(1) y(1) show ?case by simp
qed simp

text \<open>The bits of a client and of the server are above those of an identifier.\<close>

lemma or_less:
  fixes a b :: u32
  assumes "a < 0x80000000" and "b < 0x80000000"
  shows "a OR b < 0x80000000"
proof -
  have self: "take_bit 31 w = w" if "w < 0x80000000" for w :: u32
    using that by (simp add: word_unat_eq_iff unsigned_take_bit_eq take_bit_nat_eq_self word_less_nat_alt)
  have "take_bit 31 (a OR b) = a OR b" using self [OF assms(1)] self [OF assms(2)] by (simp add: take_bit_or)
  then have "unat (a OR b) < 2 ^ 31" by (metis unsigned_take_bit_eq take_bit_nat_less_exp)
  then show ?thesis by (simp add: word_less_nat_alt)
qed

lemma limit_cases:
  assumes "limit_ok st"
  obtains n where "CLIENTOFFSET st = 29 - n" and "LimitClients st = 2 ^ n" and "n \<le> 11"
proof -
  have "\<exists>n \<in> {6, 7, 8, 9, 10, 11}. CLIENTOFFSET st = 29 - n \<and> LimitClients st = 2 ^ n"
    using assms by (auto simp: limit_ok_def CLIENTOFFSET_def ResourceClientBits_def ilog2_values)
  then obtain n where n: "n \<in> {6, 7, 8, 9, 10, 11 :: nat}" "CLIENTOFFSET st = 29 - n" "LimitClients st = 2 ^ n" by blast
  have "n \<le> 11" using n(1) by auto
  with n(2,3) show thesis by (rule that)
qed

lemma range_bounds:
  assumes "limit_ok st" and "c < LimitClients st" and "server \<or> c \<noteq> 0"
  shows "0 < range_start c server st" and "range_start c server st OR RESOURCE_ID_MASK st < 0x80000000"
    and "range_start c server st \<le> range_start c server st OR RESOURCE_ID_MASK st"
proof -
  let ?k = "CLIENTOFFSET st" and ?extra = "if c \<noteq> 0 then SERVER_BIT else SERVER_MINID"
  obtain n where n: "?k = 29 - n" "LimitClients st = 2 ^ n" "n \<le> 11" by (rule limit_cases [OF assms(1)])
  have k: "?k \<le> 29" using n(1) by simp
  have "c * 2 ^ ?k < 2 ^ n * 2 ^ ?k" using assms(2) n(2) by simp
  also have "\<dots> = 2 ^ 29" using n(1,3) by (simp flip: power_add)
  finally have small: "c * 2 ^ ?k < 2 ^ 29" .
  have c: "unat (clientAsMask c st) = c * 2 ^ ?k"
  proof -
    have "clientAsMask c st = of_nat (c * 2 ^ ?k)" by (simp add: clientAsMask_def push_bit_eq_mult)
    moreover have "unat (word_of_nat m :: u32) = m" if "m < 2 ^ 29" for m
      using that by (simp add: unat_of_nat take_bit_nat_eq_self)
    ultimately show ?thesis using small by (simp only:)
  qed
  have "unat (RESOURCE_ID_MASK st) < 2 ^ ?k"
  proof -
    have "RESOURCE_ID_MASK st = take_bit ?k (- 1)"
      by (simp add: RESOURCE_ID_MASK_def push_bit_eq_mult mask_eq_exp_minus_1 [symmetric])
    then show ?thesis by (metis unsigned_take_bit_eq take_bit_nat_less_exp)
  qed
  also have "(2 :: nat) ^ ?k \<le> 2 ^ 29" by (rule power_increasing [OF k]) simp
  finally have mask: "RESOURCE_ID_MASK st < 0x80000000" by (simp add: word_less_nat_alt)
  have extra: "0 < ?extra" "?extra < 0x80000000" by (simp_all add: SERVER_BIT_def SERVER_MINID_def)
  have start: "clientAsMask c st < 0x80000000" using c small by (simp add: word_less_nat_alt)
  show "0 < range_start c server st"
  proof (cases server)
    case True
    have "?extra \<le> clientAsMask c st OR ?extra" using le_word_or2 [of ?extra "clientAsMask c st"] by (simp add: or.commute)
    with True extra(1) show ?thesis by (simp add: range_start_def)
  next
    case False
    with assms(3) c show ?thesis by (simp add: range_start_def word_less_nat_alt)
  qed
  have "range_start c server st < 0x80000000"
    using start or_less [OF start extra(2)] by (simp add: range_start_def)
  then show "range_start c server st OR RESOURCE_ID_MASK st < 0x80000000" using mask by (rule or_less)
  show "range_start c server st \<le> range_start c server st OR RESOURCE_ID_MASK st"
    by (rule le_word_or2)
qed

lemma GetXIDRange_ok:
  assumes "table_ok c st" and "buckets (clientTable st c) \<noteq> 0" and "limit_ok st" and "c < LimitClients st"
    and "server \<or> c \<noteq> 0"
  defines "lo0 \<equiv> range_start c server st"
  defines "hi0 \<equiv> lo0 OR RESOURCE_ID_MASK st"
  shows "\<exists>lo hi. GetXIDRange c server st = Some (lo, hi) \<and> hi < 0x80000000 \<and>
    (if {lo0..hi0} \<subseteq> used c st then lo = 0 \<and> hi = 0
     else 0 < lo \<and> lo \<le> hi \<and> {lo..hi} \<subseteq> {lo0..hi0} - used c st)"
proof -
  note b = range_bounds [OF assms(3-5), folded lo0_def, folded hi0_def]
  have "range_ok c st lo0 hi0 {} (lo0, hi0, 0)" using b(1) by (auto simp: range_ok_def)
  from range_scan_ok [OF assms(1,2) subset_refl b(1,2) this]
  obtain lo hi good where scan: "range_scan c st (all_resources c st) (lo0, hi0, 0) = Some (lo, hi, good)"
    and ok: "range_ok c st lo0 hi0 (set (all_resources c st)) (lo, hi, good)" by auto
  have fit: "{lo..hi} \<subseteq> {lo0..hi0}" "0 < lo" "{lo..hi} \<inter> used c st = {}"
    "{lo0..hi0} \<subseteq> used c st \<or> \<not> {lo..hi} \<subseteq> used c st"
    using ok unfolding range_ok_def prod.case used_def by auto
  have run: "GetXIDRange c server st = Some (if hi < lo then (0, 0) else (lo, hi))"
    using scan by (simp add: GetXIDRange_def lo0_def [symmetric] hi0_def [symmetric] Let_def)
  show ?thesis
  proof (cases "hi < lo")
    case True
    then have "{lo0..hi0} \<subseteq> used c st" using fit(4) by auto
    with run True show ?thesis by simp
  next
    case False
    then have mem: "lo \<in> {lo..hi}" "hi \<in> {lo..hi}" by simp_all
    then have "\<not> {lo0..hi0} \<subseteq> used c st" using fit(1,3) by blast
    moreover have "hi \<in> {lo0..hi0}" using mem(2) fit(1) by blast
    then have "hi < 0x80000000" using b(2) by auto
    moreover have "{lo..hi} \<subseteq> {lo0..hi0} - used c st" using fit(1,3) by blast
    ultimately show ?thesis using False run fit(2) by simp
  qed
qed

text \<open>C35: The range of identifiers found for a client (of its own or of those the server makes up for it)
  contains no identifier in use, and it is empty only when all of them are in use.\<close>

theorem GetXIDRange_free:
  assumes "db_inv st" and "buckets (clientTable st c) \<noteq> 0" and "c < LimitClients st" and "server \<or> c \<noteq> 0"
  shows "\<exists>lo hi. GetXIDRange c server st = Some (lo, hi) \<and>
    (if {range_start c server st..range_start c server st OR RESOURCE_ID_MASK st} \<subseteq> used c st then lo = 0 \<and> hi = 0
     else 0 < lo \<and> lo \<le> hi \<and>
       {lo..hi} \<subseteq> {range_start c server st..range_start c server st OR RESOURCE_ID_MASK st} - used c st)"
  using GetXIDRange_ok [OF db_table(1) [OF assms(1)] assms(2) db_table(2) [OF assms(1)] assms(3,4)] by blast

theorem GetXIDRange_free_witness:
  "\<exists>lo hi. GetXIDRange 5 False db1 = Some (lo, hi) \<and> lo \<le> hi \<and> 0x02800000 \<notin> {lo..hi}"
proof -
  have used: "used 5 db1 = {0x02800000}" by (simp add: used_def db1_resources)
  have start: "range_start 5 False db1 = 0x02800000" "RESOURCE_ID_MASK db1 = 0x7fffff"
    by (simp_all add: range_start_def clientAsMask_def RESOURCE_ID_MASK_def CLIENTOFFSET_def ResourceClientBits_def
        ilog2_values db1_def db0_def put_chain_def upd_table_def)
  have "0x02800001 \<in> {0x02800000..0x02ffffff} - used 5 db1" by (simp add: used)
  moreover have "buckets (clientTable db1 5) \<noteq> 0" "5 < LimitClients db1"
    by (simp_all add: db1_def db0_def put_chain_def upd_table_def)
  ultimately show ?thesis
    using GetXIDRange_free [OF db1_inv, of 5 False] used start by (auto split: if_splits)
qed

section \<open>Identifiers made up by the server\<close>

text \<open>The identifiers still to be given out avoid a set.\<close>

definition fakes_avoid :: "xid set \<Rightarrow> client \<Rightarrow> resdb \<Rightarrow> bool" where
  "fakes_avoid U c st \<longleftrightarrow> fakeID (clientTable st c) \<le> endFakeID (clientTable st c) \<and>
     {fakeID (clientTable st c)..<endFakeID (clientTable st c)} \<inter> U = {}"



end
