(* ===== verification/ResourceFree.thy ===== *)
theory ResourceFree
  imports ResourceProps
begin

text \<open>
  The loops of \<open>xserver/dix/resource.c\<close> that free resources. A delete function may itself free
  further resources, of any client; as long as it only removes, the loops end and nothing that they
  were to free is left.
\<close>

section \<open>States with fewer resources\<close>

definition shrinks :: "resdb \<Rightarrow> resdb \<Rightarrow> bool" where
  "shrinks st st' \<longleftrightarrow> same_env st st' \<and> (\<forall>c.
     buckets (clientTable st' c) = buckets (clientTable st c) \<and> hashsize (clientTable st' c) = hashsize (clientTable st c) \<and>
     list_all2 subseq (resources (clientTable st' c)) (resources (clientTable st c)))"

lemma shrinks_refl [simp]: "shrinks st st"
  by (simp add: shrinks_def list_all2_same)

lemma shrinks_trans:
  assumes "shrinks a b" and "shrinks b c"
  shows "shrinks a c"
proof -
  have "list_all2 subseq (resources (clientTable c d)) (resources (clientTable a d))" for d
    by (rule list_all2_trans [of subseq subseq subseq _ "resources (clientTable b d)"])
      (use assms in \<open>auto simp: shrinks_def intro: subseq_order.order_trans\<close>)
  then show ?thesis using assms same_env_trans by (auto simp: shrinks_def)
qed

lemma shrinks_frame:
  assumes "same_env st st'" and "clientTable st' = clientTable st"
  shows "shrinks st st'"
  using assms by (simp add: shrinks_def list_all2_same)

lemma subseq_concat:
  assumes "list_all2 subseq xss yss"
  shows "subseq (concat xss) (concat yss)"
  using assms by (induction rule: list_all2_induct) (auto intro: list_emb_append_mono)

lemma subseq_concat_eq:
  assumes "list_all2 subseq xss yss" and "length (concat xss) = length (concat yss)"
  shows "xss = yss"
  using assms
proof (induction rule: list_all2_induct)
  case (Cons xs xss ys yss)
  have "length xs \<le> length ys" by (rule list_emb_length [OF Cons.hyps(1)])
  moreover have "length (concat xss) \<le> length (concat yss)"
    by (rule list_emb_length [OF subseq_concat [OF Cons.hyps(2)]])
  ultimately have "length xs = length ys" "length (concat xss) = length (concat yss)"
    using Cons.prems by auto
  with Cons show ?case by (simp add: subseq_same_length)
qed simp

definition res_count :: "client \<Rightarrow> resdb \<Rightarrow> nat" where
  "res_count c st = length (concat (resources (clientTable st c)))"

lemma count_elements:
  assumes "db_inv st"
  shows "elements (clientTable st c) = int (res_count c st)"
  using table_okD(2) [OF db_table(1) [OF assms]] by (simp add: res_count_def)

lemma shrinks_count:
  assumes "shrinks st st'"
  shows "res_count c st' \<le> res_count c st"
    and "res_count c st' = res_count c st \<Longrightarrow> resources (clientTable st' c) = resources (clientTable st c)"
proof -
  have l: "list_all2 subseq (resources (clientTable st' c)) (resources (clientTable st c))"
    using assms by (simp add: shrinks_def)
  show "res_count c st' \<le> res_count c st" unfolding res_count_def by (rule list_emb_length [OF subseq_concat [OF l]])
  show "resources (clientTable st' c) = resources (clientTable st c)" if "res_count c st' = res_count c st"
    using subseq_concat_eq [OF l] that by (simp add: res_count_def)
qed

lemma shrinks_chain:
  assumes "shrinks st st'" and "b < length (resources (clientTable st c))"
  shows "set (resources (clientTable st' c) ! b) \<subseteq> set (resources (clientTable st c) ! b)"
    and "length (resources (clientTable st' c)) = length (resources (clientTable st c))"
proof -
  have l: "list_all2 subseq (resources (clientTable st' c)) (resources (clientTable st c))"
    using assms(1) by (simp add: shrinks_def)
  show len: "length (resources (clientTable st' c)) = length (resources (clientTable st c))"
    by (rule list_all2_lengthD [OF l])
  have "subseq (resources (clientTable st' c) ! b) (resources (clientTable st c) ! b)"
    using list_all2_nthD2 [OF l assms(2)] .
  then show "set (resources (clientTable st' c) ! b) \<subseteq> set (resources (clientTable st c) ! b)"
    by (auto dest: list_emb_set)
qed

text \<open>A record is unlinked from its chain.\<close>

lemma unlink_record:
  assumes inv: "db_inv st" and b: "b < buckets (clientTable st c)"
    and rs: "resources (clientTable st c) ! b = ys @ r # zs"
  defines "st1 \<equiv> put_chain c b (ys @ zs) (- 1) st"
  shows "db_inv st1" and "shrinks st st1" and "res_count c st = Suc (res_count c st1)" and "valid_type (res_type r) st1"
    and "resources (clientTable st1 c) ! b = ys @ zs"
proof -
  note tab = db_table(1) [OF inv, of c]
  let ?xss = "resources (clientTable st c)"
  have len: "b < length ?xss" using b table_okD(1) [OF tab] by simp
  have mem: "x \<in> set (all_resources c st)" if "x \<in> set (?xss ! b)" for x
    using that nth_mem [OF len] unfolding all_resources_concat [OF tab] by auto
  have good: "HashResourceID (res_id x) (hashsize (clientTable st c)) st = b \<and> valid_type (res_type x) st"
    if "x \<in> set (?xss ! b)" for x
    using table_okD(5) [OF tab b that] db_table(4) [OF inv mem [OF that]] by simp
  show "db_inv st1"
    unfolding st1_def using good rs b by (intro db_inv_put_chain [OF inv]) auto
  have "subseq (ys @ zs) (ys @ r # zs)" by (intro list_emb_append_mono) auto
  then have "list_all2 subseq (?xss[b := ys @ zs]) (?xss[b := ?xss ! b])"
    by (intro list_all2_update_cong) (simp_all add: list_all2_same rs)
  then show "shrinks st st1"
    by (auto simp: st1_def shrinks_def list_all2_same)
  show "res_count c st = Suc (res_count c st1)"
    using length_concat_update [OF len, of "ys @ zs"] rs by (simp add: res_count_def st1_def)
  have env: "same_env st st1" by (simp add: st1_def)
  show "valid_type (res_type r) st1" using good [of r] rs env_ids(3) [OF env] by simp
  show "resources (clientTable st1 c) ! b = ys @ zs" using len by (simp add: st1_def)
qed

text \<open>A delete function that may free other resources, but adds none.\<close>

definition removing :: "deleter \<Rightarrow> bool" where
  "removing df \<longleftrightarrow> (\<forall>f v i st. db_inv st \<longrightarrow> (\<exists>st'. df f v i st = Some st' \<and> db_inv st' \<and> shrinks st st'))"

lemma doFree_removing:
  assumes "removing df" and inv: "db_inv st" and t: "valid_type (res_type r) st"
  shows "\<exists>st'. doFreeResource df r skip st = Some st' \<and> db_inv st' \<and> shrinks st st'"
proof -
  let ?st1 = "CallResourceStateCallback (ResourceStateFreeing r) st"
  have env: "same_env st ?st1" by simp
  have inv1: "db_inv ?st1" by (rule db_inv_frame [OF inv]) simp_all
  have sh1: "shrinks st ?st1" by (rule shrinks_frame) simp_all
  have "valid_type (res_type r) ?st1" using t env_ids(3) [OF env] by simp
  then obtain ty where "rd (resourceTypes ?st1) (type_index (res_type r) ?st1) = Some ty"
    using type_index_less [OF db_table(3) [OF inv1]] by (simp add: rd_def)
  moreover obtain st' where "df (deleteFunc ty) (res_value r) (res_id r) ?st1 = Some st'" "db_inv st'" "shrinks ?st1 st'"
    using assms(1) inv1 unfolding removing_def by blast
  ultimately show ?thesis
    using inv1 sh1 shrinks_trans by (cases skip) (auto simp: doFreeResource_def call_delete_def)
qed

lemma shrinks_length:
  assumes "shrinks st st'"
  shows "length (resources (clientTable st' c)) = length (resources (clientTable st c))"
  using assms list_all2_lengthD by (auto simp: shrinks_def)

text \<open>One record is unlinked and freed.\<close>

lemma free_record:
  assumes "removing df" and inv: "db_inv st" and b: "b < buckets (clientTable st c)"
    and rs: "resources (clientTable st c) ! b = ys @ r # zs"
  obtains st2 where "doFreeResource df r skip (put_chain c b (ys @ zs) (- 1) st) = Some st2" and "db_inv st2"
    and "shrinks st st2" and "res_count c st2 < res_count c st"
    and "length (resources (clientTable st2 c)) = length (resources (clientTable (put_chain c b (ys @ zs) (- 1) st) c))"
    and "elements (clientTable st2 c) = elements (clientTable (put_chain c b (ys @ zs) (- 1) st) c)
      \<longrightarrow> resources (clientTable st2 c) ! b = ys @ zs"
proof -
  define st1 where "st1 = put_chain c b (ys @ zs) (- 1) st"
  note u = unlink_record [OF inv b rs, folded st1_def]
  obtain st2 where 2: "doFreeResource df r skip st1 = Some st2" "db_inv st2" "shrinks st1 st2"
    using doFree_removing [OF assms(1) u(1,4)] by blast
  have "resources (clientTable st2 c) ! b = ys @ zs" if "elements (clientTable st2 c) = elements (clientTable st1 c)"
    using that shrinks_count(2) [OF 2(3), of c] count_elements [OF 2(2)] count_elements [OF u(1)] u(5) by simp
  with 2 u(3) shrinks_trans [OF u(2) 2(3)] shrinks_count(1) [OF 2(3), of c] shrinks_length [OF 2(3)] show thesis
    by (intro that [of st2]) (simp_all add: st1_def [symmetric])
qed

section \<open>Freeing one identifier\<close>

lemma free_loop_ends:
  assumes "removing df" and "db_inv st" and "b < buckets (clientTable st c)"
    and "\<forall>r \<in> set (take k (resources (clientTable st c) ! b)). \<not> p r"
  shows "\<exists>st'. free_loop df p skip c b k st = Some st' \<and> db_inv st' \<and> shrinks st st' \<and>
    (\<forall>r \<in> set (resources (clientTable st' c) ! b). \<not> p r)"
  using assms(2-4)
proof (induction "res_count c st" arbitrary: st k rule: less_induct)
  case (less st)
  note outer = less.hyps and inv = less.prems(1) and b = less.prems(2)
  let ?rs = "resources (clientTable st c) ! b"
  have rd: "rd (resources (clientTable st c)) b = Some ?rs"
    using b table_okD(1) [OF db_table(1) [OF inv]] by (simp add: rd_def)
  show ?case
    using less.prems(3)
  proof (induction "length ?rs - k" arbitrary: k rule: less_induct)
    case (less k)
    consider "length ?rs \<le> k" | "k < length ?rs" "\<not> p (?rs ! k)" | "k < length ?rs" "p (?rs ! k)" by linarith
    then show ?case
    proof cases
      case 1
      then show ?thesis using rd inv less.prems by (subst free_loop.simps) simp
    next
      case 2
      then have "\<forall>r \<in> set (take (Suc k) ?rs). \<not> p r" using less.prems by (simp add: take_Suc_conv_app_nth)
      with less.hyps [of "Suc k"] rd 2 show ?thesis by (subst free_loop.simps) simp
    next
      case 3
      have rs: "?rs = take k ?rs @ ?rs ! k # drop (Suc k) ?rs" using 3(1) by (simp add: id_take_nth_drop)
      let ?st1 = "put_chain c b (take k ?rs @ drop (Suc k) ?rs) (- 1) st"
      obtain st2 where f: "doFreeResource df (?rs ! k) (skip (?rs ! k)) ?st1 = Some st2" "db_inv st2" "shrinks st st2"
        "res_count c st2 < res_count c st" "length (resources (clientTable st2 c)) = length (resources (clientTable ?st1 c))"
        "elements (clientTable st2 c) = elements (clientTable ?st1 c)
          \<longrightarrow> resources (clientTable st2 c) ! b = take k ?rs @ drop (Suc k) ?rs"
        by (rule free_record [OF assms(1) inv b rs, where skip = "skip (?rs ! k)"])
      have b2: "b < buckets (clientTable st2 c)" using b f(3) by (simp add: shrinks_def)
      let ?k = "if elements (clientTable st2 c) \<noteq> elements (clientTable ?st1 c) then 0 else k"
      have "\<forall>r \<in> set (take ?k (resources (clientTable st2 c) ! b)). \<not> p r"
        using f(6) less.prems 3(1) by auto
      from outer [OF f(4,2) b2 this] obtain st' where s: "free_loop df p skip c b ?k st2 = Some st'" "db_inv st'"
        "shrinks st2 st'" "\<forall>r \<in> set (resources (clientTable st' c) ! b). \<not> p r" by blast
      have "free_loop df p skip c b k st = free_loop df p skip c b ?k st2"
        using rd 3 f(1,5) by (subst free_loop.simps) (simp add: Let_def)
      with s shrinks_trans [OF f(3) s(3)] show ?thesis by auto
    qed
  qed
qed

lemma no_del_removing: "removing no_del"
  by (simp add: removing_def no_del_def)

text \<open>A delete function that takes all other resources of its client along.\<close>

definition purge :: "client \<Rightarrow> resdb \<Rightarrow> resdb" where
  "purge c st = upd_table c (\<lambda>t. t\<lparr>resources := map (\<lambda>_. []) (resources t), elements := 0\<rparr>) st"

definition purge_del :: deleter where
  "purge_del f v i st = Some (purge (CLIENT_ID i st) st)"

lemma purge_del_removing: "removing purge_del"
proof -
  have "db_inv (purge c st) \<and> shrinks st (purge c st)" if inv: "db_inv st" for c st
  proof
    have env: "same_env st (purge c st)" by (simp add: purge_def)
    have tab: "table_ok c (purge c st)"
      using table_okD [OF db_table(1) [OF inv, of c]] by (auto simp: table_ok_def purge_def Let_def MAXHASHSIZE_def)
    show "db_inv (purge c st)"
      using tab by (intro db_inv_table [OF inv env, where c = c]) (auto simp: purge_def all_resources_def dest!: in_set_takeD)
    show "shrinks st (purge c st)"
      by (auto simp: shrinks_def purge_def list_all2_same list_all2_map1)
  qed
  then show ?thesis by (simp add: removing_def purge_del_def)
qed

text \<open>C33: Freeing an identifier ends, whatever further resources the delete functions free on the way, and
  leaves no resource of any type under it; no resource is added and the database stays
  well-formed.\<close>

theorem FreeResource_ends:
  assumes "db_inv st" and "removing df"
  shows "\<exists>st'. FreeResource df i skip st = Some st' \<and> db_inv st' \<and> shrinks st st' \<and> (\<forall>t. stack st' i t = [])"
proof -
  define c where "c = CLIENT_ID i st"
  show ?thesis
  proof (cases "buckets (clientTable st c) = 0")
    case True
    then show ?thesis
      using assms(1) stack_unused [OF assms(1)] by (simp add: FreeResource_def c_def)
  next
    case False
    let ?b = "chain_index c i st"
    have b: "?b < buckets (clientTable st c)" by (rule chain_index_less [OF db_table(1) [OF assms(1)] False])
    obtain st' where s: "free_loop df (\<lambda>r. res_id r = i) (\<lambda>r. res_type r = skip) c ?b 0 st = Some st'" "db_inv st'"
      "shrinks st st'" "\<forall>r \<in> set (resources (clientTable st' c) ! ?b). res_id r \<noteq> i"
      using free_loop_ends [OF assms(2,1) b, of 0 "\<lambda>r. res_id r = i"] by auto
    have env: "same_env st st'" and same: "buckets (clientTable st' c) = buckets (clientTable st c)"
      "hashsize (clientTable st' c) = hashsize (clientTable st c)" using s(3) by (simp_all add: shrinks_def)
    have idx: "chain_index c i st' = ?b" using same(2) env_ids(1) [OF env] by (simp add: chain_index_def)
    have "stack st' i t = []" for t
      using stack_chain [OF s(2), of i t] s(4) False same(1) idx env_ids(2) [OF env]
      by (simp add: c_def [symmetric] named_def filter_empty_conv)
    moreover have "FreeResource df i skip st = Some st'"
      using s(1) False CLIENT_ID_less [OF db_table(2) [OF assms(1)]] by (simp add: FreeResource_def c_def Let_def)
    ultimately show ?thesis using s(2,3) by blast
  qed
qed

theorem FreeResource_ends_witness:
  "\<exists>st'. FreeResource purge_del 0x02800000 0 db1 = Some st' \<and> stack st' 0x02800000 1 = []"
  using FreeResource_ends [OF db1_inv purge_del_removing, of "0x02800000" 0] by blast

section \<open>Freeing a client\<close>

lemma free_chain_ends:
  assumes "removing df" and "db_inv st" and "j < buckets (clientTable st c)"
  shows "\<exists>st'. free_chain df c j st = Some st' \<and> db_inv st' \<and> shrinks st st' \<and> resources (clientTable st' c) ! j = []"
  using assms(2,3)
proof (induction "res_count c st" arbitrary: st rule: less_induct)
  case (less st)
  have rd: "rd (resources (clientTable st c)) j = Some (resources (clientTable st c) ! j)"
    using less.prems(2) table_okD(1) [OF db_table(1) [OF less.prems(1)]] by (simp add: rd_def)
  show ?case
  proof (cases "resources (clientTable st c) ! j")
    case Nil
    then show ?thesis using rd less.prems by (subst free_chain.simps) simp
  next
    case (Cons r rs)
    then have "resources (clientTable st c) ! j = [] @ r # rs" by simp
    from free_record [OF assms(1) less.prems this, where skip = False]
    obtain st2 where f: "doFreeResource df r False (put_chain c j rs (- 1) st) = Some st2" "db_inv st2" "shrinks st st2"
      "res_count c st2 < res_count c st"
      "length (resources (clientTable st2 c)) = length (resources (clientTable (put_chain c j rs (- 1) st) c))"
      by (metis append_Nil)
    have "j < buckets (clientTable st2 c)" using less.prems(2) f(3) by (simp add: shrinks_def)
    with less.hyps [OF f(4,2)] obtain st' where s: "free_chain df c j st2 = Some st'" "db_inv st'" "shrinks st2 st'"
      "resources (clientTable st' c) ! j = []" by blast
    have "free_chain df c j st = free_chain df c j st2"
      using rd Cons f(1,5) by (subst free_chain.simps) (simp add: Let_def)
    with s shrinks_trans [OF f(3) s(3)] show ?thesis by auto
  qed
qed

definition chains_empty :: "client \<Rightarrow> nat \<Rightarrow> resdb \<Rightarrow> bool" where
  "chains_empty c n st \<longleftrightarrow> (\<forall>j < n. resources (clientTable st c) ! j = [])"

lemma free_chains_ends:
  assumes "removing df" and "db_inv st" and "j \<le> buckets (clientTable st c)" and "chains_empty c j st"
  shows "\<exists>st'. free_chains df c j st = Some st' \<and> db_inv st' \<and> shrinks st st' \<and>
    chains_empty c (buckets (clientTable st' c)) st'"
  using assms(2-4)
proof (induction "buckets (clientTable st c) - j" arbitrary: j st rule: less_induct)
  case (less j st)
  show ?case
  proof (cases "j < buckets (clientTable st c)")
    case False
    with less.prems show ?thesis by (subst free_chains.simps) simp
  next
    case True
    obtain st1 where 1: "free_chain df c j st = Some st1" "db_inv st1" "shrinks st st1" "resources (clientTable st1 c) ! j = []"
      using free_chain_ends [OF assms(1) less.prems(1) True] by blast
    have same: "buckets (clientTable st1 c) = buckets (clientTable st c)" using 1(3) by (simp add: shrinks_def)
    have len: "length (resources (clientTable st c)) = buckets (clientTable st c)"
      by (rule table_okD(1) [OF db_table(1) [OF less.prems(1)]])
    have "resources (clientTable st1 c) ! k = []" if "k < Suc j" for k
    proof (cases "k = j")
      case False
      then have "set (resources (clientTable st1 c) ! k) \<subseteq> set (resources (clientTable st c) ! k)"
        using that True len by (intro shrinks_chain(1) [OF 1(3)]) simp
      then show ?thesis using less.prems(3) that False by (simp add: chains_empty_def)
    qed (use 1(4) in simp)
    then have empty: "chains_empty c (Suc j) st1" by (simp add: chains_empty_def)
    have "buckets (clientTable st1 c) - Suc j < buckets (clientTable st c) - j" "Suc j \<le> buckets (clientTable st1 c)"
      using True same by simp_all
    from less.hyps [OF this(1) 1(2) this(2) empty]
    obtain st' where s: "free_chains df c (Suc j) st1 = Some st'" "db_inv st'"
      "shrinks st1 st'" "chains_empty c (buckets (clientTable st' c)) st'" by blast
    have "free_chains df c j st = Some st'" using True 1(1) s(1) by (subst free_chains.simps) simp
    with s(2,4) shrinks_trans [OF 1(3) s(3)] show ?thesis by blast
  qed
qed

lemma FreeClientResources_ends:
  assumes "removing df" and "save c st = Some st1" and "db_inv st1"
  shows "\<exists>st'. FreeClientResources df save (Some c) st = Some st' \<and> db_inv st' \<and> all_resources c st' = [] \<and>
    buckets (clientTable st' c) = 0"
proof -
  obtain st2 where 2: "free_chains df c 0 st1 = Some st2" "db_inv st2" "chains_empty c (buckets (clientTable st2 c)) st2"
    using free_chains_ends [OF assms(1,3), of 0 c] by (auto simp: chains_empty_def)
  let ?st' = "upd_table c (\<lambda>t. t\<lparr>resources := [], buckets := 0\<rparr>) st2"
  note tab = table_okD [OF db_table(1) [OF 2(2), of c]]
  have "concat (resources (clientTable st2 c)) = []"
    using 2(3) tab(1) by (auto simp: chains_empty_def in_set_conv_nth)
  then have "elements (clientTable st2 c) = 0" using tab(2) by simp
  then have "table_ok c ?st'" by (simp add: table_ok_def Let_def)
  then have "db_inv ?st'" by (intro db_inv_table [OF 2(2), where c = c]) (simp_all add: all_resources_def)
  moreover have "FreeClientResources df save (Some c) st = Some ?st'"
    using assms(2) 2(1) by (simp add: FreeClientResources_def)
  ultimately show ?thesis by (intro exI [of _ ?st']) (simp add: all_resources_def)
qed

text \<open>With delete functions that leave the tables and the log alone, the log shows what is freed.\<close>

definition quiet_log :: "deleter \<Rightarrow> bool" where
  "quiet_log df \<longleftrightarrow> (\<forall>f v i st. \<exists>st'. df f v i st = Some st' \<and> same_env st st' \<and> clientTable st' = clientTable st \<and>
     res_log st' = res_log st)"

lemma quiet_log_removing: "quiet_log df \<Longrightarrow> removing df"
  unfolding quiet_log_def removing_def using db_inv_frame shrinks_frame by meson

lemma doFree_log:
  assumes "quiet_log df" and "types_ok st" and "valid_type (res_type r) st"
  shows "\<exists>st'. doFreeResource df r False st = Some st' \<and> same_env st st' \<and> clientTable st' = clientTable st \<and>
    res_log st' = res_log st @ [ResourceStateFreeing r]"
proof -
  let ?st1 = "CallResourceStateCallback (ResourceStateFreeing r) st"
  have env: "same_env st ?st1" by simp
  obtain ty where "rd (resourceTypes ?st1) (type_index (res_type r) ?st1) = Some ty"
    using type_index_less [of ?st1 "res_type r"] assms env_ids [OF env] by (simp add: rd_def)
  moreover obtain st' where s: "df (deleteFunc ty) (res_value r) (res_id r) ?st1 = Some st'" "same_env ?st1 st'"
    "clientTable st' = clientTable ?st1" "res_log st' = res_log ?st1"
    using assms(1) unfolding quiet_log_def by blast
  ultimately show ?thesis
    using same_env_trans [OF env s(2)]
    by (auto simp: doFreeResource_def call_delete_def CallResourceStateCallback_def)
qed

lemma free_chain_log:
  assumes "quiet_log df" and "db_inv st" and "j < buckets (clientTable st c)"
  shows "\<exists>st'. free_chain df c j st = Some st' \<and> db_inv st' \<and>
    (\<exists>n. clientTable st' c = (clientTable st c)\<lparr>resources := (resources (clientTable st c))[j := []], elements := n\<rparr>) \<and>
    res_log st' = res_log st @ map ResourceStateFreeing (resources (clientTable st c) ! j)"
  using assms(2,3)
proof (induction "resources (clientTable st c) ! j" arbitrary: st)
  case Nil
  have rd: "rd (resources (clientTable st c)) j = Some []"
    using Nil table_okD(1) [OF db_table(1) [OF Nil.prems(1)]] by (simp add: rd_def)
  have "\<exists>n. clientTable st c = (clientTable st c)\<lparr>resources := (resources (clientTable st c))[j := []], elements := n\<rparr>"
    using list_update_id [of "resources (clientTable st c)" j] Nil.hyps
    by (intro exI [of _ "elements (clientTable st c)"]) simp
  moreover have "free_chain df c j st = Some st" using rd by (subst free_chain.simps) simp
  ultimately show ?case using Nil.prems(1) Nil.hyps [symmetric] by auto
next
  case (Cons r rs)
  let ?st1 = "put_chain c j rs (- 1) st"
  have rd: "rd (resources (clientTable st c)) j = Some (r # rs)"
    using Cons table_okD(1) [OF db_table(1) [OF Cons.prems(1)]] by (simp add: rd_def)
  have "resources (clientTable st c) ! j = [] @ r # rs" using Cons.hyps(2) by simp
  note u = unlink_record [OF Cons.prems this, simplified]
  obtain st2 where 2: "doFreeResource df r False ?st1 = Some st2" "same_env ?st1 st2" "clientTable st2 = clientTable ?st1"
    "res_log st2 = res_log ?st1 @ [ResourceStateFreeing r]"
    using doFree_log [OF assms(1) db_table(3) [OF u(1)] u(4)] by blast
  have inv2: "db_inv st2" by (rule db_inv_frame [OF u(1) 2(2,3)])
  have rs2: "rs = resources (clientTable st2 c) ! j" and b2: "j < buckets (clientTable st2 c)"
    using u(5) 2(3) Cons.prems(2) by simp_all
  from Cons.hyps(1) [OF rs2 inv2 b2] obtain st' n where s: "free_chain df c j st2 = Some st'" "db_inv st'"
    "clientTable st' c = (clientTable st2 c)\<lparr>resources := (resources (clientTable st2 c))[j := []], elements := n\<rparr>"
    "res_log st' = res_log st2 @ map ResourceStateFreeing (resources (clientTable st2 c) ! j)" by blast
  have "free_chain df c j st = Some st'" using rd 2(1,3) s(1) by (subst free_chain.simps) (simp add: Let_def)
  moreover have "res_log st' = res_log st @ map ResourceStateFreeing (resources (clientTable st c) ! j)"
    using s(4) 2(4) rs2 Cons.hyps(2) [symmetric] by (simp add: put_chain_def upd_table_def)
  ultimately show ?case using s(2,3) 2(3) by auto
qed

lemma free_chains_log:
  assumes "quiet_log df" and "db_inv st" and "j \<le> buckets (clientTable st c)"
  shows "\<exists>st'. free_chains df c j st = Some st' \<and>
    res_log st' = res_log st @ map ResourceStateFreeing (concat (drop j (resources (clientTable st c))))"
  using assms(2,3)
proof (induction "buckets (clientTable st c) - j" arbitrary: j st)
  case 0
  then show ?case
    using table_okD(1) [OF db_table(1) [OF 0(2)], of c] by (subst free_chains.simps) simp
next
  case (Suc m)
  have j: "j < buckets (clientTable st c)" using Suc.hyps(2) by simp
  obtain st1 n where 1: "free_chain df c j st = Some st1" "db_inv st1"
    "clientTable st1 c = (clientTable st c)\<lparr>resources := (resources (clientTable st c))[j := []], elements := n\<rparr>"
    "res_log st1 = res_log st @ map ResourceStateFreeing (resources (clientTable st c) ! j)"
    using free_chain_log [OF assms(1) Suc.prems(1) j] by blast
  have "m = buckets (clientTable st1 c) - Suc j" "Suc j \<le> buckets (clientTable st1 c)"
    using Suc.hyps(2) j 1(3) by simp_all
  from Suc.hyps(1) [OF this(1) 1(2) this(2)] obtain st' where s: "free_chains df c (Suc j) st1 = Some st'"
    "res_log st' = res_log st1 @ map ResourceStateFreeing (concat (drop (Suc j) (resources (clientTable st1 c))))" by blast
  have "drop j (resources (clientTable st c)) = resources (clientTable st c) ! j # drop (Suc j) (resources (clientTable st c))"
    using j table_okD(1) [OF db_table(1) [OF Suc.prems(1)]] by (simp add: Cons_nth_drop_Suc)
  then have "res_log st' = res_log st @ map ResourceStateFreeing (concat (drop j (resources (clientTable st c))))"
    using s(2) 1(3,4) by simp
  moreover have "free_chains df c j st = Some st'" using j 1(1) s(1) by (subst free_chains.simps) simp
  ultimately show ?case by blast
qed


lemma no_del_quiet_log: "quiet_log no_del"
  by (simp add: quiet_log_def no_del_def)


end
