(* ===== verification/Touch.thy ===== *)
theory Touch
  imports Complex_Main Prelude "HOL-Library.Monad_Syntax"
begin

text \<open>
  Touch input: \<open>handleTouchEvent\<close> of \<open>lorie/cmdentrypoint.cpp\<close>, which turns the touches of the activity
  into events of the X server, with the touch points it uses (\<open>xserver/dix/touch.c\<close>) and the events
  queued for them (\<open>GetTouchEvents\<close> of \<open>xserver/dix/getevents.c\<close>). A coordinate is an exact fraction, or
  not a number for a screen of size zero: the quotients of the code are rounded to a \<open>double\<close>, whose
  error is below 1/65535 and so never turns a fraction into a whole number. The transformation of
  the coordinates to the desktop, the raw events, the device changes queued along and a failing
  allocation of a valuator mask are not modelled.
\<close>

datatype coord = NaN | Fin rat

fun coord_eq :: "coord \<Rightarrow> coord \<Rightarrow> bool" where
  "coord_eq (Fin a) (Fin b) = (a = b)"
| "coord_eq _ _ = False"

type_synonym valuators = "coord option \<times> coord option"

record DDXTouchPointInfo =
  t_client_id :: u32
  t_active :: bool
  t_ddx_id :: u32
  t_emulate_pointer :: bool
  t_valuators :: valuators

definition XI_TouchBegin :: u16 where "XI_TouchBegin = 18"
definition XI_TouchUpdate :: u16 where "XI_TouchUpdate = 19"
definition XI_TouchEnd :: u16 where "XI_TouchEnd = 20"

datatype event_type = ET_TouchBegin | ET_TouchUpdate | ET_TouchEnd

record queued =
  q_type :: event_type
  q_touchid :: u32
  q_emulated :: bool
  q_valuators :: valuators

record touchdev =
  has_touch :: bool
  has_valuator :: bool
  enabled :: bool
  directTouch :: bool
  touches :: "DDXTouchPointInfo list"
  next_client_id :: u32
  touchEmulatePointer :: bool
  grow_ok :: "bool list"
  InputEventQueue :: "queued list"
  cursor_visible :: bool
  cursor_moved :: bool
  scr_width :: nat
  scr_height :: nat

section \<open>Touch points\<close>

definition TouchInitDDXTouchPoint :: DDXTouchPointInfo where
  "TouchInitDDXTouchPoint =
     \<lparr>t_client_id = 0, t_active = False, t_ddx_id = 0, t_emulate_pointer = False, t_valuators = (None, None)\<rparr>"

definition TouchResizeQueue :: "touchdev \<Rightarrow> bool \<times> touchdev" where
  "TouchResizeQueue d =
     (let n = length (touches d); size = n + n div 2 + 1 in
      case grow_ok d of
        [] \<Rightarrow> (True, d\<lparr>touches := touches d @ replicate (size - n) TouchInitDDXTouchPoint\<rparr>)
      | ok # oks \<Rightarrow>
          if ok then (True, d\<lparr>grow_ok := oks, touches := touches d @ replicate (size - n) TouchInitDDXTouchPoint\<rparr>)
          else (False, d\<lparr>grow_ok := oks\<rparr>))"

fun find_active :: "nat \<Rightarrow> u32 \<Rightarrow> DDXTouchPointInfo list \<Rightarrow> nat option" where
  "find_active i k [] = None"
| "find_active i k (t # ts) = (if t_active t \<and> t_ddx_id t = k then Some i else find_active (Suc i) k ts)"

text \<open>\<open>TouchFindByDDXID\<close> without creating a point.\<close>

definition TouchFind :: "u32 \<Rightarrow> touchdev \<Rightarrow> nat option" where
  "TouchFind k d = (if \<not> has_touch d then None else find_active 0 k (touches d))"

text \<open>One pass over the points: the first point not in use, and whether none is in use.\<close>

fun scan_touches :: "bool \<Rightarrow> nat option \<Rightarrow> nat \<Rightarrow> DDXTouchPointInfo list \<Rightarrow> bool \<times> nat option" where
  "scan_touches emu ti i [] = (emu, ti)"
| "scan_touches emu ti i (t # ts) =
     (let emu1 = (if t_active t then False else emu);
          ti1 = (if \<not> t_active t \<and> ti = None then Some i else ti)
      in if \<not> emu1 \<and> ti1 \<noteq> None then (emu1, ti1) else scan_touches emu1 ti1 (Suc i) ts)"

partial_function (option) begin_loop :: "bool \<Rightarrow> touchdev \<Rightarrow> (bool \<times> nat option \<times> touchdev) option" where
  "begin_loop emu d =
     (case scan_touches emu None 0 (touches d) of
        (emu1, Some i) \<Rightarrow> Some (emu1, Some i, d)
      | (emu1, None) \<Rightarrow>
          (case TouchResizeQueue d of (ok, d1) \<Rightarrow> if ok then begin_loop emu1 d1 else Some (emu1, None, d1)))"

definition next_id :: "u32 \<Rightarrow> u32" where
  "next_id k = (if k + 1 = 0 then 1 else k + 1)"

definition TouchBeginDDXTouch :: "u32 \<Rightarrow> touchdev \<Rightarrow> (nat option \<times> touchdev) option" where
  "TouchBeginDDXTouch k d =
     (if \<not> has_touch d then Some (None, d)
      else if TouchFind k d \<noteq> None then Some (None, d)
      else do {
        (emu, ti, d1) \<leftarrow> begin_loop (touchEmulatePointer d \<and> directTouch d) d;
        (case ti of
           None \<Rightarrow> Some (None, d1)
         | Some i \<Rightarrow>
             Some (Some i, d1\<lparr>touches := (touches d1)[i := (touches d1 ! i)\<lparr>t_active := True, t_ddx_id := k,
                 t_client_id := next_client_id d1, t_emulate_pointer := emu\<rparr>],
               next_client_id := next_id (next_client_id d1)\<rparr>))
      })"

definition TouchFindByDDXID :: "u32 \<Rightarrow> bool \<Rightarrow> touchdev \<Rightarrow> (nat option \<times> touchdev) option" where
  "TouchFindByDDXID k create d =
     (if \<not> has_touch d then Some (None, d)
      else
        (case TouchFind k d of
           Some i \<Rightarrow> Some (Some i, d)
         | None \<Rightarrow> if create then TouchBeginDDXTouch k d else Some (None, d)))"

definition TouchEndDDXTouch :: "nat \<Rightarrow> touchdev \<Rightarrow> touchdev" where
  "TouchEndDDXTouch i d =
     (if \<not> has_touch d then d else d\<lparr>touches := (touches d)[i := (touches d ! i)\<lparr>t_active := False\<rparr>]\<rparr>)"

text \<open>The points \<open>InitTouchClassDeviceStruct\<close> sets up.\<close>

definition init_touches :: "nat \<Rightarrow> DDXTouchPointInfo list" where
  "init_touches max_touches = replicate (if max_touches = 0 then 5 else max_touches) TouchInitDDXTouchPoint"

section \<open>Queueing\<close>

text \<open>A direct touch device remembers the coordinates posted last and fills in those left out.\<close>

definition or_else :: "'a option \<Rightarrow> 'a option \<Rightarrow> 'a option" where
  "or_else a b = (case a of None \<Rightarrow> b | Some _ \<Rightarrow> a)"

definition post_valuators :: "valuators \<Rightarrow> valuators \<Rightarrow> valuators" where
  "post_valuators vmask old = (or_else (fst vmask) (fst old), or_else (snd vmask) (snd old))"

definition event_type_of :: "u16 \<Rightarrow> valuators \<Rightarrow> event_type option" where
  "event_type_of type vmask =
     (if type = XI_TouchBegin then (if fst vmask = None \<or> snd vmask = None then None else Some ET_TouchBegin)
      else if type = XI_TouchUpdate then Some ET_TouchUpdate
      else if type = XI_TouchEnd then Some ET_TouchEnd
      else None)"

definition GetTouchEvents :: "u32 \<Rightarrow> u16 \<Rightarrow> valuators \<Rightarrow> touchdev \<Rightarrow> (queued list \<times> touchdev) option" where
  "GetTouchEvents k type vmask d =
     (if \<not> enabled d \<or> \<not> has_touch d \<or> \<not> has_valuator d then Some ([], d)
      else do {
        (ti, d1) \<leftarrow> TouchFindByDDXID k (type = XI_TouchBegin) d;
        (case ti of
           None \<Rightarrow> Some ([], d1)
         | Some i \<Rightarrow>
             let t = touches d1 ! i in
             (case event_type_of type vmask of
                None \<Rightarrow> Some ([], d1)
              | Some et \<Rightarrow>
                  let d2 = (if et = ET_TouchEnd then TouchEndDDXTouch i d1 else d1);
                      v = (if directTouch d2 then post_valuators vmask (t_valuators t) else vmask);
                      d3 = (if directTouch d2
                            then d2\<lparr>touches := (touches d2)[i := (touches d2 ! i)\<lparr>t_valuators := v\<rparr>]\<rparr> else d2)
                  in Some ([\<lparr>q_type = et, q_touchid = t_client_id t, q_emulated = t_emulate_pointer t,
                             q_valuators = v\<rparr>], d3)))
      })"

definition QueueTouchEvents :: "u16 \<Rightarrow> u32 \<Rightarrow> valuators \<Rightarrow> touchdev \<Rightarrow> touchdev option" where
  "QueueTouchEvents type k vmask d = do {
     (evs, d1) \<leftarrow> GetTouchEvents k type vmask d;
     Some (d1\<lparr>InputEventQueue := InputEventQueue d1 @ evs\<rparr>)
   }"

section \<open>The touches of the activity\<close>

record touch_event =
  e_type :: u16
  e_id :: u16
  e_x :: u16
  e_y :: u16

definition scaled :: "nat \<Rightarrow> nat \<Rightarrow> coord" where
  "scaled x w = (if w = 0 then NaN else Fin (of_nat (x * 0xFFFF) / of_nat w))"

definition same_place :: "DDXTouchPointInfo \<Rightarrow> nat \<Rightarrow> nat \<Rightarrow> bool" where
  "same_place t x y =
     (case t_valuators t of
        (Some oldx, Some oldy) \<Rightarrow> coord_eq oldx (Fin (of_nat x)) \<and> coord_eq oldy (Fin (of_nat y))
      | _ \<Rightarrow> False)"

definition lorieSetCursorVisible :: "bool \<Rightarrow> touchdev \<Rightarrow> touchdev" where
  "lorieSetCursorVisible visible d = d\<lparr>cursor_visible := visible, cursor_moved := True\<rparr>"

definition handleTouchEvent :: "touch_event \<Rightarrow> touchdev \<Rightarrow> touchdev option" where
  "handleTouchEvent e d =
     (let x = min (unat (e_x e)) (scr_width d);
          y = min (unat (e_y e)) (scr_height d);
          k = ucast (e_id e);
          touch = map_option ((!) (touches d)) (TouchFind k d);
          active = (case touch of None \<Rightarrow> False | Some t \<Rightarrow> t_active t) in
      if active \<and> e_type e = XI_TouchUpdate \<and> same_place (the touch) x y then Some d
      else
        let type = (if e_type e = XI_TouchUpdate \<and> \<not> active then XI_TouchBegin else e_type e) in
        if type = XI_TouchEnd \<and> \<not> active then Some d
        else do {
          d1 \<leftarrow> QueueTouchEvents type k (Some (scaled x (scr_width d)), Some (scaled y (scr_height d))) d;
          Some (lorieSetCursorVisible False d1)
        })"

fun handleTouchEvents :: "touch_event list \<Rightarrow> touchdev \<Rightarrow> touchdev option" where
  "handleTouchEvents [] d = Some d"
| "handleTouchEvents (e # es) d = Option.bind (handleTouchEvent e d) (handleTouchEvents es)"

section \<open>Touch points in use\<close>

definition in_use :: "DDXTouchPointInfo list \<Rightarrow> DDXTouchPointInfo list" where
  "in_use ts = filter t_active ts"

definition points_ok :: "DDXTouchPointInfo list \<Rightarrow> u32 \<Rightarrow> bool" where
  "points_ok ts n \<longleftrightarrow>
     distinct (map t_ddx_id (in_use ts)) \<and> distinct (map t_client_id (in_use ts)) \<and>
     length (filter t_emulate_pointer (in_use ts)) \<le> 1 \<and> (\<forall>t \<in> set (in_use ts). t_client_id t < n)"

text \<open>No finger is down twice, clients see different numbers, at most one touch moves the pointer.\<close>

definition touch_inv :: "touchdev \<Rightarrow> bool" where
  "touch_inv d \<longleftrightarrow> points_ok (touches d) (next_client_id d)"

definition open_ids :: "touchdev \<Rightarrow> u32 set" where
  "open_ids d = t_client_id ` set (in_use (touches d))"

definition fingers :: "touchdev \<Rightarrow> u32 set" where
  "fingers d = t_ddx_id ` set (in_use (touches d))"

text \<open>A queue in which updates and ends belong to touches that have begun and not ended. A begin may be
  repeated: \<open>GetTouchEvents\<close> queues another one when the activity begins a touch that is already down.\<close>

fun wf_touches :: "u32 set \<Rightarrow> queued list \<Rightarrow> bool" where
  "wf_touches S [] = True"
| "wf_touches S (q # qs) =
     (case q_type q of
        ET_TouchBegin \<Rightarrow> wf_touches (insert (q_touchid q) S) qs
      | ET_TouchUpdate \<Rightarrow> q_touchid q \<in> S \<and> wf_touches S qs
      | ET_TouchEnd \<Rightarrow> q_touchid q \<in> S \<and> wf_touches (S - {q_touchid q}) qs)"

fun open_after :: "u32 set \<Rightarrow> queued list \<Rightarrow> u32 set" where
  "open_after S [] = S"
| "open_after S (q # qs) =
     open_after (case q_type q of ET_TouchBegin \<Rightarrow> insert (q_touchid q) S | ET_TouchUpdate \<Rightarrow> S
       | ET_TouchEnd \<Rightarrow> S - {q_touchid q}) qs"

text \<open>Which fingers are down according to the events of the activity alone.\<close>

definition finger_step :: "touch_event \<Rightarrow> u32 set \<Rightarrow> u32 set" where
  "finger_step e F =
     (if e_type e = XI_TouchBegin \<or> e_type e = XI_TouchUpdate then insert (ucast (e_id e)) F
      else if e_type e = XI_TouchEnd then F - {ucast (e_id e)} else F)"

definition device_ready :: "touchdev \<Rightarrow> bool" where
  "device_ready d \<longleftrightarrow> enabled d \<and> has_touch d \<and> has_valuator d \<and> grow_ok d = []"

lemma wf_touches_append:
  "wf_touches S (p @ q) \<longleftrightarrow> wf_touches S p \<and> wf_touches (open_after S p) q"
  by (induction p arbitrary: S) (auto split: event_type.splits)

lemma open_after_append: "open_after S (p @ q) = open_after (open_after S p) q"
  by (induction p arbitrary: S) auto

lemma in_use_simps [simp]:
  "in_use [] = []" "in_use (xs @ ys) = in_use xs @ in_use ys"
  "in_use (t # ts) = (if t_active t then t # in_use ts else in_use ts)"
  by (auto simp: in_use_def)

lemma find_active_Some:
  "find_active i k ts = Some j \<Longrightarrow>
     \<exists>xs t ys. ts = xs @ t # ys \<and> j = i + length xs \<and> t_active t \<and> t_ddx_id t = k"
proof (induction i k ts rule: find_active.induct)
  case (2 i k t ts)
  show ?case
  proof (cases "t_active t \<and> t_ddx_id t = k")
    case True
    then show ?thesis using 2(2) by (intro exI [of _ "[]"]) auto
  next
    case False
    then obtain xs t' ys where "ts = xs @ t' # ys" "j = Suc i + length xs" "t_active t'" "t_ddx_id t' = k"
      using 2 by auto
    then show ?thesis by (intro exI [of _ "t # xs"] exI [of _ t'] exI [of _ ys]) auto
  qed
qed auto

lemma find_active_None: "find_active i k ts = None \<longleftrightarrow> k \<notin> t_ddx_id ` set (in_use ts)"
  by (induction i k ts rule: find_active.induct) auto

lemma scan_touches_found: "scan_touches emu (Some j) i ts = (emu', r) \<Longrightarrow> r = Some j \<and> (emu' \<longrightarrow> emu \<and> in_use ts = [])"
  by (induction ts arbitrary: emu i) (auto simp: Let_def split: if_splits)

lemma scan_touches_free:
  "scan_touches emu None i ts = (emu', Some j) \<Longrightarrow>
     \<exists>xs t ys. ts = xs @ t # ys \<and> j = i + length xs \<and> \<not> t_active t \<and> (emu' \<longrightarrow> emu \<and> in_use ts = [])"
proof (induction ts arbitrary: emu i)
  case (Cons t ts)
  show ?case
  proof (cases "t_active t")
    case True
    then obtain xs t' ys where "ts = xs @ t' # ys" "j = Suc i + length xs" "\<not> t_active t'" "\<not> emu'"
      using Cons.IH [of False "Suc i"] Cons.prems by auto
    then show ?thesis by (intro exI [of _ "t # xs"] exI [of _ t'] exI [of _ ys]) auto
  next
    case False
    then have "j = i \<and> (emu' \<longrightarrow> emu \<and> in_use ts = [])"
      using Cons.prems scan_touches_found [of emu i "Suc i" ts emu' "Some j"] by (auto simp: Let_def split: if_splits)
    then show ?thesis using False by (intro exI [of _ "[]"] exI [of _ t] exI [of _ ts]) auto
  qed
qed auto

lemma scan_touches_full: "scan_touches emu None i ts = (emu', None) \<Longrightarrow> (\<forall>t \<in> set ts. t_active t) \<and> (emu' \<longrightarrow> emu \<and> ts = [])"
proof (induction ts arbitrary: emu i)
  case (Cons t ts)
  show ?case
  proof (cases "t_active t")
    case True
    then show ?thesis using Cons.IH [of False "Suc i"] Cons.prems by auto
  next
    case False
    then show ?thesis using Cons.prems scan_touches_found [of emu i "Suc i" ts emu' None] by (auto simp: Let_def split: if_splits)
  qed
qed auto

section \<open>Beginning a touch\<close>

text \<open>What an operation on the points leaves alone.\<close>

definition same_device :: "touchdev \<Rightarrow> touchdev \<Rightarrow> bool" where
  "same_device d d' \<longleftrightarrow>
     enabled d' = enabled d \<and> has_touch d' = has_touch d \<and> has_valuator d' = has_valuator d \<and>
     directTouch d' = directTouch d \<and> (grow_ok d = [] \<longrightarrow> grow_ok d' = [])"

lemma same_device_refl [simp]: "same_device d d"
  by (simp add: same_device_def)

lemma same_device_trans: "same_device d e \<Longrightarrow> same_device e f \<Longrightarrow> same_device d f"
  by (simp add: same_device_def)

lemma device_ready_same: "same_device d d' \<Longrightarrow> device_ready d \<Longrightarrow> device_ready d'"
  by (simp add: same_device_def device_ready_def)

lemma TouchResizeQueue_cases:
  obtains (grown) zs oks where "TouchResizeQueue d = (True, d\<lparr>touches := touches d @ zs, grow_ok := oks\<rparr>)"
      "zs \<noteq> []" "\<forall>t \<in> set zs. \<not> t_active t" "grow_ok d = [] \<longrightarrow> oks = []"
    | (failed) oks where "TouchResizeQueue d = (False, d\<lparr>grow_ok := oks\<rparr>)" "grow_ok d \<noteq> []"
proof (cases "grow_ok d")
  case Nil
  then show ?thesis
    by (intro grown [where zs = "replicate (length (touches d) div 2 + 1) TouchInitDDXTouchPoint" and oks = "[]"])
      (auto simp: TouchResizeQueue_def Let_def TouchInitDDXTouchPoint_def)
next
  case (Cons ok oks)
  show ?thesis
  proof (cases ok)
    case True
    then show ?thesis using Cons
      by (intro grown [where zs = "replicate (length (touches d) div 2 + 1) TouchInitDDXTouchPoint" and oks = oks])
        (auto simp: TouchResizeQueue_def Let_def TouchInitDDXTouchPoint_def)
  next
    case False
    then show ?thesis using Cons by (intro failed [of oks]) (auto simp: TouchResizeQueue_def Let_def)
  qed
qed

lemma in_use_idle: "\<forall>t \<in> set zs. \<not> t_active t \<Longrightarrow> in_use zs = []"
  by (simp add: in_use_def)

text \<open>The loop ends after at most one enlargement.\<close>

lemma begin_loop_ends:
  "\<exists>emu' r zs oks. begin_loop emu d = Some (emu', r, d\<lparr>touches := touches d @ zs, grow_ok := oks\<rparr>) \<and>
     in_use zs = [] \<and> (grow_ok d = [] \<longrightarrow> oks = [] \<and> r \<noteq> None) \<and>
     (\<forall>j. r = Some j \<longrightarrow> (\<exists>xs t ys. touches d @ zs = xs @ t # ys \<and> j = length xs \<and> \<not> t_active t \<and>
       (emu' \<longrightarrow> emu \<and> in_use (touches d) = [])))"
proof (cases "scan_touches emu None 0 (touches d)")
  case (Pair emu1 r1)
  show ?thesis
  proof (cases r1)
    case (Some j)
    have "begin_loop emu d = Some (emu1, Some j, d\<lparr>touches := touches d @ [], grow_ok := grow_ok d\<rparr>)"
      using Pair Some by (subst begin_loop.simps) simp
    moreover have "\<exists>xs t ys. touches d @ [] = xs @ t # ys \<and> j = length xs \<and> \<not> t_active t \<and>
        (emu1 \<longrightarrow> emu \<and> in_use (touches d) = [])"
      using scan_touches_free [of emu 0 "touches d" emu1 j] Pair Some by simp
    ultimately show ?thesis
      by (intro exI [of _ emu1] exI [of _ "Some j"] exI [of _ "[]"] exI [of _ "grow_ok d"]) simp
  next
    case None
    note full = scan_touches_full [OF Pair [unfolded None]]
    show ?thesis
    proof (cases d rule: TouchResizeQueue_cases)
      case (failed oks)
      then have "begin_loop emu d = Some (emu1, None, d\<lparr>touches := touches d @ [], grow_ok := oks\<rparr>)"
        using Pair None by (subst begin_loop.simps) simp
      then show ?thesis using failed(2) by (intro exI [of _ emu1] exI [of _ None] exI [of _ "[]"] exI [of _ oks]) simp
    next
      case (grown zs oks)
      let ?d = "d\<lparr>touches := touches d @ zs, grow_ok := oks\<rparr>"
      obtain emu2 r2 where s: "scan_touches emu1 None 0 (touches d @ zs) = (emu2, r2)" by fastforce
      obtain j where r2: "r2 = Some j"
        using scan_touches_full [of emu1 0 "touches d @ zs" emu2] s grown(2,3)
        by (cases r2; cases zs) auto
      have "begin_loop emu d = begin_loop emu1 ?d"
        using Pair None grown(1) by (subst begin_loop.simps) simp
      also have "\<dots> = Some (emu2, Some j, ?d)"
        using s r2 by (subst begin_loop.simps) simp
      finally have run: "begin_loop emu d = Some (emu2, Some j, ?d)" .
      moreover have "\<exists>xs t ys. touches d @ zs = xs @ t # ys \<and> j = length xs \<and> \<not> t_active t \<and>
          (emu2 \<longrightarrow> emu \<and> in_use (touches d) = [])"
        using scan_touches_free [OF s [unfolded r2]] full by auto
      ultimately show ?thesis using in_use_idle [OF grown(3)] grown(4)
        by (intro exI [of _ emu2] exI [of _ "Some j"] exI [of _ zs] exI [of _ oks]) simp
    qed
  qed
qed

lemma TouchBeginDDXTouch_point:
  assumes "has_touch d" "k \<notin> fingers d"
  shows "\<exists>r d'. TouchBeginDDXTouch k d = Some (r, d') \<and> same_device d d' \<and> InputEventQueue d' = InputEventQueue d \<and>
    (case r of
       None \<Rightarrow> in_use (touches d') = in_use (touches d) \<and> next_client_id d' = next_client_id d \<and> grow_ok d \<noteq> []
     | Some i \<Rightarrow> next_client_id d' = next_id (next_client_id d) \<and>
         (\<exists>xs t ys. touches d' = xs @ t # ys \<and> i = length xs \<and> in_use (touches d) = in_use xs @ in_use ys \<and>
            t_active t \<and> t_ddx_id t = k \<and> t_client_id t = next_client_id d \<and>
            (t_emulate_pointer t \<longrightarrow> in_use (touches d) = [])))"
proof -
  obtain emu' r zs oks where
    run: "begin_loop (touchEmulatePointer d \<and> directTouch d) d = Some (emu', r, d\<lparr>touches := touches d @ zs, grow_ok := oks\<rparr>)"
    and zs: "in_use zs = []" and oks: "grow_ok d = [] \<longrightarrow> oks = [] \<and> r \<noteq> None"
    and pt: "\<forall>j. r = Some j \<longrightarrow> (\<exists>xs t ys. touches d @ zs = xs @ t # ys \<and> j = length xs \<and> \<not> t_active t \<and>
       (emu' \<longrightarrow> (touchEmulatePointer d \<and> directTouch d) \<and> in_use (touches d) = []))"
    using begin_loop_ends [of "touchEmulatePointer d \<and> directTouch d" d] by (elim exE conjE) (rule that)
  have new: "TouchFind k d = None"
    using assms find_active_None [of 0 k "touches d"] by (simp add: TouchFind_def fingers_def)
  show ?thesis
  proof (cases r)
    case None
    then have "TouchBeginDDXTouch k d = Some (None, d\<lparr>touches := touches d @ zs, grow_ok := oks\<rparr>)"
      using run new assms by (simp add: TouchBeginDDXTouch_def)
    then show ?thesis using None zs oks
      by (intro exI [of _ None] exI [of _ "d\<lparr>touches := touches d @ zs, grow_ok := oks\<rparr>"]) (simp add: same_device_def)
  next
    case (Some j)
    then obtain xs t ys where p: "touches d @ zs = xs @ t # ys" "j = length xs" "\<not> t_active t"
      "emu' \<longrightarrow> in_use (touches d) = []" using pt by blast
    have "in_use (touches d) = in_use (touches d @ zs)" using zs by simp
    also have "\<dots> = in_use xs @ in_use ys" using p(1,3) by simp
    finally have u: "in_use (touches d) = in_use xs @ in_use ys" .
    let ?t = "t\<lparr>t_active := True, t_ddx_id := k, t_client_id := next_client_id d, t_emulate_pointer := emu'\<rparr>"
    let ?d = "d\<lparr>touches := xs @ ?t # ys, grow_ok := oks, next_client_id := next_id (next_client_id d)\<rparr>"
    have "TouchBeginDDXTouch k d = Some (Some j, ?d)"
      using run new assms Some p(1,2) by (simp add: TouchBeginDDXTouch_def)
    moreover have "same_device d ?d" using oks by (simp add: same_device_def)
    moreover have "\<exists>xs' t' ys'. touches ?d = xs' @ t' # ys' \<and> j = length xs' \<and>
        in_use (touches d) = in_use xs' @ in_use ys' \<and> t_active t' \<and> t_ddx_id t' = k \<and>
        t_client_id t' = next_client_id d \<and> (t_emulate_pointer t' \<longrightarrow> in_use (touches d) = [])"
      by (rule exI [of _ xs], rule exI [of _ ?t], rule exI [of _ ys]) (use p(2,4) u in simp)
    ultimately show ?thesis by (intro exI [of _ "Some j"] exI [of _ ?d]) simp
  qed
qed

section \<open>Every event keeps the points in order\<close>

definition tail_events :: "nat \<Rightarrow> event_type \<Rightarrow> valuators \<Rightarrow> touchdev \<Rightarrow> queued list \<times> touchdev" where
  "tail_events i et vmask d1 =
     (let t = touches d1 ! i;
          d2 = (if et = ET_TouchEnd then TouchEndDDXTouch i d1 else d1);
          v = (if directTouch d2 then post_valuators vmask (t_valuators t) else vmask);
          d3 = (if directTouch d2 then d2\<lparr>touches := (touches d2)[i := (touches d2 ! i)\<lparr>t_valuators := v\<rparr>]\<rparr> else d2)
      in ([\<lparr>q_type = et, q_touchid = t_client_id t, q_emulated = t_emulate_pointer t, q_valuators = v\<rparr>], d3))"

lemma tail_events_point:
  assumes "touches d = xs @ t # ys" "has_touch d" "t_active t"
  shows "\<exists>v t' d'. tail_events (length xs) et vm d =
      ([\<lparr>q_type = et, q_touchid = t_client_id t, q_emulated = t_emulate_pointer t, q_valuators = v\<rparr>], d') \<and>
    touches d' = xs @ t' # ys \<and> t_ddx_id t' = t_ddx_id t \<and> t_client_id t' = t_client_id t \<and>
    t_emulate_pointer t' = t_emulate_pointer t \<and> t_active t' = (et \<noteq> ET_TouchEnd) \<and>
    same_device d d' \<and> InputEventQueue d' = InputEventQueue d \<and> next_client_id d' = next_client_id d"
  using assms by (simp add: tail_events_def Let_def TouchEndDDXTouch_def same_device_def)

lemma GetTouchEvents_tail:
  "GetTouchEvents k type vm d =
     (if \<not> enabled d \<or> \<not> has_touch d \<or> \<not> has_valuator d then Some ([], d)
      else do {
        (ti, d1) \<leftarrow> TouchFindByDDXID k (type = XI_TouchBegin) d;
        (case ti of
           None \<Rightarrow> Some ([], d1)
         | Some i \<Rightarrow> (case event_type_of type vm of None \<Rightarrow> Some ([], d1) | Some et \<Rightarrow> Some (tail_events i et vm d1)))
      })"
  unfolding GetTouchEvents_def tail_events_def Let_def by (rule refl)

lemma points_ok_begin:
  assumes "points_ok us n" "in_use us = in_use xs @ in_use ys" "t_ddx_id t \<notin> t_ddx_id ` set (in_use us)"
    "t_client_id t = n" "t_active t" "t_emulate_pointer t \<longrightarrow> in_use us = []" "n < n'"
  shows "points_ok (xs @ t # ys) n'"
  using assms unfolding points_ok_def by (auto dest: order.strict_trans)

lemma points_ok_update:
  assumes "points_ok (xs @ t # ys) n" "t_active t" "t_ddx_id t' = t_ddx_id t" "t_client_id t' = t_client_id t"
    "t_emulate_pointer t' = t_emulate_pointer t"
  shows "points_ok (xs @ t' # ys) n"
  using assms unfolding points_ok_def by (auto split: if_splits)

text \<open>What queueing one touch event comes to.\<close>

definition queue_step :: "touchdev \<Rightarrow> touchdev \<Rightarrow> u32 set \<Rightarrow> bool" where
  "queue_step d d' F \<longleftrightarrow>
     touch_inv d' \<and> same_device d d' \<and>
     (next_client_id d' = next_client_id d \<or> next_client_id d' = next_client_id d + 1) \<and>
     (device_ready d \<longrightarrow> fingers d' = F) \<and>
     (\<exists>q. InputEventQueue d' = InputEventQueue d @ q \<and> wf_touches (open_ids d) q \<and>
        open_after (open_ids d) q = open_ids d')"

lemma queue_step_refl: "touch_inv d \<Longrightarrow> queue_step d d (fingers d)"
  unfolding queue_step_def by (simp add: exI [of _ "[]"])

lemma word_succ:
  fixes n :: u32
  assumes "n \<noteq> - 1"
  shows "n + 1 \<noteq> 0" "unat (n + 1) = Suc (unat n)" "n < n + 1"
proof -
  show z: "n + 1 \<noteq> 0" using assms by (metis add_eq_0_iff2)
  then show "unat (n + 1) = Suc (unat n)" using unatSuc [of n] by (simp add: add.commute)
  then show "n < n + 1" by (simp add: word_less_nat_alt)
qed

lemma queue_known:
  assumes inv: "touch_inv d" and h: "has_touch d" and ts: "touches d = xs @ t # ys" "t_active t"
    and tail: "tail_events (length xs) et vm d = (q, d')"
  shows "queue_step d (d'\<lparr>InputEventQueue := InputEventQueue d' @ q\<rparr>)
    (if et = ET_TouchEnd then fingers d - {t_ddx_id t} else fingers d)"
proof -
  obtain v t' where q: "q = [\<lparr>q_type = et, q_touchid = t_client_id t, q_emulated = t_emulate_pointer t, q_valuators = v\<rparr>]"
    and t': "touches d' = xs @ t' # ys" "t_ddx_id t' = t_ddx_id t" "t_client_id t' = t_client_id t"
      "t_emulate_pointer t' = t_emulate_pointer t" "t_active t' = (et \<noteq> ET_TouchEnd)"
    and d': "same_device d d'" "InputEventQueue d' = InputEventQueue d" "next_client_id d' = next_client_id d"
    using tail_events_point [OF ts(1) h ts(2), of et vm] tail by auto
  have "points_ok (xs @ t' # ys) (next_client_id d)"
    using points_ok_update [OF _ ts(2) t'(2-4)] inv ts(1) by (simp add: touch_inv_def)
  moreover have "t_client_id t \<notin> t_client_id ` set (in_use (xs @ ys))" "t_ddx_id t \<notin> t_ddx_id ` set (in_use (xs @ ys))"
    using inv ts by (auto simp: touch_inv_def points_ok_def)
  ultimately show ?thesis using q t' d' ts
    by (cases et) (auto simp: queue_step_def touch_inv_def same_device_def open_ids_def fingers_def)
qed

lemma queue_new:
  assumes inv: "touch_inv d" and h: "has_touch d" and k: "k \<notin> fingers d" and n: "next_client_id d \<noteq> - 1"
  shows "\<exists>r d1. TouchBeginDDXTouch k d = Some (r, d1) \<and>
    (case r of
       None \<Rightarrow> queue_step d d1 (insert k (fingers d))
     | Some i \<Rightarrow> \<forall>q d'. tail_events i ET_TouchBegin vm d1 = (q, d') \<longrightarrow>
         queue_step d (d'\<lparr>InputEventQueue := InputEventQueue d' @ q\<rparr>) (insert k (fingers d)))"
proof -
  obtain r d1 where b: "TouchBeginDDXTouch k d = Some (r, d1)" "same_device d d1" "InputEventQueue d1 = InputEventQueue d"
    and c: "case r of
       None \<Rightarrow> in_use (touches d1) = in_use (touches d) \<and> next_client_id d1 = next_client_id d \<and> grow_ok d \<noteq> []
     | Some i \<Rightarrow> next_client_id d1 = next_id (next_client_id d) \<and>
         (\<exists>xs t ys. touches d1 = xs @ t # ys \<and> i = length xs \<and> in_use (touches d) = in_use xs @ in_use ys \<and>
            t_active t \<and> t_ddx_id t = k \<and> t_client_id t = next_client_id d \<and>
            (t_emulate_pointer t \<longrightarrow> in_use (touches d) = []))"
    using TouchBeginDDXTouch_point [OF h k] by (elim exE conjE) (rule that)
  show ?thesis
  proof (cases r)
    case None
    then have "queue_step d d1 (insert k (fingers d))" using b c inv
      by (auto simp: queue_step_def touch_inv_def points_ok_def device_ready_def open_ids_def intro!: exI [of _ "[]"])
    then show ?thesis using b None by simp
  next
    case (Some i)
    with c obtain xs t ys where p: "next_client_id d1 = next_id (next_client_id d)" "touches d1 = xs @ t # ys" "i = length xs"
      "in_use (touches d) = in_use xs @ in_use ys" "t_active t" "t_ddx_id t = k" "t_client_id t = next_client_id d"
      "t_emulate_pointer t \<longrightarrow> in_use (touches d) = []" by auto
    have nn: "next_id (next_client_id d) = next_client_id d + 1" "next_client_id d < next_client_id d + 1"
      using word_succ [OF n] by (auto simp: next_id_def)
    have ok: "points_ok (xs @ t # ys) (next_client_id d + 1)"
      by (rule points_ok_begin [OF inv [unfolded touch_inv_def] p(4) _ p(7,5,8) nn(2)]) (use k p(6) in \<open>simp add: fingers_def\<close>)
    have "queue_step d (d'\<lparr>InputEventQueue := InputEventQueue d' @ q\<rparr>) (insert k (fingers d))"
      if tail: "tail_events i ET_TouchBegin vm d1 = (q, d')" for q d'
    proof -
      obtain v t' where q: "q = [\<lparr>q_type = ET_TouchBegin, q_touchid = t_client_id t,
          q_emulated = t_emulate_pointer t, q_valuators = v\<rparr>]"
        and t': "touches d' = xs @ t' # ys" "t_ddx_id t' = t_ddx_id t" "t_client_id t' = t_client_id t"
          "t_emulate_pointer t' = t_emulate_pointer t" "t_active t'"
        and d': "same_device d1 d'" "InputEventQueue d' = InputEventQueue d1" "next_client_id d' = next_client_id d1"
        using tail_events_point [OF p(2) _ p(5), of ET_TouchBegin vm] tail h b(2) p(3) by (auto simp: same_device_def)
      show ?thesis using points_ok_update [OF ok p(5) t'(2-4)] q t' d' b p nn
        by (auto simp: queue_step_def touch_inv_def same_device_def open_ids_def fingers_def)
    qed
    then show ?thesis using b Some by simp
  qed
qed

lemma TouchFind_Some:
  assumes "TouchFind k d = Some i"
  shows "has_touch d \<and> (\<exists>xs t ys. touches d = xs @ t # ys \<and> i = length xs \<and> t_active t \<and> t_ddx_id t = k)"
  using assms find_active_Some [of 0 k "touches d" i] by (auto simp: TouchFind_def split: if_splits)

lemma TouchFind_None: "has_touch d \<Longrightarrow> TouchFind k d = None \<longleftrightarrow> k \<notin> fingers d"
  by (simp add: TouchFind_def find_active_None fingers_def)

lemma XI_types [simp]:
  "XI_TouchBegin \<noteq> XI_TouchUpdate" "XI_TouchUpdate \<noteq> XI_TouchBegin" "XI_TouchBegin \<noteq> XI_TouchEnd"
  "XI_TouchEnd \<noteq> XI_TouchBegin" "XI_TouchUpdate \<noteq> XI_TouchEnd" "XI_TouchEnd \<noteq> XI_TouchUpdate"
  by (simp_all add: XI_TouchBegin_def XI_TouchUpdate_def XI_TouchEnd_def)

lemma QueueTouchEvents_step:
  assumes inv: "touch_inv d" and n: "next_client_id d \<noteq> - 1"
  shows "\<exists>d'. QueueTouchEvents type k (Some a, Some b) d = Some d' \<and>
    queue_step d d' (if type = XI_TouchBegin then insert k (fingers d)
                     else if type = XI_TouchEnd then fingers d - {k} else fingers d)"
    (is "\<exists>d'. _ \<and> queue_step d d' ?F")
proof (cases "enabled d \<and> has_touch d \<and> has_valuator d")
  case False
  then have "QueueTouchEvents type k (Some a, Some b) d = Some d" "\<not> device_ready d"
    by (auto simp: QueueTouchEvents_def GetTouchEvents_def device_ready_def)
  then show ?thesis using queue_step_refl [OF inv] by (simp add: queue_step_def)
next
  case True
  note run = QueueTouchEvents_def GetTouchEvents_tail TouchFindByDDXID_def
  show ?thesis
  proof (cases "TouchFind k d")
    case (Some i)
    obtain xs t ys where p: "touches d = xs @ t # ys" "i = length xs" "t_active t" "t_ddx_id t = k"
      using TouchFind_Some [OF Some] by blast
    have kF: "k \<in> fingers d" using p by (auto simp: fingers_def)
    show ?thesis
    proof (cases "event_type_of type (Some a, Some b)")
      case None
      then have "?F = fingers d" by (auto simp: event_type_of_def split: if_splits)
      then show ?thesis using True Some None queue_step_refl [OF inv] by (simp add: run)
    next
      case (Some et)
      obtain q d' where tail: "tail_events i et (Some a, Some b) d = (q, d')" by fastforce
      have "?F = (if et = ET_TouchEnd then fingers d - {t_ddx_id t} else fingers d)"
        using Some kF p(4) by (auto simp: event_type_of_def insert_absorb split: if_splits)
      then show ?thesis
        using queue_known [OF inv _ p(1,3) tail [unfolded p(2)]] True Some \<open>TouchFind k d = Some i\<close> tail
        by (simp add: run)
    qed
  next
    case None
    show ?thesis
    proof (cases "type = XI_TouchBegin")
      case False
      then show ?thesis using True None TouchFind_None [of d k] queue_step_refl [OF inv] by (simp add: run)
    next
      case fresh: True
      have k: "k \<notin> fingers d" using None TouchFind_None [of d k] True by simp
      obtain r d1 where b: "TouchBeginDDXTouch k d = Some (r, d1)"
        and c: "case r of
           None \<Rightarrow> queue_step d d1 (insert k (fingers d))
         | Some i \<Rightarrow> \<forall>q d'. tail_events i ET_TouchBegin (Some a, Some b) d1 = (q, d') \<longrightarrow>
             queue_step d (d'\<lparr>InputEventQueue := InputEventQueue d' @ q\<rparr>) (insert k (fingers d))"
        using queue_new [OF inv _ k n, of "(Some a, Some b)"] True by (elim exE conjE) auto
      show ?thesis
      proof (cases r)
        case None
        then show ?thesis using True \<open>TouchFind k d = None\<close> fresh b c by (simp add: run)
      next
        case (Some i)
        obtain q d' where "tail_events i ET_TouchBegin (Some a, Some b) d1 = (q, d')" by fastforce
        then show ?thesis using True None fresh b c Some by (simp add: run event_type_of_def)
      qed
    qed
  qed
qed

lemma handleTouchEvent_step:
  assumes inv: "touch_inv d" and n: "next_client_id d \<noteq> - 1"
  shows "\<exists>d'. handleTouchEvent e d = Some d' \<and> queue_step d d' (finger_step e (fingers d))"
proof -
  let ?k = "ucast (e_id e) :: u32"
  define x y where "x = min (unat (e_x e)) (scr_width d)" and "y = min (unat (e_y e)) (scr_height d)"
  define active where "active = (TouchFind ?k d \<noteq> None)"
  have act: "(case map_option ((!) (touches d)) (TouchFind ?k d) of None \<Rightarrow> False | Some t \<Rightarrow> t_active t) = active"
    using TouchFind_Some [of ?k d] by (auto simp: active_def split: option.splits)
  have fin: "active = (?k \<in> fingers d)" if "device_ready d"
    using TouchFind_None [of d ?k] that by (simp add: active_def device_ready_def)
  define same where "same = same_place (the (map_option ((!) (touches d)) (TouchFind ?k d))) x y"
  define type where "type = (if e_type e = XI_TouchUpdate \<and> \<not> active then XI_TouchBegin else e_type e)"
  have run: "handleTouchEvent e d =
      (if active \<and> e_type e = XI_TouchUpdate \<and> same \<or> type = XI_TouchEnd \<and> \<not> active then Some d
       else Option.bind (QueueTouchEvents type ?k (Some (scaled x (scr_width d)), Some (scaled y (scr_height d))) d)
              (\<lambda>d1. Some (lorieSetCursorVisible False d1)))"
    unfolding handleTouchEvent_def Let_def act x_def [symmetric] y_def [symmetric] same_def [symmetric] type_def [symmetric]
    by simp
  show ?thesis
  proof (cases "active \<and> e_type e = XI_TouchUpdate \<and> same \<or> type = XI_TouchEnd \<and> \<not> active")
    case True
    then have "device_ready d \<longrightarrow> finger_step e (fingers d) = fingers d"
      using fin by (auto simp: finger_step_def type_def split: if_splits)
    then show ?thesis using True run queue_step_refl [OF inv] by (auto simp: queue_step_def)
  next
    case False
    obtain d1 where q: "QueueTouchEvents type ?k (Some (scaled x (scr_width d)), Some (scaled y (scr_height d))) d = Some d1"
      "queue_step d d1 (if type = XI_TouchBegin then insert ?k (fingers d)
                     else if type = XI_TouchEnd then fingers d - {?k} else fingers d)"
      using QueueTouchEvents_step [OF inv n] by blast
    have "device_ready d \<longrightarrow> (if type = XI_TouchBegin then insert ?k (fingers d)
        else if type = XI_TouchEnd then fingers d - {?k} else fingers d) = finger_step e (fingers d)"
      using fin by (auto simp: finger_step_def type_def)
    then have "queue_step d (lorieSetCursorVisible False d1) (finger_step e (fingers d))"
      using q(2) by (auto simp: queue_step_def lorieSetCursorVisible_def touch_inv_def same_device_def fingers_def open_ids_def)
    then show ?thesis using False run q(1) by auto
  qed
qed

lemma handleTouchEvents_steps:
  assumes "touch_inv d" "unat (next_client_id d) + length es < 2 ^ 31"
  shows "\<exists>d' q. handleTouchEvents es d = Some d' \<and> touch_inv d' \<and> same_device d d' \<and>
    InputEventQueue d' = InputEventQueue d @ q \<and> wf_touches (open_ids d) q \<and> open_after (open_ids d) q = open_ids d' \<and>
    (device_ready d \<longrightarrow> fingers d' = fold finger_step es (fingers d))"
  using assms
proof (induction es arbitrary: d)
  case Nil
  then show ?case by (simp add: exI [of _ "[]"])
next
  case (Cons e es)
  have n: "next_client_id d \<noteq> - 1" using Cons.prems(2) by (auto simp: unsigned_minus_1_eq_mask mask_eq_exp_minus_1)
  obtain d1 where d1: "handleTouchEvent e d = Some d1" "queue_step d d1 (finger_step e (fingers d))"
    using handleTouchEvent_step [OF Cons.prems(1) n] by blast
  then obtain p where p: "InputEventQueue d1 = InputEventQueue d @ p" "wf_touches (open_ids d) p"
      "open_after (open_ids d) p = open_ids d1"
    and o: "touch_inv d1" "same_device d d1" "device_ready d \<longrightarrow> fingers d1 = finger_step e (fingers d)"
    and nx: "next_client_id d1 = next_client_id d \<or> next_client_id d1 = next_client_id d + 1"
    by (auto simp: queue_step_def)
  have "unat (next_client_id d1) + length es < 2 ^ 31"
    using Cons.prems(2) nx word_succ(2) [OF n] by auto
  then obtain d' q where "handleTouchEvents es d1 = Some d'" "touch_inv d'" "same_device d1 d'"
    "InputEventQueue d' = InputEventQueue d1 @ q" "wf_touches (open_ids d1) q" "open_after (open_ids d1) q = open_ids d'"
    "device_ready d1 \<longrightarrow> fingers d' = fold finger_step es (fingers d1)"
    using Cons.IH [OF o(1)] by blast
  then show ?case using d1(1) p o device_ready_same [OF o(2)]
    by (intro exI [of _ d'] exI [of _ "p @ q"])
      (auto simp: wf_touches_append open_after_append intro: same_device_trans)
qed

text \<open>A position posted on a screen is recognised as its own repetition only at the edge or on a screen as
  large as the axes of the device: the posted value is scaled, the one compared with it is not.\<close>

lemma same_place_posted:
  assumes "0 < w" "0 < h" "t_valuators t = (Some (scaled x w), Some (scaled y h))"
  shows "same_place t x y \<longleftrightarrow> (x = 0 \<or> w = 0xFFFF) \<and> (y = 0 \<or> h = 0xFFFF)"
proof -
  have "coord_eq (scaled z v) (Fin (of_nat z)) \<longleftrightarrow> z = 0 \<or> v = 0xFFFF" if "0 < v" for z v
  proof -
    have "coord_eq (scaled z v) (Fin (of_nat z)) \<longleftrightarrow> (of_nat (z * 0xFFFF) :: rat) = of_nat (z * v)"
      using that by (simp add: scaled_def divide_eq_eq)
    also have "\<dots> \<longleftrightarrow> z * 0xFFFF = z * v" by (simp only: of_nat_eq_iff)
    finally show ?thesis by auto
  qed
  then show ?thesis using assms by (simp add: same_place_def)
qed

text \<open>A touch screen as \<open>lorieTouchProc\<close> sets it up, and a finger that moves before it is put down, while
  another is lifted that never was down.\<close>

definition touch0 :: touchdev where
  "touch0 = \<lparr>has_touch = True, has_valuator = True, enabled = True, directTouch = True, touches = init_touches 20,
     next_client_id = 1, touchEmulatePointer = True, grow_ok = [], InputEventQueue = [], cursor_visible = True,
     cursor_moved = False, scr_width = 1280, scr_height = 720\<rparr>"

definition moves0 :: "touch_event list" where
  "moves0 = [\<lparr>e_type = 19, e_id = 3, e_x = 10, e_y = 20\<rparr>, \<lparr>e_type = 20, e_id = 4, e_x = 0, e_y = 0\<rparr>,
     \<lparr>e_type = 18, e_id = 7, e_x = 5, e_y = 5\<rparr>, \<lparr>e_type = 20, e_id = 3, e_x = 11, e_y = 21\<rparr>]"

lemma touch0_facts:
  "touch_inv touch0" "device_ready touch0" "open_ids touch0 = {}" "fingers touch0 = {}" "InputEventQueue touch0 = []"
  "unat (next_client_id touch0) + length moves0 < 2 ^ 31"
  by (simp_all add: touch_inv_def touch0_def points_ok_def init_touches_def in_use_def TouchInitDDXTouchPoint_def
      device_ready_def open_ids_def fingers_def moves0_def)

text \<open>C37: Whatever touch events the activity sends, and whatever allocations fail, the server never gets
  stuck, no two touches in use share a finger or a number shown to clients, at most one of them moves
  the pointer, and every update and end that is queued belongs to a touch that has begun and not ended.\<close>

theorem handleTouchEvents_wellformed:
  assumes "touch_inv d" and "unat (next_client_id d) + length es < 2 ^ 31"
  shows "\<exists>d' q. handleTouchEvents es d = Some d' \<and> touch_inv d' \<and> InputEventQueue d' = InputEventQueue d @ q \<and>
    wf_touches (open_ids d) q \<and> open_after (open_ids d) q = open_ids d'"
  using handleTouchEvents_steps [OF assms] by blast

theorem handleTouchEvents_wellformed_witness:
  "\<exists>d'. handleTouchEvents moves0 touch0 = Some d' \<and> touch_inv d' \<and> wf_touches {} (InputEventQueue d') \<and>
     open_after {} (InputEventQueue d') = open_ids d'"
  using handleTouchEvents_wellformed [OF touch0_facts(1,6)] touch0_facts(3,5) by auto

text \<open>On a working touch screen the fingers the server holds to be down are always those the activity
  has put down or moved and not lifted since, in spite of lost begins and ends.\<close>

lemma handleTouchEvents_fingers:
  assumes "touch_inv d" and "unat (next_client_id d) + length es < 2 ^ 31" and "device_ready d"
  shows "map_option fingers (handleTouchEvents es d) = Some (fold finger_step es (fingers d))"
  using handleTouchEvents_steps [OF assms(1,2)] assms(3) by auto

end
