(* ===== verification/Events.thy ===== *)
theory Events
  imports Touch
begin

text \<open>
  The socket between the activity and the server: the events of \<open>lorie/lorie.h\<close> with their layout in
  memory, the calls by which the activity sends them (\<open>lorie/activity.cpp\<close>), and the loops that read them
  in the server (\<open>handleLorieEvents\<close> of \<open>lorie/cmdentrypoint.cpp\<close>) and in the activity (\<open>xcallback\<close>). The layout is
  that of a little-endian machine with 64-bit pointers, where an event takes 24 bytes. A stream is the list of the bytes
  that have arrived; a read takes what is there, up to the number asked for, and the reader is called
  again while bytes are left. Reads that come between two writes of one message are not modelled: all
  bytes of the stream are there when reading begins. What a reader does with an event is recorded as the list of functions
  it calls or queues. Coordinates that are floating point numbers stay bit patterns, and what is
  computed from them stays an expression. Allocations of the readers, adding devices and passing a descriptor
  along with a byte are taken to succeed, and the socket the server reads from is the one the activity is connected to.
\<close>

unbundle bit_operations_syntax

section \<open>Words in memory\<close>

fun le_bytes :: "nat \<Rightarrow> 'a::len word \<Rightarrow> byte list" where
  "le_bytes 0 w = []"
| "le_bytes (Suc n) w = ucast w # le_bytes n (drop_bit 8 w)"

fun le_word :: "byte list \<Rightarrow> 'a::len word" where
  "le_word [] = 0"
| "le_word (b # bs) = ucast b OR push_bit 8 (le_word bs)"

definition field :: "nat \<Rightarrow> nat \<Rightarrow> byte list \<Rightarrow> 'a::len word" where
  "field off n bs = le_word (take n (drop off bs))"

lemma length_le_bytes [simp]: "length (le_bytes n w) = n"
  by (induction n arbitrary: w) auto

lemma le_word_bytes: "le_word (le_bytes n w) = take_bit (8 * n) (w :: 'a::len word)"
proof (induction n arbitrary: w)
  case (Suc n)
  show ?case
    unfolding le_bytes.simps le_word.simps Suc
    by (rule bit_word_eqI) (auto simp: bit_simps)
qed simp

lemma le_word_whole [simp]:
  "le_word (le_bytes 1 b) = (b :: byte)" "le_word (le_bytes 2 h) = (h :: u16)" "le_word (le_bytes 4 w) = (w :: u32)"
  "le_word (le_bytes 8 d) = (d :: u64)"
  by (simp_all only: le_word_bytes) (simp_all add: take_bit_word_eq_self)

section \<open>Events\<close>

record stylus_event =
  s_x :: u32
  s_y :: u32
  pressure :: u16
  tilt_x :: byte
  tilt_y :: byte
  orientation :: u16
  s_buttons :: byte
  s_eraser :: byte
  s_mouse :: byte

datatype lorieEvent =
    EVENT_SHARED_SERVER_STATE
  | EVENT_ADD_BUFFER
  | EVENT_REMOVE_BUFFER u64
  | EVENT_SCREEN_SIZE u16 u16 u16 u64
  | EVENT_TOUCH touch_event
  | EVENT_MOUSE u32 u32 byte byte byte
  | EVENT_KEY u16 byte
  | EVENT_STYLUS stylus_event
  | EVENT_STYLUS_ENABLE byte
  | EVENT_UNICODE u32
  | EVENT_CLIPBOARD_ENABLE byte
  | EVENT_CLIPBOARD_ANNOUNCE
  | EVENT_CLIPBOARD_REQUEST
  | EVENT_CLIPBOARD_SEND u32
  | EVENT_WINDOW_FOCUS_CHANGED
  | EVENT_RENDERER_WAKEUP_COND
  | EVENT_GPU_COPY_DONE
  | EVENT_LOCK_KEYS_STATE byte
  | EVENT_UNKNOWN byte

definition sizeof_lorieEvent :: nat where
  "sizeof_lorieEvent = 24"

text \<open>The fields at their offsets, with zeros in between and behind.\<close>

fun event_fields :: "lorieEvent \<Rightarrow> byte list" where
  "event_fields EVENT_SHARED_SERVER_STATE = [1]"
| "event_fields EVENT_ADD_BUFFER = [2]"
| "event_fields (EVENT_REMOVE_BUFFER i) = [3, 0, 0, 0, 0, 0, 0, 0] @ le_bytes 8 i"
| "event_fields (EVENT_SCREEN_SIZE w h f n) = [4, 0] @ le_bytes 2 w @ le_bytes 2 h @ le_bytes 2 f @ le_bytes 8 n"
| "event_fields (EVENT_TOUCH e) =
     [5, 0] @ le_bytes 2 (e_type e) @ le_bytes 2 (e_id e) @ le_bytes 2 (e_x e) @ le_bytes 2 (e_y e)"
| "event_fields (EVENT_MOUSE x y detail down relative) =
     [6, 0, 0, 0] @ le_bytes 4 x @ le_bytes 4 y @ [detail, down, relative]"
| "event_fields (EVENT_KEY k s) = [7, 0] @ le_bytes 2 k @ [s]"
| "event_fields (EVENT_STYLUS e) =
     [8, 0, 0, 0] @ le_bytes 4 (s_x e) @ le_bytes 4 (s_y e) @ le_bytes 2 (pressure e) @ [tilt_x e, tilt_y e] @
     le_bytes 2 (orientation e) @ [s_buttons e, s_eraser e, s_mouse e]"
| "event_fields (EVENT_STYLUS_ENABLE b) = [9, b]"
| "event_fields (EVENT_UNICODE c) = [10, 0, 0, 0] @ le_bytes 4 c"
| "event_fields (EVENT_CLIPBOARD_ENABLE b) = [11, b]"
| "event_fields EVENT_CLIPBOARD_ANNOUNCE = [12]"
| "event_fields EVENT_CLIPBOARD_REQUEST = [13]"
| "event_fields (EVENT_CLIPBOARD_SEND n) = [14, 0, 0, 0] @ le_bytes 4 n"
| "event_fields EVENT_WINDOW_FOCUS_CHANGED = [15]"
| "event_fields EVENT_RENDERER_WAKEUP_COND = [16]"
| "event_fields EVENT_GPU_COPY_DONE = [17]"
| "event_fields (EVENT_LOCK_KEYS_STATE b) = [18, b]"
| "event_fields (EVENT_UNKNOWN t) = [t]"

definition encode :: "lorieEvent \<Rightarrow> byte list" where
  "encode e = event_fields e @ replicate (sizeof_lorieEvent - length (event_fields e)) 0"

definition decode :: "byte list \<Rightarrow> lorieEvent" where
  "decode bs =
     (let t = field 0 1 bs :: byte in
      if t = 1 then EVENT_SHARED_SERVER_STATE
      else if t = 2 then EVENT_ADD_BUFFER
      else if t = 3 then EVENT_REMOVE_BUFFER (field 8 8 bs)
      else if t = 4 then EVENT_SCREEN_SIZE (field 2 2 bs) (field 4 2 bs) (field 6 2 bs) (field 8 8 bs)
      else if t = 5 then
        EVENT_TOUCH \<lparr>e_type = field 2 2 bs, e_id = field 4 2 bs, e_x = field 6 2 bs, e_y = field 8 2 bs\<rparr>
      else if t = 6 then EVENT_MOUSE (field 4 4 bs) (field 8 4 bs) (field 12 1 bs) (field 13 1 bs) (field 14 1 bs)
      else if t = 7 then EVENT_KEY (field 2 2 bs) (field 4 1 bs)
      else if t = 8 then
        EVENT_STYLUS \<lparr>s_x = field 4 4 bs, s_y = field 8 4 bs, pressure = field 12 2 bs, tilt_x = field 14 1 bs,
          tilt_y = field 15 1 bs, orientation = field 16 2 bs, s_buttons = field 18 1 bs, s_eraser = field 19 1 bs,
          s_mouse = field 20 1 bs\<rparr>
      else if t = 9 then EVENT_STYLUS_ENABLE (field 1 1 bs)
      else if t = 10 then EVENT_UNICODE (field 4 4 bs)
      else if t = 11 then EVENT_CLIPBOARD_ENABLE (field 1 1 bs)
      else if t = 12 then EVENT_CLIPBOARD_ANNOUNCE
      else if t = 13 then EVENT_CLIPBOARD_REQUEST
      else if t = 14 then EVENT_CLIPBOARD_SEND (field 4 4 bs)
      else if t = 15 then EVENT_WINDOW_FOCUS_CHANGED
      else if t = 16 then EVENT_RENDERER_WAKEUP_COND
      else if t = 17 then EVENT_GPU_COPY_DONE
      else if t = 18 then EVENT_LOCK_KEYS_STATE (field 1 1 bs)
      else EVENT_UNKNOWN t)"

definition known :: "lorieEvent \<Rightarrow> bool" where
  "known e \<longleftrightarrow> (case e of EVENT_UNKNOWN _ \<Rightarrow> False | _ \<Rightarrow> True)"

lemma length_encode [simp]: "length (encode e) = sizeof_lorieEvent"
  by (cases e) (simp_all add: encode_def sizeof_lorieEvent_def)

lemma encode_not_Nil [simp]: "encode e \<noteq> []"
proof
  assume "encode e = []"
  then have "length (encode e) = 0" by simp
  then show False by (simp add: sizeof_lorieEvent_def)
qed

lemma field_skip:
  "length xs \<le> off \<Longrightarrow> field off n (xs @ ys) = field (off - length xs) n ys"
  by (simp add: field_def)

lemma field_here: "field 0 n (le_bytes n w @ ys) = le_word (le_bytes n w)"
  by (simp add: field_def)

lemma field_byte [simp]: "field 0 1 (b # ys) = b" "field 0 (Suc 0) (b # ys) = b"
  by (simp_all add: field_def)

lemma field_Suc [simp]: "0 < off \<Longrightarrow> field off n (b # ys) = field (off - 1) n ys"
  by (cases off) (simp_all add: field_def)

lemma decode_encode: "known e \<Longrightarrow> decode (encode e) = e"
  by (cases e) (simp_all add: known_def encode_def decode_def sizeof_lorieEvent_def field_skip field_here)

section \<open>The server\<close>

datatype pointer_device = lorieMouse | loriePen | lorieEraser

datatype pointer_flag =
  POINTER_RELATIVE | POINTER_ABSOLUTE | POINTER_ACCELERATE | POINTER_SCREEN | POINTER_DESKTOP | POINTER_NORAW

text \<open>\<open>V_clamp x n\<close> is the number x kept between 0 and n, \<open>V_120th x\<close> is x / 120.\<close>

datatype valuator = V_clamp u32 nat | V_float u32 | V_120th u32 | V_int int

type_synonym valuator_mask = "nat \<Rightarrow> valuator option"

text \<open>The keysym \<open>ucs2keysym\<close> finds for a character.\<close>

datatype keysym = ucs2keysym u32

datatype server_call =
    Work_lorieConfigureNotify u16 u16 u16 "byte list"
  | Work_handleTouchEvent touch_event
  | Work_lorieHandleClipboardAnnounce
  | Work_lorieHandleClipboardData "byte list"
  | Work_lorieRecheckGpuCopies
  | Work_lorieSyncLockKeysState byte
  | Call_Motion pointer_device "pointer_flag list" valuator_mask
  | Call_ButtonPress pointer_device nat
  | Call_ButtonRelease pointer_device nat
  | Call_Key bool u16
  | Call_lorieKeysymKeyboardEvent keysym bool
  | Call_lorieSetCursorVisible bool
  | Call_lorieEnableClipboardSync bool
  | Call_lorieSetRendererWakeupCond

record lorie_server =
  has_mouse :: bool
  has_pen :: bool
  has_eraser :: bool
  buttons_prev :: u32
  vmask :: valuator_mask
  root_width :: nat
  root_height :: nat
  server_calls :: "server_call list"

definition call :: "server_call \<Rightarrow> lorie_server \<Rightarrow> lorie_server" where
  "call c s = s\<lparr>server_calls := server_calls s @ [c]\<rparr>"

text \<open>A read of \<open>n\<close> bytes into a zeroed array: what it holds afterwards.\<close>

definition read_zeroed :: "nat \<Rightarrow> byte list \<Rightarrow> byte list" where
  "read_zeroed n inp = take n inp @ replicate (n - length inp) 0"

definition stylus_device :: "stylus_event \<Rightarrow> lorie_server \<Rightarrow> pointer_device option" where
  "stylus_device e s =
     (if s_mouse e \<noteq> 0 then (if has_mouse s then Some lorieMouse else None)
      else if s_eraser e \<noteq> 0 then (if has_eraser s then Some lorieEraser else None)
      else (if has_pen s then Some loriePen else None))"

fun button_loop :: "pointer_device \<Rightarrow> nat \<Rightarrow> nat \<Rightarrow> u32 \<Rightarrow> u32 \<Rightarrow> lorie_server \<Rightarrow> lorie_server" where
  "button_loop dev 0 i released pressed s = s"
| "button_loop dev (Suc n) i released pressed s =
     (let s1 = (if released AND 1 \<noteq> 0 then call (Call_ButtonRelease dev (i + 1)) s else s);
          s2 = (if pressed AND 1 \<noteq> 0 then call (Call_ButtonPress dev (i + 1)) s1 else s1)
      in button_loop dev n (Suc i) (drop_bit 1 released) (drop_bit 1 pressed) s2)"

definition set_valuators :: "(nat \<times> valuator) list \<Rightarrow> lorie_server \<Rightarrow> lorie_server" where
  "set_valuators vs s = s\<lparr>vmask := fold (\<lambda>(i, v) m. m(i \<mapsto> v)) vs (vmask s)\<rparr>"

definition handle_stylus :: "stylus_event \<Rightarrow> lorie_server \<Rightarrow> lorie_server" where
  "handle_stylus e s =
     (case stylus_device e s of
        None \<Rightarrow> s
      | Some dev \<Rightarrow>
          let s1 = set_valuators [(0, V_clamp (s_x e) (root_width s)), (1, V_clamp (s_y e) (root_height s))] s;
              s2 = (if dev \<noteq> lorieMouse
                    then set_valuators [(2, V_int (uint (pressure e))), (3, V_int (sint (tilt_x e))),
                      (4, V_int (sint (tilt_y e))), (5, V_int (sint (orientation e)))] s1
                    else s1);
              s3 = call (Call_Motion dev ([POINTER_ABSOLUTE, POINTER_DESKTOP] @
                      (if dev = lorieMouse then [POINTER_NORAW] else [])) (vmask s2)) s2;
              buttons = ucast (s_buttons e) :: u32;
              diff = buttons_prev s3 XOR buttons;
              s4 = button_loop dev 3 0 (diff AND NOT buttons) (diff AND buttons) s3
          in s4\<lparr>buttons_prev := buttons\<rparr>)"

text \<open>A number is zero whatever its sign bit.\<close>

definition nonzero :: "u32 \<Rightarrow> bool" where
  "nonzero x \<longleftrightarrow> x AND 0x7FFFFFFF \<noteq> 0"

definition scroll :: "nat \<Rightarrow> u32 \<Rightarrow> lorie_server \<Rightarrow> lorie_server" where
  "scroll axis x s =
     (if nonzero x then
        let s1 = set_valuators [(axis, V_120th x)] (s\<lparr>vmask := Map.empty\<rparr>) in
        call (Call_Motion lorieMouse [POINTER_RELATIVE] (vmask s1)) s1
      else s)"

definition handle_mouse :: "u32 \<Rightarrow> u32 \<Rightarrow> byte \<Rightarrow> byte \<Rightarrow> byte \<Rightarrow> lorie_server \<Rightarrow> lorie_server" where
  "handle_mouse x y detail down relative s =
     (let s0 = call (Call_lorieSetCursorVisible True) s in
      if detail = 0 then
        let flags = (if relative \<noteq> 0 then [POINTER_RELATIVE, POINTER_ACCELERATE]
                     else [POINTER_ABSOLUTE, POINTER_SCREEN, POINTER_NORAW]);
            s1 = set_valuators
                   (if relative \<noteq> 0 then [(0, V_float x), (1, V_float y)]
                    else [(0, V_clamp x (root_width s)), (1, V_clamp y (root_height s))]) s0
        in call (Call_Motion lorieMouse flags (vmask s1)) s1
      else if detail = 1 \<or> detail = 2 \<or> detail = 3 then
        call (if down \<noteq> 0 then Call_ButtonPress lorieMouse (unat detail) else Call_ButtonRelease lorieMouse (unat detail)) s0
      else if detail = 4 then scroll 3 y (scroll 2 x s0)
      else s0)"

definition lorieSetStylusEnabled :: "bool \<Rightarrow> lorie_server \<Rightarrow> lorie_server" where
  "lorieSetStylusEnabled on s = s\<lparr>has_pen := on, has_eraser := on\<rparr>"

text \<open>One event, with the bytes that follow it; the result has the bytes left.\<close>

fun handle_event :: "lorieEvent \<Rightarrow> byte list \<Rightarrow> lorie_server \<Rightarrow> byte list \<times> lorie_server" where
  "handle_event (EVENT_SCREEN_SIZE w h f n) inp s =
     (drop (unat n) inp, call (Work_lorieConfigureNotify w h f (read_zeroed (unat n) inp)) s)"
| "handle_event (EVENT_TOUCH e) inp s = (inp, call (Work_handleTouchEvent e) s)"
| "handle_event (EVENT_STYLUS e) inp s = (inp, handle_stylus e s)"
| "handle_event (EVENT_STYLUS_ENABLE b) inp s = (inp, lorieSetStylusEnabled (b \<noteq> 0) s)"
| "handle_event (EVENT_MOUSE x y detail down relative) inp s = (inp, handle_mouse x y detail down relative s)"
| "handle_event (EVENT_KEY k st) inp s = (inp, call (Call_Key (st \<noteq> 0) k) s)"
| "handle_event (EVENT_UNICODE c) inp s =
     (inp, call (Call_lorieKeysymKeyboardEvent (ucs2keysym c) False)
        (call (Call_lorieKeysymKeyboardEvent (ucs2keysym c) True) s))"
| "handle_event (EVENT_CLIPBOARD_ENABLE b) inp s = (inp, call (Call_lorieEnableClipboardSync (b \<noteq> 0)) s)"
| "handle_event EVENT_CLIPBOARD_ANNOUNCE inp s = (inp, call Work_lorieHandleClipboardAnnounce s)"
| "handle_event (EVENT_CLIPBOARD_SEND n) inp s =
     (drop (unat n) inp, call (Work_lorieHandleClipboardData (cstr (read_zeroed (unat n) inp @ [0]))) s)"
| "handle_event EVENT_RENDERER_WAKEUP_COND inp s = (drop 1 inp, call Call_lorieSetRendererWakeupCond s)"
| "handle_event EVENT_GPU_COPY_DONE inp s = (inp, call Work_lorieRecheckGpuCopies s)"
| "handle_event (EVENT_LOCK_KEYS_STATE b) inp s = (inp, call (Work_lorieSyncLockKeysState b) s)"
| "handle_event _ inp s = (inp, s)"

lemma handle_event_consumes: "handle_event e inp s = (rest, s') \<Longrightarrow> length rest \<le> length inp"
  by (cases e) auto

text \<open>The loop of one call of the reader, after the valuators are zeroed; bytes too few for an event are
  read and lost.\<close>

function event_loop :: "byte list \<Rightarrow> lorie_server \<Rightarrow> byte list \<times> lorie_server" where
  "event_loop inp s =
     (if length inp < sizeof_lorieEvent then ([], s)
      else
        (case handle_event (decode (take sizeof_lorieEvent inp)) (drop sizeof_lorieEvent inp) s of
           (rest, s') \<Rightarrow> if sizeof_lorieEvent < length rest then event_loop rest s' else (rest, s')))"
  by pat_completeness auto
termination
proof (relation "measure (length \<circ> fst)")
  fix inp :: "byte list" and s rest s'
  assume "\<not> length inp < sizeof_lorieEvent" "sizeof_lorieEvent < length rest"
    and "(rest, s') = handle_event (decode (take sizeof_lorieEvent inp)) (drop sizeof_lorieEvent inp) s"
  then have "length rest < length inp"
    using handle_event_consumes [of "decode (take sizeof_lorieEvent inp)" "drop sizeof_lorieEvent inp" s rest s']
    by (auto simp: sizeof_lorieEvent_def)
  then show "((rest, s'), inp, s) \<in> measure (length \<circ> fst)" by simp
qed simp

declare event_loop.simps [simp del]

definition handleLorieEvents :: "byte list \<Rightarrow> lorie_server \<Rightarrow> byte list \<times> lorie_server" where
  "handleLorieEvents inp s = event_loop inp (s\<lparr>vmask := Map.empty\<rparr>)"

lemma event_loop_consumes:
  "event_loop inp s = (rest, s') \<Longrightarrow> inp \<noteq> [] \<Longrightarrow> length rest < length inp"
proof (induction inp s arbitrary: rest s' rule: event_loop.induct)
  case (1 inp s)
  obtain r1 s1 where h: "handle_event (decode (take sizeof_lorieEvent inp)) (drop sizeof_lorieEvent inp) s = (r1, s1)"
    by fastforce
  have "length r1 \<le> length inp - sizeof_lorieEvent" using handle_event_consumes [OF h] by simp
  then show ?case using 1 h
    by (subst (asm) (2) event_loop.simps) (force simp: sizeof_lorieEvent_def split: if_splits)
qed

text \<open>The input thread calls the reader while there are bytes to read.\<close>

function serve :: "byte list \<Rightarrow> lorie_server \<Rightarrow> lorie_server" where
  "serve inp s =
     (if inp = [] then s else (case handleLorieEvents inp s of (rest, s') \<Rightarrow> serve rest s'))"
  by pat_completeness auto
termination
proof (relation "measure (length \<circ> fst)")
  fix inp :: "byte list" and s rest s'
  assume "inp \<noteq> []" and "(rest, s') = handleLorieEvents inp s"
  then have "length rest < length inp"
    using event_loop_consumes [of inp "s\<lparr>vmask := Map.empty\<rparr>" rest s'] by (auto simp: handleLorieEvents_def)
  then show "((rest, s'), inp, s) \<in> measure (length \<circ> fst)" by simp
qed simp

declare serve.simps [simp del]

section \<open>Messages\<close>

type_synonym message = "lorieEvent \<times> byte list"

definition wire :: "('e \<Rightarrow> byte list) \<Rightarrow> ('e \<times> byte list) list \<Rightarrow> byte list" where
  "wire enc ms = concat (map (\<lambda>(e, p). enc e @ p) ms)"

text \<open>The messages handled one by one; a new call of the reader begins when no more than one event of
  bytes is left.\<close>

fun deliver :: "('m list \<Rightarrow> bool) \<Rightarrow> ('s \<Rightarrow> 's) \<Rightarrow> ('m \<Rightarrow> 's \<Rightarrow> 's) \<Rightarrow> bool \<Rightarrow> 'm list \<Rightarrow> 's \<Rightarrow> 's" where
  "deliver again fresh run b [] s = s"
| "deliver again fresh run b (m # ms) s =
     deliver again fresh run (\<not> again ms) ms (run m (if b then fresh s else s))"

lemma wire_simps [simp]: "wire enc [] = []" "wire enc ((e, p) # ms) = enc e @ p @ wire enc ms"
  by (simp_all add: wire_def)

lemma wire_append: "wire enc (ms @ ns) = wire enc ms @ wire enc ns"
  by (simp add: wire_def)

text \<open>What both readers of the socket have in common.\<close>

locale framing =
  fixes width :: nat and enc :: "'e \<Rightarrow> byte list" and dec :: "byte list \<Rightarrow> 'e" and good :: "'e \<Rightarrow> byte list \<Rightarrow> bool"
    and handle :: "'e \<Rightarrow> byte list \<Rightarrow> 's \<Rightarrow> byte list \<times> 's" and loop :: "byte list \<Rightarrow> 's \<Rightarrow> byte list \<times> 's"
    and fresh :: "'s \<Rightarrow> 's" and all :: "byte list \<Rightarrow> 's \<Rightarrow> 's"
  assumes width_pos: "0 < width"
    and enc_length: "length (enc e) = width"
    and dec_enc: "good e p \<Longrightarrow> dec (enc e) = e"
    and handle_payload: "good e p \<Longrightarrow> handle e (p @ rest) s = (rest, snd (handle e p s))"
    and loop_eq: "width \<le> length inp \<Longrightarrow> loop inp s =
      (case handle (dec (take width inp)) (drop width inp) s of
         (rest, s') \<Rightarrow> if width < length rest then loop rest s' else (rest, s'))"
    and all_eq: "all inp s = (if inp = [] then s else (case loop inp (fresh s) of (rest, s') \<Rightarrow> all rest s'))"
begin

lemma loop_message:
  assumes "good e p"
  shows "loop (wire enc ((e, p) # ms)) s =
    (if width < length (wire enc ms) then loop (wire enc ms) (snd (handle e p s)) else (wire enc ms, snd (handle e p s)))"
  using loop_eq [of "wire enc ((e, p) # ms)" s] handle_payload [OF assms] dec_enc [OF assms] enc_length [of e] by simp

lemma all_messages:
  assumes "\<forall>(e, p) \<in> set ms. good e p"
  shows "all (wire enc ms) s =
      deliver (\<lambda>ms. width < length (wire enc ms)) fresh (\<lambda>(e, p) s. snd (handle e p s)) True ms s"
    and "ms \<noteq> [] \<Longrightarrow> (case loop (wire enc ms) s of (rest, s') \<Rightarrow> all rest s') =
      deliver (\<lambda>ms. width < length (wire enc ms)) fresh (\<lambda>(e, p) s. snd (handle e p s)) False ms s"
  using assms
proof (induction ms arbitrary: s)
  case Nil
  {
    case 1
    then show ?case by (simp add: all_eq)
  next
    case 2
    then show ?case by simp
  }
next
  case (Cons m ms)
  obtain e p where m: "m = (e, p)" by fastforce
  let ?again = "\<lambda>ms. width < length (wire enc ms)" and ?run = "\<lambda>(e, p) s. snd (handle e p s)"
  have step: "(case loop (wire enc (m # ms)) s of (rest, s') \<Rightarrow> all rest s') = deliver ?again fresh ?run False (m # ms) s"
    if g: "\<forall>(e, p) \<in> set (m # ms). good e p" for s
  proof -
    have ge: "good e p" and gs: "\<forall>(e, p) \<in> set ms. good e p" using g m by auto
    show ?thesis
    proof (cases "?again ms")
      case True
      then have "ms \<noteq> []" by auto
      then show ?thesis using True Cons.IH(2) [OF _ gs] unfolding m loop_message [OF ge] by simp
    next
      case False
      then show ?thesis using Cons.IH(1) [OF gs] unfolding m loop_message [OF ge] by simp
    qed
  qed
  {
    case 1
    have "wire enc (m # ms) \<noteq> []" using m enc_length [of e] width_pos by auto
    then show ?case using step [OF 1, of "fresh s"] all_eq [of "wire enc (m # ms)" s] by simp
  next
    case 2
    show ?case by (rule step [OF 2(2)])
  }
qed

end

section \<open>What the activity sends\<close>

datatype activity_call =
    setClipboardSyncEnabled bool
  | sendClipboardAnnounce
  | sendClipboardEvent "byte list"
  | sendWindowChange int int int "byte list option"
  | sendMouseEvent u32 u32 int bool bool
  | sendTouchEvent int int int int
  | sendStylusEvent u32 u32 int int int int int bool bool
  | requestStylusEnabled bool
  | sendLockKeysState int
  | sendKeyEvent int int bool
  | sendTextEvent "byte list"
  | notifyGpuCopyDone
  | connect

text \<open>\<open>mbrtowc\<close> gives the first character of a text and its length, or nothing for invalid text.\<close>

function text_codes :: "(byte list \<Rightarrow> (u32 \<times> nat) option) \<Rightarrow> byte list \<Rightarrow> u32 list" where
  "text_codes mbrtowc p =
     (if p = [] \<or> hd p = 0 then []
      else (case mbrtowc p of
              None \<Rightarrow> []
            | Some (wc, len) \<Rightarrow> if len = 0 then [] else wc # text_codes mbrtowc (drop len p)))"
  by pat_completeness auto
termination
  by (relation "measure (length \<circ> snd)") (auto intro!: diff_less)

declare text_codes.simps [simp del]

definition jbool :: "bool \<Rightarrow> byte" where
  "jbool b = (if b then 1 else 0)"

text \<open>The calls on a connected view; \<open>keycodes\<close> is the table \<open>android_to_linux_keycode\<close>.\<close>

fun activity_send :: "(byte list \<Rightarrow> (u32 \<times> nat) option) \<Rightarrow> (int \<Rightarrow> int) \<Rightarrow> activity_call \<Rightarrow> message list" where
  "activity_send mb keycodes (setClipboardSyncEnabled on) = [(EVENT_CLIPBOARD_ENABLE (jbool on), [])]"
| "activity_send mb keycodes sendClipboardAnnounce = [(EVENT_CLIPBOARD_ANNOUNCE, [])]"
| "activity_send mb keycodes (sendClipboardEvent text) = [(EVENT_CLIPBOARD_SEND (of_nat (length text)), text)]"
| "activity_send mb keycodes (sendWindowChange w h framerate jname) =
     (let name = (case jname of None \<Rightarrow> [] | Some n \<Rightarrow> if w \<le> 0 \<or> h \<le> 0 then [] else cstr (n @ [0])) in
      [(EVENT_SCREEN_SIZE (of_int w) (of_int h) (of_int framerate) (of_nat (length name)), name)])"
| "activity_send mb keycodes (sendMouseEvent x y button down relative) =
     [(EVENT_MOUSE x y (of_int button) (jbool down) (jbool relative), [])]"
| "activity_send mb keycodes (sendTouchEvent action i x y) =
     (if action \<noteq> - 1
      then [(EVENT_TOUCH \<lparr>e_type = of_int action, e_id = of_int i, e_x = of_int x, e_y = of_int y\<rparr>, [])] else [])"
| "activity_send mb keycodes (sendStylusEvent x y p tx ty orient buttons eraser mouse) =
     [(EVENT_STYLUS \<lparr>s_x = x, s_y = y, pressure = of_int p, tilt_x = of_int tx, tilt_y = of_int ty,
         orientation = of_int orient, s_buttons = of_int buttons, s_eraser = jbool eraser, s_mouse = jbool mouse\<rparr>, [])]"
| "activity_send mb keycodes (requestStylusEnabled on) = [(EVENT_STYLUS_ENABLE (jbool on), [])]"
| "activity_send mb keycodes (sendLockKeysState st) = [(EVENT_LOCK_KEYS_STATE (of_int st), [])]"
| "activity_send mb keycodes (sendKeyEvent scan_code key_code down) =
     (let code = (if scan_code \<noteq> 0 then scan_code else keycodes key_code) in
      [(EVENT_KEY (of_int (code + 8)) (jbool down), [])])"
| "activity_send mb keycodes (sendTextEvent text) = map (\<lambda>wc. (EVENT_UNICODE wc, [])) (text_codes mb text)"
| "activity_send mb keycodes notifyGpuCopyDone = [(EVENT_GPU_COPY_DONE, [])]"
| "activity_send mb keycodes connect = [(EVENT_RENDERER_WAKEUP_COND, bytes ''!'')]"

text \<open>Arrays and strings of Java have fewer than $2^{31}$ elements.\<close>

fun call_fits :: "activity_call \<Rightarrow> bool" where
  "call_fits (sendClipboardEvent text) \<longleftrightarrow> length text < 2 ^ 31"
| "call_fits (sendWindowChange w h f (Some n)) \<longleftrightarrow> length n < 2 ^ 31"
| "call_fits _ \<longleftrightarrow> True"

fun payload :: "lorieEvent \<Rightarrow> nat" where
  "payload (EVENT_SCREEN_SIZE w h f n) = unat n"
| "payload (EVENT_CLIPBOARD_SEND n) = unat n"
| "payload EVENT_RENDERER_WAKEUP_COND = 1"
| "payload _ = 0"

definition whole :: "lorieEvent \<Rightarrow> byte list \<Rightarrow> bool" where
  "whole e p \<longleftrightarrow> known e \<and> length p = payload e"

lemma length_cstr: "length (cstr (n @ [0])) \<le> length n"
  by (induction n) (auto simp: cstr_def)

lemma unat_of_length:
  "length xs < 2 ^ 31 \<Longrightarrow> unat (of_nat (length xs) :: u32) = length xs"
  "length xs < 2 ^ 31 \<Longrightarrow> unat (of_nat (length xs) :: u64) = length xs"
  by (simp_all add: unat_of_nat)

lemma activity_send_whole:
  assumes "call_fits c" "(e, p) \<in> set (activity_send mb km c)"
  shows "whole e p"
proof (cases c)
  case (sendWindowChange w h f jname)
  have "length (cstr (n @ [0])) < 2 ^ 31" if "jname = Some n" for n
    using assms(1) length_cstr [of n] that sendWindowChange by simp
  then show ?thesis using assms sendWindowChange
    by (auto simp: whole_def known_def unat_of_length Let_def split: option.splits if_splits)
qed (use assms in \<open>auto simp: whole_def known_def bytes_def unat_of_length Let_def split: if_splits\<close>)

definition zero_mask :: "lorie_server \<Rightarrow> lorie_server" where
  "zero_mask s = s\<lparr>vmask := Map.empty\<rparr>"

definition handle_message :: "message \<Rightarrow> lorie_server \<Rightarrow> lorie_server" where
  "handle_message m s = snd (handle_event (fst m) (snd m) s)"

definition more_than_one :: "message list \<Rightarrow> bool" where
  "more_than_one ms \<longleftrightarrow> sizeof_lorieEvent < length (wire encode ms)"

lemma handle_event_payload:
  "whole e p \<Longrightarrow> handle_event e (p @ rest) s = (rest, snd (handle_event e p s))"
  by (cases e) (auto simp: whole_def known_def read_zeroed_def)

interpretation server: framing sizeof_lorieEvent encode decode whole handle_event event_loop zero_mask serve
proof unfold_locales
  show "0 < sizeof_lorieEvent" by (simp add: sizeof_lorieEvent_def)
  show "length (encode e) = sizeof_lorieEvent" for e by simp
  show "decode (encode e) = e" if "whole e p" for e p using that by (simp add: decode_encode whole_def)
  show "handle_event e (p @ rest) s = (rest, snd (handle_event e p s))" if "whole e p" for e p rest s
    using that by (rule handle_event_payload)
  show "event_loop inp s = (case handle_event (decode (take sizeof_lorieEvent inp)) (drop sizeof_lorieEvent inp) s of
      (rest, s') \<Rightarrow> if sizeof_lorieEvent < length rest then event_loop rest s' else (rest, s'))"
    if "sizeof_lorieEvent \<le> length inp" for inp s
    using that by (subst event_loop.simps) simp
  show "serve inp s = (if inp = [] then s else (case event_loop inp (zero_mask s) of (rest, s') \<Rightarrow> serve rest s'))" for inp s
    by (subst serve.simps) (simp add: handleLorieEvents_def zero_mask_def)
qed

lemma serve_messages:
  assumes "\<forall>(e, p) \<in> set ms. whole e p"
  shows "serve (wire encode ms) s = deliver more_than_one zero_mask handle_message True ms s"
  using server.all_messages(1) [OF assms, of s]
  by (simp add: more_than_one_def [abs_def] handle_message_def [abs_def] case_prod_unfold)

section \<open>The events of the activity reach the server\<close>

text \<open>Calls are only ever added.\<close>

lemma call_calls [simp]: "server_calls (call c s) = server_calls s @ [c]" "buttons_prev (call c s) = buttons_prev s"
  "vmask (call c s) = vmask s" "root_width (call c s) = root_width s" "root_height (call c s) = root_height s"
  "has_pen (call c s) = has_pen s" "has_eraser (call c s) = has_eraser s" "has_mouse (call c s) = has_mouse s"
  by (simp_all add: call_def)

lemma set_valuators_calls [simp]: "server_calls (set_valuators vs s) = server_calls s"
  "buttons_prev (set_valuators vs s) = buttons_prev s" "root_width (set_valuators vs s) = root_width s"
  "root_height (set_valuators vs s) = root_height s" "has_pen (set_valuators vs s) = has_pen s"
  "has_eraser (set_valuators vs s) = has_eraser s" "has_mouse (set_valuators vs s) = has_mouse s"
  "vmask (set_valuators vs s) = fold (\<lambda>(i, v) m. m(i \<mapsto> v)) vs (vmask s)"
  by (simp_all add: set_valuators_def)

definition clicks :: "pointer_device \<Rightarrow> nat \<Rightarrow> nat \<Rightarrow> u32 \<Rightarrow> u32 \<Rightarrow> server_call list" where
  "clicks dev n i released pressed = concat (map (\<lambda>j.
     (if bit released j then [Call_ButtonRelease dev (i + j + 1)] else []) @
     (if bit pressed j then [Call_ButtonPress dev (i + j + 1)] else [])) [0..<n])"

lemma button_loop_clicks:
  "button_loop dev n i released pressed s = s\<lparr>server_calls := server_calls s @ clicks dev n i released pressed\<rparr>"
proof (induction n arbitrary: i released pressed s)
  case 0
  then show ?case by (simp add: clicks_def)
next
  case (Suc n)
  have "w AND 1 \<noteq> 0 \<longleftrightarrow> bit w 0" for w :: u32
    by (simp add: and_one_eq bit_0 odd_iff_mod_2_eq_one)
  moreover have "[0..<Suc n] = 0 # map Suc [0..<n]" by (simp add: upt_conv_Cons map_Suc_upt)
  ultimately show ?case
    by (simp add: Suc clicks_def call_def Let_def bit_drop_bit_eq comp_def cong: if_cong)
qed

text \<open>The touches among the calls and among the messages.\<close>

fun touch_work :: "server_call \<Rightarrow> touch_event list" where
  "touch_work (Work_handleTouchEvent e) = [e]"
| "touch_work _ = []"

fun touch_sent :: "lorieEvent \<Rightarrow> touch_event list" where
  "touch_sent (EVENT_TOUCH e) = [e]"
| "touch_sent _ = []"

definition touches_of :: "lorie_server \<Rightarrow> touch_event list" where
  "touches_of s = concat (map touch_work (server_calls s))"

lemma touch_work_clicks [simp]: "concat (map touch_work (clicks dev n i released pressed)) = []"
  by (auto simp: clicks_def)

lemma handle_message_touches: "touches_of (handle_message m s) = touches_of s @ touch_sent (fst m)"
proof (cases "fst m")
  case (EVENT_STYLUS e)
  then show ?thesis
    by (simp add: handle_message_def touches_of_def handle_stylus_def Let_def button_loop_clicks split: option.split)
qed (auto simp: handle_message_def touches_of_def handle_mouse_def scroll_def lorieSetStylusEnabled_def Let_def)

lemma deliver_touches:
  "touches_of (deliver again zero_mask handle_message b ms s) = touches_of s @ concat (map (touch_sent \<circ> fst) ms)"
proof (induction ms arbitrary: b s)
  case (Cons m ms)
  have "touches_of (zero_mask s) = touches_of s" by (simp add: touches_of_def zero_mask_def)
  then show ?case by (simp add: Cons handle_message_touches)
qed simp

lemma handle_message_appends: "\<exists>cs. server_calls (handle_message m s) = server_calls s @ cs"
proof (cases "fst m")
  case (EVENT_STYLUS e)
  then show ?thesis
    by (simp add: handle_message_def handle_stylus_def Let_def button_loop_clicks split: option.split)
qed (auto simp: handle_message_def handle_mouse_def scroll_def lorieSetStylusEnabled_def Let_def)

lemma deliver_appends: "set (server_calls s) \<subseteq> set (server_calls (deliver again zero_mask handle_message b ms s))"
proof (induction ms arbitrary: b s)
  case (Cons m ms)
  have "server_calls (zero_mask s) = server_calls s" by (simp add: zero_mask_def)
  then have "set (server_calls s) \<subseteq> set (server_calls (handle_message m (if b then zero_mask s else s)))"
    using handle_message_appends [of m "if b then zero_mask s else s"] by auto
  then show ?case using Cons by fastforce
qed simp

end
