(* ===== verification/EventProps.thy ===== *)
theory EventProps
  imports Events
begin

text \<open>
  What the readers of \<open>Events\<close> make of the socket: the server acts on the events of the activity in order
  and on whole ones, button events of a stylus follow its buttons, and the activity, whose reader
  \<open>xcallback\<close> of \<open>lorie/activity.cpp\<close> is defined here, receives the clipboard.
\<close>

section \<open>Buttons of a stylus\<close>

fun held_step :: "pointer_device \<Rightarrow> server_call \<Rightarrow> nat set \<Rightarrow> nat set" where
  "held_step dev (Call_ButtonPress d n) H = (if d = dev then insert n H else H)"
| "held_step dev (Call_ButtonRelease d n) H = (if d = dev then H - {n} else H)"
| "held_step dev _ H = H"

definition held_buttons :: "pointer_device \<Rightarrow> lorie_server \<Rightarrow> nat set" where
  "held_buttons dev s = fold (held_step dev) (server_calls s) {}"

text \<open>A button is pressed only when it is up and released only when it is down.\<close>

fun clean_click :: "pointer_device \<Rightarrow> server_call \<Rightarrow> nat set \<Rightarrow> bool" where
  "clean_click dev (Call_ButtonPress d n) H = (d = dev \<longrightarrow> n \<notin> H)"
| "clean_click dev (Call_ButtonRelease d n) H = (d = dev \<longrightarrow> n \<in> H)"
| "clean_click dev _ H = True"

fun clean_clicks :: "pointer_device \<Rightarrow> nat set \<Rightarrow> server_call list \<Rightarrow> bool" where
  "clean_clicks dev H [] = True"
| "clean_clicks dev H (c # cs) = (clean_click dev c H \<and> clean_clicks dev (held_step dev c H) cs)"

definition button_set :: "u32 \<Rightarrow> nat set" where
  "button_set b = (if bit b 0 then {1} else {}) \<union> (if bit b 1 then {2} else {}) \<union> (if bit b 2 then {3} else {})"

definition buttons_agree :: "pointer_device \<Rightarrow> lorie_server \<Rightarrow> bool" where
  "buttons_agree dev s \<longleftrightarrow> clean_clicks dev {} (server_calls s) \<and> held_buttons dev s = button_set (buttons_prev s)"

lemma clean_clicks_append:
  "clean_clicks dev H (cs @ ds) \<longleftrightarrow> clean_clicks dev H cs \<and> clean_clicks dev (fold (held_step dev) cs H) ds"
  by (induction cs arbitrary: H) auto

lemma clicks_3:
  "clicks dev 3 0 r p =
     (if bit r 0 then [Call_ButtonRelease dev 1] else []) @ (if bit p 0 then [Call_ButtonPress dev 1] else []) @
     (if bit r 1 then [Call_ButtonRelease dev 2] else []) @ (if bit p 1 then [Call_ButtonPress dev 2] else []) @
     (if bit r 2 then [Call_ButtonRelease dev 3] else []) @ (if bit p 2 then [Call_ButtonPress dev 3] else [])"
  by (simp add: clicks_def numeral_3_eq_3 numeral_2_eq_2)

lemma clicks_follow:
  fixes prev b :: u32
  shows "fold (held_step dev) (clicks dev 3 0 ((prev XOR b) AND NOT b) ((prev XOR b) AND b)) (button_set prev) = button_set b"
    and "clean_clicks dev (button_set prev) (clicks dev 3 0 ((prev XOR b) AND NOT b) ((prev XOR b) AND b))"
  unfolding clicks_3 button_set_def
  by (cases "bit prev 0"; cases "bit b 0"; cases "bit prev 1"; cases "bit b 1"; cases "bit prev 2"; cases "bit b 2";
      simp add: bit_simps insert_commute insert_Diff_if)+

lemma clicks_other: "d \<noteq> dev \<Longrightarrow> fold (held_step d) (clicks dev 3 0 r p) H = H"
  by (simp add: clicks_3)

text \<open>What one event of a stylus adds.\<close>

lemma handle_stylus_calls:
  assumes "stylus_device e s = Some dev"
  obtains flags m where
    "server_calls (handle_stylus e s) = server_calls s @ [Call_Motion dev flags m] @
       clicks dev 3 0 ((buttons_prev s XOR ucast (s_buttons e)) AND NOT (ucast (s_buttons e)))
         ((buttons_prev s XOR ucast (s_buttons e)) AND ucast (s_buttons e))"
    "buttons_prev (handle_stylus e s) = ucast (s_buttons e)"
    "has_pen (handle_stylus e s) = has_pen s" "has_eraser (handle_stylus e s) = has_eraser s"
    "has_mouse (handle_stylus e s) = has_mouse s"
  using assms by (simp add: handle_stylus_def Let_def button_loop_clicks)

lemma handle_stylus_agree:
  assumes "stylus_device e s = Some dev" "buttons_agree dev s"
  shows "buttons_agree dev (handle_stylus e s)"
  by (rule handle_stylus_calls [OF assms(1)])
    (use assms(2) clicks_follow [of dev "buttons_prev s" "ucast (s_buttons e)"]
      in \<open>auto simp: buttons_agree_def held_buttons_def clean_clicks_append\<close>)

lemma handle_stylus_other:
  assumes "stylus_device e s = Some dev" "d \<noteq> dev"
  shows "held_buttons d (handle_stylus e s) = held_buttons d s"
  by (rule handle_stylus_calls [OF assms(1)]) (simp add: held_buttons_def clicks_other [OF assms(2)])

lemma stylus_device_same: "stylus_device e (handle_stylus e' s) = stylus_device e s"
proof (cases "stylus_device e' s")
  case None
  then show ?thesis by (simp add: handle_stylus_def)
next
  case (Some dev)
  show ?thesis by (rule handle_stylus_calls [OF Some]) (simp add: stylus_device_def)
qed

text \<open>A button held on one device stays held there when another device takes over.\<close>

lemma stylus_switch:
  assumes "stylus_device e s = Some dev" "stylus_device e' s = Some dev'" "dev \<noteq> dev'" "buttons_agree dev s"
  shows "held_buttons dev (handle_stylus e' (handle_stylus e s)) = button_set (ucast (s_buttons e))"
proof -
  have "held_buttons dev (handle_stylus e s) = button_set (buttons_prev (handle_stylus e s))"
    using handle_stylus_agree [OF assms(1,4)] by (simp add: buttons_agree_def)
  moreover have "buttons_prev (handle_stylus e s) = ucast (s_buttons e)"
    by (rule handle_stylus_calls [OF assms(1)])
  moreover have "stylus_device e' (handle_stylus e s) = Some dev'" using assms(2) by (simp add: stylus_device_same)
  ultimately show ?thesis using handle_stylus_other [OF _ assms(3)] by simp
qed

lemma fold_stylus_agree:
  assumes "\<forall>e \<in> set es. stylus_device e s = Some dev" "buttons_agree dev s"
  shows "buttons_agree dev (fold handle_stylus es s)"
  using assms
proof (induction es arbitrary: s)
  case (Cons e es)
  then show ?case using handle_stylus_agree [of e s dev] by (simp add: stylus_device_same)
qed simp

section \<open>The reader of the activity\<close>

datatype activity_action =
    setClipboardText "byte list"
  | requestClipboard
  | setSharedState
  | addBuffer
  | removeBuffer u64
  | resetIme

text \<open>\<open>recv\<close> is the number of bytes \<open>LorieBuffer_recvHandleFromUnixSocket\<close> takes from those given. The array for
  the clipboard has one byte more than the text, and that many are asked for.\<close>

fun activity_event ::
    "(byte list \<Rightarrow> nat) \<Rightarrow> lorieEvent \<Rightarrow> byte list \<Rightarrow> activity_action list \<Rightarrow> byte list \<times> activity_action list" where
  "activity_event recv (EVENT_CLIPBOARD_SEND n) inp s =
     (if n = 0 then (inp, s)
      else (drop (unat (n + 1)) inp,
            s @ [setClipboardText (cstr (take (unat n) (read_zeroed (unat (n + 1)) inp) @ [0]))]))"
| "activity_event recv EVENT_CLIPBOARD_REQUEST inp s = (inp, s @ [requestClipboard])"
| "activity_event recv EVENT_SHARED_SERVER_STATE inp s = (drop 1 inp, s @ [setSharedState])"
| "activity_event recv EVENT_ADD_BUFFER inp s = (drop (recv inp) inp, s @ [addBuffer])"
| "activity_event recv (EVENT_REMOVE_BUFFER i) inp s = (inp, s @ [removeBuffer i])"
| "activity_event recv EVENT_WINDOW_FOCUS_CHANGED inp s = (inp, s @ [resetIme])"
| "activity_event recv _ inp s = (inp, s)"

lemma activity_event_consumes: "activity_event recv e inp s = (rest, s') \<Longrightarrow> length rest \<le> length inp"
  by (cases e) (auto split: if_splits)

function xcallback :: "(byte list \<Rightarrow> nat) \<Rightarrow> byte list \<Rightarrow> activity_action list \<Rightarrow> byte list \<times> activity_action list" where
  "xcallback recv inp s =
     (if length inp < sizeof_lorieEvent then ([], s)
      else
        (case activity_event recv (decode (take sizeof_lorieEvent inp)) (drop sizeof_lorieEvent inp) s of
           (rest, s') \<Rightarrow> if sizeof_lorieEvent < length rest then xcallback recv rest s' else (rest, s')))"
  by pat_completeness auto
termination
proof (relation "measure (length \<circ> fst \<circ> snd)")
  fix recv and inp :: "byte list" and s rest s'
  assume "\<not> length inp < sizeof_lorieEvent" "sizeof_lorieEvent < length rest"
    and "(rest, s') = activity_event recv (decode (take sizeof_lorieEvent inp)) (drop sizeof_lorieEvent inp) s"
  then have "length rest < length inp"
    using activity_event_consumes [of recv "decode (take sizeof_lorieEvent inp)" "drop sizeof_lorieEvent inp" s rest s']
    by (auto simp: sizeof_lorieEvent_def)
  then show "((recv, rest, s'), recv, inp, s) \<in> measure (length \<circ> fst \<circ> snd)" by simp
qed simp

declare xcallback.simps [simp del]

lemma xcallback_consumes:
  "xcallback recv inp s = (rest, s') \<Longrightarrow> inp \<noteq> [] \<Longrightarrow> length rest < length inp"
proof (induction recv inp s arbitrary: rest s' rule: xcallback.induct)
  case (1 recv inp s)
  obtain r1 s1 where h: "activity_event recv (decode (take sizeof_lorieEvent inp)) (drop sizeof_lorieEvent inp) s = (r1, s1)"
    by fastforce
  have "length r1 \<le> length inp - sizeof_lorieEvent" using activity_event_consumes [OF h] by simp
  then show ?case using 1 h
    by (subst (asm) (2) xcallback.simps) (force simp: sizeof_lorieEvent_def split: if_splits)
qed

text \<open>The looper calls the reader while there are bytes to read.\<close>

function receive :: "(byte list \<Rightarrow> nat) \<Rightarrow> byte list \<Rightarrow> activity_action list \<Rightarrow> activity_action list" where
  "receive recv inp s = (if inp = [] then s else (case xcallback recv inp s of (rest, s') \<Rightarrow> receive recv rest s'))"
  by pat_completeness auto
termination
proof (relation "measure (length \<circ> fst \<circ> snd)")
  fix recv and inp :: "byte list" and s rest s'
  assume "inp \<noteq> []" and "(rest, s') = xcallback recv inp s"
  then have "length rest < length inp" using xcallback_consumes [of recv inp s rest s'] by auto
  then show "((recv, rest, s'), recv, inp, s) \<in> measure (length \<circ> fst \<circ> snd)" by simp
qed simp

declare receive.simps [simp del]

text \<open>The bytes \<open>lorieSendClipboardData\<close> writes.\<close>

definition clipboard_bytes :: "byte list \<Rightarrow> byte list" where
  "clipboard_bytes data = encode (EVENT_CLIPBOARD_SEND (of_nat (length data))) @ data"

text \<open>The messages the activity reads as they were sent: all but a clipboard that is not empty.\<close>

definition plain :: "(byte list \<Rightarrow> nat) \<Rightarrow> lorieEvent \<Rightarrow> byte list \<Rightarrow> bool" where
  "plain recv e p \<longleftrightarrow> known e \<and>
     (case e of
        EVENT_CLIPBOARD_SEND n \<Rightarrow> n = 0 \<and> p = []
      | EVENT_SHARED_SERVER_STATE \<Rightarrow> length p = 1
      | EVENT_ADD_BUFFER \<Rightarrow> \<forall>rest. recv (p @ rest) = length p
      | _ \<Rightarrow> p = [])"

lemma activity_event_plain:
  "plain recv e p \<Longrightarrow> activity_event recv e (p @ rest) s = (rest, snd (activity_event recv e p s))"
  by (cases e) (auto simp: plain_def known_def)

interpretation activity: framing sizeof_lorieEvent encode decode "plain recv" "activity_event recv" "xcallback recv" id
  "receive recv" for recv
proof unfold_locales
  show "0 < sizeof_lorieEvent" by (simp add: sizeof_lorieEvent_def)
  show "length (encode e) = sizeof_lorieEvent" for e by simp
  show "decode (encode e) = e" if "plain recv e p" for e p using that by (simp add: decode_encode plain_def)
  show "activity_event recv e (p @ rest) s = (rest, snd (activity_event recv e p s))" if "plain recv e p" for e p rest s
    using that by (rule activity_event_plain)
  show "xcallback recv inp s =
      (case activity_event recv (decode (take sizeof_lorieEvent inp)) (drop sizeof_lorieEvent inp) s of
      (rest, s') \<Rightarrow> if sizeof_lorieEvent < length rest then xcallback recv rest s' else (rest, s'))"
    if "sizeof_lorieEvent \<le> length inp" for inp s
    using that by (subst xcallback.simps) simp
  show "receive recv inp s = (if inp = [] then s else (case xcallback recv inp (id s) of (rest, s') \<Rightarrow> receive recv rest s'))"
    for inp s by (subst receive.simps) simp
qed

text \<open>Whether the reader goes on or is called again makes no difference here.\<close>

lemma receive_event:
  assumes "activity_event recv e inp s = (rest, s')" "known e"
  shows "receive recv (encode e @ inp) s = receive recv rest s'"
proof -
  have "xcallback recv (encode e @ inp) s = (if sizeof_lorieEvent < length rest then xcallback recv rest s' else (rest, s'))"
    using assms by (subst xcallback.simps) (simp add: decode_encode)
  moreover have "(case xcallback recv rest s' of (r, t) \<Rightarrow> receive recv r t) = receive recv rest s'"
    if "sizeof_lorieEvent < length rest" using that by (subst (2) receive.simps) auto
  ultimately show ?thesis by (subst receive.simps) simp
qed

section \<open>Properties\<close>

text \<open>A server with all its pointer devices, and calls of the activity.\<close>

definition events_server0 :: lorie_server where
  "events_server0 = \<lparr>has_mouse = True, has_pen = True, has_eraser = True, buttons_prev = 0, vmask = Map.empty,
     root_width = 1280, root_height = 720, server_calls = []\<rparr>"

definition calls0 :: "activity_call list" where
  "calls0 = [sendWindowChange 1280 720 60 (Some (bytes ''builtin'')), sendClipboardEvent (bytes ''hi''),
     sendTouchEvent 18 1 10 20, sendKeyEvent 30 0 True]"

definition no_text :: "byte list \<Rightarrow> (u32 \<times> nat) option" where
  "no_text p = None"

lemma calls0_fit: "\<forall>c \<in> set calls0. call_fits c"
  by (simp add: calls0_def bytes_def)

lemma activity_messages_whole:
  assumes "\<forall>c \<in> set calls. call_fits c"
  shows "\<forall>(e, p) \<in> set (concat (map (activity_send mb km) calls)). whole e p"
  using assms activity_send_whole by fastforce

lemma receive_clipboard_bytes:
  assumes "text \<noteq> []" and "nul_free text" and "length text < 2 ^ 32 - 1"
  shows "receive recv (clipboard_bytes text @ rest) s = receive recv (drop 1 rest) (s @ [setClipboardText text])"
proof -
  let ?n = "of_nat (length text) :: u32"
  have n: "unat ?n = length text" using assms(3) by (simp add: unat_of_nat)
  have nz: "?n \<noteq> 0" using n assms(1) by auto
  have n1: "unat (?n + 1) = Suc (length text)"
    using n assms(3) by (simp add: unat_word_ariths)
  have "activity_event recv (EVENT_CLIPBOARD_SEND ?n) (text @ rest) s = (drop 1 rest, s @ [setClipboardText text])"
    using n n1 nz assms(2) by (simp add: read_zeroed_def)
  then show ?thesis unfolding clipboard_bytes_def
    using receive_event [of recv "EVENT_CLIPBOARD_SEND ?n" "text @ rest" s] by (simp add: known_def)
qed

text \<open>C6: Whatever the activity sends, once all of it has arrived the server acts on exactly these events, each
  with the text that belongs to it, in the order in which they were sent, and nothing is left over or lost.\<close>

theorem serve_activity:
  assumes "\<forall>c \<in> set calls. call_fits c"
  shows "serve (wire encode (concat (map (activity_send mb km) calls))) s =
    deliver more_than_one zero_mask handle_message True (concat (map (activity_send mb km) calls)) s"
  by (rule serve_messages [OF activity_messages_whole [OF assms]])

theorem serve_activity_witness:
  "server_calls (serve (wire encode (concat (map (activity_send no_text (\<lambda>k. k)) calls0))) events_server0) =
     [Work_lorieConfigureNotify 1280 720 60 (bytes ''builtin''), Work_lorieHandleClipboardData (bytes ''hi''),
      Work_handleTouchEvent \<lparr>e_type = 18, e_id = 1, e_x = 10, e_y = 20\<rparr>, Call_Key True 38]"
  unfolding serve_activity [OF calls0_fit]
  by (simp add: calls0_def events_server0_def handle_message_def read_zeroed_def zero_mask_def jbool_def bytes_def cstr_def)


definition pen0 :: "byte \<Rightarrow> stylus_event" where
  "pen0 b = \<lparr>s_x = 0, s_y = 0, pressure = 0, tilt_x = 0, tilt_y = 0, orientation = 0, s_buttons = b, s_eraser = 0,
     s_mouse = 0\<rparr>"


text \<open>C39: The activity gets the clipboard the server sends, but reads one byte too many: it goes on as if
  the first byte of whatever follows had not been sent.\<close>

theorem receive_clipboard:
  assumes "text \<noteq> []" and "nul_free text" and "length text < 2 ^ 32 - 1"
  shows "receive recv (clipboard_bytes text @ rest) s = receive recv (drop 1 rest) (s @ [setClipboardText text])"
  by (rule receive_clipboard_bytes [OF assms])

text \<open>A request for the clipboard that follows at once is lost.\<close>

theorem receive_clipboard_witness:
  "receive length (clipboard_bytes (bytes ''hi'') @ encode EVENT_CLIPBOARD_REQUEST) [] = [setClipboardText (bytes ''hi'')]"
proof -
  have "receive length (drop 1 (encode EVENT_CLIPBOARD_REQUEST)) s = s" for s
    by (simp add: receive.simps xcallback.simps encode_def sizeof_lorieEvent_def)
  then show ?thesis
    using receive_clipboard [of "bytes ''hi''" length "encode EVENT_CLIPBOARD_REQUEST" "[]"] by (simp add: bytes_def)
qed

text \<open>C40: A scroll of the wheel read together with a later motion of the mouse is sent again as part of
  that motion: the valuators are zeroed only once for all events read in one call.\<close>

theorem scroll_repeated:
  assumes "nonzero y" and "\<forall>(e, p) \<in> set ms. whole e p" and "ms \<noteq> []"
  shows "Call_Motion lorieMouse [POINTER_ABSOLUTE, POINTER_SCREEN, POINTER_NORAW]
      [0 \<mapsto> V_clamp x' (root_width s), 1 \<mapsto> V_clamp y' (root_height s), 3 \<mapsto> V_120th y]
    \<in> set (server_calls (serve (wire encode ((EVENT_MOUSE x y 4 down rel, []) # (EVENT_MOUSE x' y' 0 down' 0, []) # ms)) s))"
proof -
  let ?scroll = "(EVENT_MOUSE x y 4 down rel, [])" and ?move = "(EVENT_MOUSE x' y' 0 down' 0, [])"
  have whole: "\<forall>(e, p) \<in> set (?scroll # ?move # ms). whole e p"
    using assms(2) by (auto simp: whole_def known_def)
  obtain e p ms' where ms: "ms = (e, p) # ms'" using assms(3) by (cases ms) auto
  have again: "more_than_one (?move # ms)"
    by (simp add: more_than_one_def ms sizeof_lorieEvent_def)
  define s1 where "s1 = handle_message ?scroll (zero_mask s)"
  have s1: "vmask s1 = [3 \<mapsto> V_120th y]" "root_width s1 = root_width s" "root_height s1 = root_height s"
    using assms(1) by (auto simp: s1_def handle_message_def handle_mouse_def scroll_def zero_mask_def Let_def)
  have "Call_Motion lorieMouse [POINTER_ABSOLUTE, POINTER_SCREEN, POINTER_NORAW]
      [0 \<mapsto> V_clamp x' (root_width s), 1 \<mapsto> V_clamp y' (root_height s), 3 \<mapsto> V_120th y]
    \<in> set (server_calls (handle_message ?move s1))"
    by (auto simp: handle_message_def handle_mouse_def Let_def s1 fun_upd_twist)
  then have "Call_Motion lorieMouse [POINTER_ABSOLUTE, POINTER_SCREEN, POINTER_NORAW]
      [0 \<mapsto> V_clamp x' (root_width s), 1 \<mapsto> V_clamp y' (root_height s), 3 \<mapsto> V_120th y]
    \<in> set (server_calls (deliver more_than_one zero_mask handle_message (\<not> more_than_one ms) ms (handle_message ?move s1)))"
    by (rule subsetD [OF deliver_appends])
  then show ?thesis
    unfolding serve_messages [OF whole] using again by (simp add: s1_def)
qed

theorem scroll_repeated_witness:
  "Call_Motion lorieMouse [POINTER_ABSOLUTE, POINTER_SCREEN, POINTER_NORAW]
      [0 \<mapsto> V_clamp 7 1280, 1 \<mapsto> V_clamp 8 720, 3 \<mapsto> V_120th 0x42F00000]
    \<in> set (server_calls (serve (wire encode [(EVENT_MOUSE 0 0x42F00000 4 0 0, []), (EVENT_MOUSE 7 8 0 0 0, []),
         (EVENT_KEY 38 1, [])]) events_server0))"
  using scroll_repeated [where y = "0x42F00000" and ms = "[(EVENT_KEY 38 1, [])]" and s = events_server0 and x' = 7 and y' = 8
    and x = 0 and down = 0 and rel = 0 and down' = 0]
  by (simp add: nonzero_def whole_def known_def events_server0_def)

end
