(* ===== verification/WorkQueue.thy ===== *)
theory WorkQueue
  imports Prelude "HOL-Library.Monad_Syntax" "HOL-Library.Multiset" "HOL-Library.Sublist"
begin

text \<open>
  The work queue and the queue of sleeping clients of the X server, \<open>xserver/dix/dixutils.c\<close> with the
  lock that \<open>patches/xserver.patch\<close> adds to it: the input thread queues work while the main thread works
  the queue off. The queue is a linked list in a heap with a pointer to the place of the next element, so
  that a use of freed memory shows as \<open>None\<close>. Addresses that were freed may be given out again. Work
  functions run without the lock and are the parameter \<open>func\<close>.
\<close>

type_synonym addr = nat

text \<open>The number of the function, the client if any, and the closure.\<close>

type_synonym 'c work = "nat \<times> nat option \<times> 'c"

record 'c WorkQueueRec =
  wq_next :: "addr option"
  wq_item :: "'c work"

text \<open>The places that hold a pointer to an element: the variable \<open>workQueue\<close>, or the field \<open>next\<close> of an
  element.\<close>

datatype loc = Head | NextOf addr

record 'c wqueue =
  wq_heap :: "addr \<Rightarrow> 'c WorkQueueRec option"
  workQueue :: "addr option"
  workQueueLast :: loc

definition rd_loc :: "loc \<Rightarrow> 'c wqueue \<Rightarrow> addr option option" where
  "rd_loc p st = (case p of Head \<Rightarrow> Some (workQueue st) | NextOf a \<Rightarrow> map_option wq_next (wq_heap st a))"

definition wr_loc :: "loc \<Rightarrow> addr option \<Rightarrow> 'c wqueue \<Rightarrow> 'c wqueue option" where
  "wr_loc p v st =
     (case p of
        Head \<Rightarrow> Some (st\<lparr>workQueue := v\<rparr>)
      | NextOf a \<Rightarrow>
          map_option (\<lambda>nd. st\<lparr>wq_heap := (wq_heap st)(a \<mapsto> nd\<lparr>wq_next := v\<rparr>)\<rparr>) (wq_heap st a))"

definition free_node :: "addr \<Rightarrow> 'c wqueue \<Rightarrow> 'c wqueue" where
  "free_node a st = st\<lparr>wq_heap := (wq_heap st)(a := None)\<rparr>"

section \<open>Operations\<close>

text \<open>\<open>m\<close> is the result of \<open>malloc\<close>.\<close>

definition QueueWorkProc :: "addr option \<Rightarrow> 'c work \<Rightarrow> 'c wqueue \<Rightarrow> (bool \<times> 'c wqueue) option" where
  "QueueWorkProc m item st =
     (case m of
        None \<Rightarrow> Some (False, st)
      | Some q \<Rightarrow> do {
          st1 \<leftarrow> wr_loc (workQueueLast st) (Some q)
                  (st\<lparr>wq_heap := (wq_heap st)(q \<mapsto> \<lparr>wq_next = None, wq_item = item\<rparr>)\<rparr>);
          Some (True, st1\<lparr>workQueueLast := NextOf q\<rparr>)
        })"

text \<open>What is done with the lock held after a function has returned: the element is taken out or
  passed over.\<close>

definition after_call :: "bool \<Rightarrow> loc \<Rightarrow> addr \<Rightarrow> 'c wqueue \<Rightarrow> (loc \<times> 'c wqueue) option" where
  "after_call ok p q st =
     (if ok then do {
        nd \<leftarrow> wq_heap st q;
        st1 \<leftarrow> wr_loc p (wq_next nd) st;
        Some (p, free_node q st1)
      }
      else Some (NextOf q, st))"

type_synonym ('c, 'w) work_func = "'c work \<Rightarrow> 'w \<Rightarrow> 'c wqueue \<Rightarrow> (bool \<times> 'w \<times> 'c wqueue) option"

partial_function (option) process_loop :: "('c, 'w) work_func \<Rightarrow> loc \<Rightarrow> 'w \<Rightarrow> 'c wqueue \<Rightarrow> ('w \<times> 'c wqueue) option" where
  "process_loop func p w st =
     Option.bind (rd_loc p st) (\<lambda>q.
       case q of
         None \<Rightarrow> Some (w, st\<lparr>workQueueLast := p\<rparr>)
       | Some a \<Rightarrow>
           Option.bind (wq_heap st a) (\<lambda>nd.
             Option.bind (func (wq_item nd) w st) (\<lambda>(ok, w1, st1).
               Option.bind (after_call ok p a st1) (\<lambda>(p1, st2). process_loop func p1 w1 st2))))"

definition ProcessWorkQueue :: "('c, 'w) work_func \<Rightarrow> 'w \<Rightarrow> 'c wqueue \<Rightarrow> ('w \<times> 'c wqueue) option" where
  "ProcessWorkQueue func = process_loop func Head"

partial_function (option) clear_loop :: "'c wqueue \<Rightarrow> 'c wqueue option" where
  "clear_loop st =
     (case workQueue st of
        None \<Rightarrow> Some (st\<lparr>workQueueLast := Head\<rparr>)
      | Some q \<Rightarrow> Option.bind (wq_heap st q) (\<lambda>nd. clear_loop (free_node q (st\<lparr>workQueue := wq_next nd\<rparr>))))"

definition ClearWorkQueue :: "'c wqueue \<Rightarrow> 'c wqueue option" where
  "ClearWorkQueue = clear_loop"

text \<open>The work of clients that have gone is done with the lock held, so \<open>func\<close> does not see the queue here:
  a function that queued work would wait for the lock forever.\<close>

partial_function (option) zombie_loop ::
    "(nat \<Rightarrow> bool) \<Rightarrow> ('c work \<Rightarrow> 'w \<Rightarrow> 'w) \<Rightarrow> loc \<Rightarrow> 'w \<Rightarrow> 'c wqueue \<Rightarrow> ('w \<times> 'c wqueue) option" where
  "zombie_loop gone func p w st =
     Option.bind (rd_loc p st) (\<lambda>q.
       case q of
         None \<Rightarrow> Some (w, st\<lparr>workQueueLast := p\<rparr>)
       | Some a \<Rightarrow>
           Option.bind (wq_heap st a) (\<lambda>nd.
             let z = (case fst (snd (wq_item nd)) of None \<Rightarrow> False | Some c \<Rightarrow> gone c) in
             Option.bind (after_call z p a st) (\<lambda>(p1, st1).
               zombie_loop gone func p1 (if z then func (wq_item nd) w else w) st1)))"

definition ProcessWorkQueueZombies ::
    "(nat \<Rightarrow> bool) \<Rightarrow> ('c work \<Rightarrow> 'w \<Rightarrow> 'w) \<Rightarrow> 'w \<Rightarrow> 'c wqueue \<Rightarrow> ('w \<times> 'c wqueue) option" where
  "ProcessWorkQueueZombies gone func = zombie_loop gone func Head"

section \<open>Lists in the heap\<close>

fun links :: "(addr \<Rightarrow> 'c WorkQueueRec option) \<Rightarrow> addr option \<Rightarrow> addr list \<Rightarrow> addr option \<Rightarrow> bool" where
  "links h x [] y \<longleftrightarrow> x = y"
| "links h x (a # as) y \<longleftrightarrow> x = Some a \<and> (\<exists>nd. h a = Some nd \<and> links h (wq_next nd) as y)"

definition end_loc :: "addr list \<Rightarrow> loc" where
  "end_loc as = (if as = [] then Head else NextOf (last as))"

definition wq_list :: "'c wqueue \<Rightarrow> addr list \<Rightarrow> bool" where
  "wq_list st as \<longleftrightarrow> links (wq_heap st) (workQueue st) as None \<and> distinct as"

definition wq_inv :: "'c wqueue \<Rightarrow> addr list \<Rightarrow> bool" where
  "wq_inv st as \<longleftrightarrow> wq_list st as \<and> workQueueLast st = end_loc as"

definition items :: "'c wqueue \<Rightarrow> addr list \<Rightarrow> 'c work list" where
  "items st as = map (\<lambda>a. wq_item (the (wq_heap st a))) as"

lemma links_append: "links h x (as @ bs) z \<longleftrightarrow> (\<exists>y. links h x as y \<and> links h y bs z)"
  by (induction as arbitrary: x) auto

lemma links_upd [simp]: "a \<notin> set as \<Longrightarrow> links (h(a := v)) x as y \<longleftrightarrow> links h x as y"
  by (induction as arbitrary: x) auto

lemma links_alloc: "links h x as y \<Longrightarrow> a \<in> set as \<Longrightarrow> h a \<noteq> None"
  by (induction as arbitrary: x) auto

lemma end_loc_simps [simp]: "end_loc [] = Head" "end_loc (as @ [a]) = NextOf a"
  by (simp_all add: end_loc_def)

lemma links_last: "as \<noteq> [] \<Longrightarrow> links h x as y \<Longrightarrow> \<exists>nd. h (last as) = Some nd \<and> wq_next nd = y"
  by (induction as arbitrary: x) auto

text \<open>Writing through the pointer behind a segment redirects it.\<close>

lemma wr_end_loc:
  assumes "links (wq_heap st) (workQueue st) as y" "distinct as"
  shows "\<exists>st'. wr_loc (end_loc as) v st = Some st' \<and> links (wq_heap st') (workQueue st') as v \<and>
    workQueueLast st' = workQueueLast st \<and> (\<forall>b. b \<notin> set as \<longrightarrow> wq_heap st' b = wq_heap st b) \<and>
    (\<forall>b. map_option wq_item (wq_heap st' b) = map_option wq_item (wq_heap st b))"
proof (cases as rule: rev_cases)
  case Nil
  then show ?thesis by (simp add: wr_loc_def)
next
  case (snoc bs a)
  obtain nd where nd: "wq_heap st a = Some nd" using assms(1) snoc by (auto simp: links_append)
  show ?thesis using assms snoc nd by (auto simp: wr_loc_def links_append)
qed

lemma rd_end_loc: "links (wq_heap st) (workQueue st) as y \<Longrightarrow> rd_loc (end_loc as) st = Some y"
  using links_last [of as "wq_heap st" "workQueue st" y] by (cases "as = []") (auto simp: rd_loc_def end_loc_def)

lemma items_append: "items st (as @ bs) = items st as @ items st bs"
  by (simp add: items_def)

lemma items_Nil [simp]: "items st [] = []"
  by (simp add: items_def)

lemma items_cong:
  assumes "\<forall>a \<in> set as. map_option wq_item (wq_heap st' a) = map_option wq_item (wq_heap st a)"
    "\<forall>a \<in> set as. wq_heap st a \<noteq> None"
  shows "items st' as = items st as"
  unfolding items_def
proof (rule map_cong [OF refl])
  fix a
  assume "a \<in> set as"
  with assms show "wq_item (the (wq_heap st' a)) = wq_item (the (wq_heap st a))"
    by (cases "wq_heap st a"; cases "wq_heap st' a") auto
qed

section \<open>One operation at a time\<close>

lemma wq_inv_alloc: "wq_list st as \<Longrightarrow> a \<in> set as \<Longrightarrow> wq_heap st a \<noteq> None"
  by (auto simp: wq_list_def dest: links_alloc)

lemma QueueWorkProc_appends:
  assumes "wq_inv st as" "wq_heap st q = None"
  shows "\<exists>st'. QueueWorkProc (Some q) item st = Some (True, st') \<and> wq_inv st' (as @ [q]) \<and>
    items st' (as @ [q]) = items st as @ [item]"
proof -
  let ?st = "st\<lparr>wq_heap := (wq_heap st)(q \<mapsto> \<lparr>wq_next = None, wq_item = item\<rparr>)\<rparr>"
  have q: "q \<notin> set as" using assms wq_inv_alloc [of st as q] by (auto simp: wq_inv_def)
  then have l: "links (wq_heap ?st) (workQueue ?st) as None" "distinct as"
    using assms(1) by (simp_all add: wq_inv_def wq_list_def)
  from wr_end_loc [OF l, of "Some q"] obtain st1 where
    st1: "wr_loc (end_loc as) (Some q) ?st = Some st1" "links (wq_heap st1) (workQueue st1) as (Some q)"
      "\<forall>b. b \<notin> set as \<longrightarrow> wq_heap st1 b = wq_heap ?st b"
      "\<forall>b. map_option wq_item (wq_heap st1 b) = map_option wq_item (wq_heap ?st b)" by blast
  have h: "wq_heap st1 q = Some \<lparr>wq_next = None, wq_item = item\<rparr>" using st1(3) q by simp
  have it: "items st1 as = items st as"
    using st1(4) q assms(1) by (intro items_cong) (auto simp: wq_inv_def dest: wq_inv_alloc)
  let ?st' = "st1\<lparr>workQueueLast := NextOf q\<rparr>"
  have "QueueWorkProc (Some q) item st = Some (True, ?st')"
    using st1(1) assms(1) by (simp add: QueueWorkProc_def wq_inv_def)
  moreover have "wq_inv ?st' (as @ [q])"
    using st1(2) h q l(2) by (simp add: wq_inv_def wq_list_def links_append)
  moreover have "items ?st' (as @ [q]) = items st as @ [item]" using it h by (simp add: items_def)
  ultimately show ?thesis by blast
qed

lemma after_call_removes:
  assumes "wq_list st (bs @ a # cs)"
  shows "\<exists>st'. after_call True (end_loc bs) a st = Some (end_loc bs, st') \<and> wq_list st' (bs @ cs) \<and>
    workQueueLast st' = workQueueLast st \<and> items st' (bs @ cs) = items st (bs @ cs) \<and>
    dom (wq_heap st') \<subseteq> dom (wq_heap st)"
proof -
  obtain nd where nd: "links (wq_heap st) (workQueue st) bs (Some a)" "wq_heap st a = Some nd"
    "links (wq_heap st) (wq_next nd) cs None" and d: "distinct (bs @ a # cs)"
    using assms by (auto simp: wq_list_def links_append)
  have db: "distinct bs" using d by simp
  from wr_end_loc [OF nd(1) db, of "wq_next nd"] obtain st1 where
    st1: "wr_loc (end_loc bs) (wq_next nd) st = Some st1" "links (wq_heap st1) (workQueue st1) bs (wq_next nd)"
      "workQueueLast st1 = workQueueLast st" "\<forall>b. b \<notin> set bs \<longrightarrow> wq_heap st1 b = wq_heap st b"
      "\<forall>b. map_option wq_item (wq_heap st1 b) = map_option wq_item (wq_heap st b)" by blast
  have c: "links (wq_heap st1) y cs z \<longleftrightarrow> links (wq_heap st) y cs z" for y z
    using st1(4) d
  proof (induction cs arbitrary: y)
    case (Cons x xs)
    then have "wq_heap st1 x = wq_heap st x" by auto
    then show ?case using Cons by auto
  qed simp
  have "wq_list (free_node a st1) (bs @ cs)"
    using st1(2) c nd(3) d by (auto simp: wq_list_def free_node_def links_append)
  moreover have "items (free_node a st1) (bs @ cs) = items st (bs @ cs)"
    using st1(5) d assms wq_inv_alloc [OF assms] by (intro items_cong) (auto simp: free_node_def)
  moreover have "dom (wq_heap (free_node a st1)) \<subseteq> dom (wq_heap st)"
  proof
    fix b
    assume "b \<in> dom (wq_heap (free_node a st1))"
    then have "wq_heap st1 b \<noteq> None" by (auto simp: free_node_def split: if_splits)
    then show "b \<in> dom (wq_heap st)" using st1(5) [rule_format, of b] by (cases "wq_heap st b") auto
  qed
  ultimately show ?thesis using nd(2) st1(1,3) by (simp add: after_call_def free_node_def)
qed

lemma rd_after:
  assumes "wq_list st (bs @ cs)"
  shows "rd_loc (end_loc bs) st = Some (case cs of [] \<Rightarrow> None | a # _ \<Rightarrow> Some a)"
proof -
  obtain y where "links (wq_heap st) (workQueue st) bs y" "links (wq_heap st) y cs None"
    using assms by (auto simp: wq_list_def links_append)
  then show ?thesis using rd_end_loc by (cases cs) auto
qed

section \<open>Two threads\<close>

text \<open>The main thread is idle or inside a function, with its pointers. The lists \<open>accepted\<close>, \<open>called\<close> and \<open>finished\<close>
  record what was queued, what was called, and the calls that returned true; \<open>kept\<close> says that some
  call returned false.\<close>

datatype wq_pc = Idle | Calling loc addr

record 'c wqsys =
  wq :: "'c wqueue"
  pc :: wq_pc
  accepted :: "'c work list"
  called :: "'c work list"
  finished :: "'c work list"
  kept :: bool

text \<open>The test of the loop: on to the next function, or out of the loop.\<close>

definition fetch :: "loc \<Rightarrow> 'c wqsys \<Rightarrow> 'c wqsys option" where
  "fetch p s = do {
     q \<leftarrow> rd_loc p (wq s);
     (case q of
        None \<Rightarrow> Some (s\<lparr>wq := (wq s)\<lparr>workQueueLast := p\<rparr>, pc := Idle\<rparr>)
      | Some a \<Rightarrow> do {
          nd \<leftarrow> wq_heap (wq s) a;
          Some (s\<lparr>pc := Calling p a, called := called s @ [wq_item nd]\<rparr>)
        })
   }"

text \<open>The sections that hold the lock: another thread, or the function that runs, queues work; the main
  thread enters \<open>ProcessWorkQueue\<close>; a function returns to it.\<close>

datatype 'c wq_event = Queue "addr option" "'c work" | Enter | Return bool

fun wq_exec :: "'c wq_event \<Rightarrow> 'c wqsys \<Rightarrow> 'c wqsys option" where
  "wq_exec (Queue m item) s = do {
     (ok, st) \<leftarrow> QueueWorkProc m item (wq s);
     Some (s\<lparr>wq := st, accepted := accepted s @ (if ok then [item] else [])\<rparr>)
   }"
| "wq_exec Enter s = fetch Head s"
| "wq_exec (Return ok) s =
     (case pc s of
        Idle \<Rightarrow> None
      | Calling p a \<Rightarrow> do {
          nd \<leftarrow> wq_heap (wq s) a;
          (p1, st) \<leftarrow> after_call ok p a (wq s);
          fetch p1 (s\<lparr>wq := st, finished := finished s @ (if ok then [wq_item nd] else []), kept := kept s \<or> \<not> ok\<rparr>)
        })"

fun wq_enabled :: "'c wq_event \<Rightarrow> 'c wqsys \<Rightarrow> bool" where
  "wq_enabled (Queue m item) s \<longleftrightarrow> (case m of None \<Rightarrow> True | Some a \<Rightarrow> wq_heap (wq s) a = None)"
| "wq_enabled Enter s \<longleftrightarrow> pc s = Idle"
| "wq_enabled (Return ok) s \<longleftrightarrow> pc s \<noteq> Idle"

inductive wq_reach :: "'c wqsys \<Rightarrow> 'c wqsys \<Rightarrow> bool" where
  start: "wq_reach s s"
| step: "wq_reach s s1 \<Longrightarrow> wq_enabled e s1 \<Longrightarrow> wq_exec e s1 = Some s2 \<Longrightarrow> wq_reach s s2"

definition wq0 :: "'c wqsys" where
  "wq0 = \<lparr>wq = \<lparr>wq_heap = \<lambda>a. None, workQueue = None, workQueueLast = Head\<rparr>, pc = Idle, accepted = [],
     called = [], finished = [], kept = False\<rparr>"

definition pc_ok :: "'c wqsys \<Rightarrow> addr list \<Rightarrow> bool" where
  "pc_ok s as \<longleftrightarrow>
     (case pc s of Idle \<Rightarrow> True
      | Calling p a \<Rightarrow> \<exists>bs cs. as = bs @ a # cs \<and> p = end_loc bs \<and> (\<not> kept s \<longrightarrow> bs = []))"

definition running :: "'c wqsys \<Rightarrow> 'c work list" where
  "running s = (case pc s of Idle \<Rightarrow> [] | Calling p a \<Rightarrow> [wq_item (the (wq_heap (wq s) a))])"

definition work_ok :: "'c wqsys \<Rightarrow> addr list \<Rightarrow> bool" where
  "work_ok s as \<longleftrightarrow>
     mset (accepted s) = mset (finished s) + mset (items (wq s) as) \<and> subseq (items (wq s) as) (accepted s) \<and>
     (\<not> kept s \<longrightarrow> accepted s = finished s @ items (wq s) as \<and> called s = finished s @ running s)"

definition sys_inv :: "'c wqsys \<Rightarrow> addr list \<Rightarrow> bool" where
  "sys_inv s as \<longleftrightarrow> wq_inv (wq s) as \<and> pc_ok s as \<and> work_ok s as"

text \<open>The loop test from a state in which the last pointer need not be right.\<close>

lemma fetch_inv:
  assumes "wq_list (wq s) (bs @ cs)" "cs \<noteq> [] \<Longrightarrow> workQueueLast (wq s) = end_loc (bs @ cs)"
    "\<not> kept s \<Longrightarrow> bs = []"
    "mset (accepted s) = mset (finished s) + mset (items (wq s) (bs @ cs))" "subseq (items (wq s) (bs @ cs)) (accepted s)"
    "\<not> kept s \<Longrightarrow> accepted s = finished s @ items (wq s) (bs @ cs) \<and> called s = finished s"
  shows "\<exists>s'. fetch (end_loc bs) s = Some s' \<and> sys_inv s' (bs @ cs)"
proof (cases cs)
  case Nil
  have "items ((wq s)\<lparr>workQueueLast := p\<rparr>) xs = items (wq s) xs" for p xs by (simp add: items_def)
  then show ?thesis using assms rd_after [OF assms(1)] Nil
    by (auto simp: fetch_def sys_inv_def wq_inv_def wq_list_def pc_ok_def work_ok_def running_def)
next
  case (Cons a cs')
  obtain nd where nd: "wq_heap (wq s) a = Some nd" using wq_inv_alloc [OF assms(1), of a] Cons by auto
  then have "fetch (end_loc bs) s = Some (s\<lparr>pc := Calling (end_loc bs) a, called := called s @ [wq_item nd]\<rparr>)"
    using rd_after [OF assms(1)] Cons by (simp add: fetch_def)
  moreover have "sys_inv (s\<lparr>pc := Calling (end_loc bs) a, called := called s @ [wq_item nd]\<rparr>) (bs @ cs)"
    using assms nd Cons by (auto simp: sys_inv_def wq_inv_def pc_ok_def work_ok_def running_def)
  ultimately show ?thesis by blast
qed

lemma items_eq_item: "items st' as = items st as \<Longrightarrow> a \<in> set as \<Longrightarrow> wq_item (the (wq_heap st' a)) = wq_item (the (wq_heap st a))"
  by (simp add: items_def)

lemma exec_queue:
  assumes "sys_inv s as" "wq_heap (wq s) q = None"
  shows "\<exists>s'. wq_exec (Queue (Some q) item) s = Some s' \<and> sys_inv s' (as @ [q])"
proof -
  obtain st where st: "QueueWorkProc (Some q) item (wq s) = Some (True, st)" "wq_inv st (as @ [q])"
    "items st (as @ [q]) = items (wq s) as @ [item]"
    using QueueWorkProc_appends [OF _ assms(2)] assms(1) unfolding sys_inv_def by blast
  let ?s = "s\<lparr>wq := st, accepted := accepted s @ [item]\<rparr>"
  have same: "items st as = items (wq s) as" using st(3) by (simp add: items_def)
  have "pc_ok ?s (as @ [q])"
  proof (cases "pc s")
    case (Calling p a)
    then obtain bs cs where "as = bs @ a # cs" "p = end_loc bs" "\<not> kept s \<longrightarrow> bs = []"
      using assms(1) by (auto simp: sys_inv_def pc_ok_def)
    then show ?thesis using Calling
      by (simp add: pc_ok_def) (rule exI [of _ bs], rule conjI, rule exI [of _ "cs @ [q]"], auto)
  qed (simp add: pc_ok_def)
  moreover have "running ?s = running s"
    using assms(1) items_eq_item [OF same] by (auto simp: sys_inv_def pc_ok_def running_def split: wq_pc.splits)
  ultimately show ?thesis using st assms(1)
    by (auto simp: sys_inv_def work_ok_def intro: list_emb_append_mono)
qed

lemma exec_return:
  assumes inv: "sys_inv s as" and pc: "pc s = Calling p a"
  shows "\<exists>s' as'. wq_exec (Return ok) s = Some s' \<and> sys_inv s' as'"
proof -
  obtain bs cs where as: "as = bs @ a # cs" "p = end_loc bs" "\<not> kept s \<longrightarrow> bs = []"
    using inv pc by (auto simp: sys_inv_def pc_ok_def)
  have l: "wq_list (wq s) (bs @ a # cs)" and last: "workQueueLast (wq s) = end_loc (bs @ a # cs)"
    and w: "work_ok s (bs @ a # cs)" using inv as(1) by (simp_all add: sys_inv_def wq_inv_def)
  obtain nd where nd: "wq_heap (wq s) a = Some nd" using wq_inv_alloc [OF l, of a] by auto
  have run: "running s = [wq_item nd]" using pc nd by (simp add: running_def)
  have it: "items (wq s) (bs @ a # cs) = items (wq s) bs @ wq_item nd # items (wq s) cs" using nd by (simp add: items_def)
  show ?thesis
  proof (cases ok)
    case True
    obtain st where st: "after_call True (end_loc bs) a (wq s) = Some (end_loc bs, st)" "wq_list st (bs @ cs)"
      "workQueueLast st = workQueueLast (wq s)" "items st (bs @ cs) = items (wq s) (bs @ cs)"
      using after_call_removes [OF l] by blast
    let ?s = "s\<lparr>wq := st, finished := finished s @ [wq_item nd], kept := kept s\<rparr>"
    have "subseq (items (wq s) (bs @ cs)) (items (wq s) (bs @ a # cs))"
      unfolding items_def by (intro subseq_map) (auto intro: list_emb_append_mono)
    then have "subseq (items st (bs @ cs)) (accepted s)"
      using st(4) w subseq_order.order_trans by (auto simp: work_ok_def)
    moreover have "mset (accepted s) = mset (finished ?s) + mset (items st (bs @ cs))"
      using w unfolding work_ok_def st(4) it by (simp add: items_append)
    moreover have "cs \<noteq> [] \<Longrightarrow> workQueueLast st = end_loc (bs @ cs)" using st(3) last by (simp add: end_loc_def)
    moreover have "accepted s = finished ?s @ items st (bs @ cs) \<and> called s = finished ?s" if "\<not> kept s"
      using that as(3) w run unfolding st(4) work_ok_def it by simp
    ultimately have "\<exists>s'. fetch (end_loc bs) ?s = Some s' \<and> sys_inv s' (bs @ cs)"
      using st(2) as(3) by (intro fetch_inv) simp_all
    then show ?thesis using True pc as(2) nd st(1) by auto
  next
    case False
    have "\<exists>s'. fetch (end_loc (bs @ [a])) (s\<lparr>kept := True\<rparr>) = Some s' \<and> sys_inv s' ((bs @ [a]) @ cs)"
      using l last w by (intro fetch_inv) (auto simp: work_ok_def)
    then show ?thesis using False pc nd by (auto simp: after_call_def)
  qed
qed

lemma exec_inv:
  assumes "sys_inv s as" "wq_enabled e s"
  shows "\<exists>s' as'. wq_exec e s = Some s' \<and> sys_inv s' as'"
proof (cases e)
  case (Queue m item)
  show ?thesis
  proof (cases m)
    case None
    then show ?thesis using Queue assms(1) by (auto simp: QueueWorkProc_def)
  next
    case (Some q)
    then have "wq_heap (wq s) q = None" using assms(2) Queue by simp
    from exec_queue [OF assms(1) this, of item] show ?thesis unfolding Queue Some by blast
  qed
next
  case Enter
  have "\<exists>s'. fetch (end_loc []) s = Some s' \<and> sys_inv s' ([] @ as)"
    using assms Enter by (intro fetch_inv) (auto simp: sys_inv_def wq_inv_def work_ok_def running_def)
  then show ?thesis using Enter by auto
next
  case (Return ok)
  then obtain p a where "pc s = Calling p a" using assms(2) by (cases "pc s") auto
  then show ?thesis using exec_return [OF assms(1)] Return by blast
qed

lemma wq0_inv: "sys_inv wq0 []"
  by (simp add: sys_inv_def wq0_def wq_inv_def wq_list_def pc_ok_def work_ok_def running_def items_def)

lemma reach_inv: "wq_reach s0 s \<Longrightarrow> s0 = wq0 \<Longrightarrow> \<exists>as. sys_inv s as"
proof (induction rule: wq_reach.induct)
  case (step s s1 e s2)
  then show ?case using exec_inv by fastforce
qed (use wq0_inv in blast)

text \<open>What is waiting, read off the heap.\<close>

definition waiting :: "'c wqueue \<Rightarrow> 'c work list \<Rightarrow> bool" where
  "waiting st ws \<longleftrightarrow> (\<exists>as. wq_inv st as \<and> items st as = ws)"

section \<open>A pass over the queue\<close>

text \<open>A function that does not queue work itself.\<close>

definition plain_func :: "('c work \<Rightarrow> 'w \<Rightarrow> bool \<times> 'w) \<Rightarrow> ('c, 'w) work_func" where
  "plain_func f = (\<lambda>item w st. case f item w of (ok, w1) \<Rightarrow> Some (ok, w1, st))"

fun pass :: "('c work \<Rightarrow> 'w \<Rightarrow> bool \<times> 'w) \<Rightarrow> 'c work list \<Rightarrow> 'w \<Rightarrow> 'w \<times> 'c work list" where
  "pass f [] w = (w, [])"
| "pass f (x # xs) w =
     (case f x w of (ok, w1) \<Rightarrow> case pass f xs w1 of (w2, rest) \<Rightarrow> (w2, if ok then rest else x # rest))"

lemma process_loop_pass:
  assumes "wq_list st (bs @ cs)"
  shows "\<exists>st' as. process_loop (plain_func f) (end_loc bs) w st = Some (fst (pass f (items st cs) w), st') \<and>
    wq_inv st' as \<and> items st' as = items st bs @ snd (pass f (items st cs) w) \<and> dom (wq_heap st') \<subseteq> dom (wq_heap st)"
  using assms
proof (induction cs arbitrary: bs w st)
  case Nil
  have i: "items (st\<lparr>workQueueLast := l\<rparr>) bs = items st bs" for l by (simp add: items_def)
  show ?case using Nil rd_after [of st bs "[]"]
    by (subst process_loop.simps) (auto simp: i items_def wq_inv_def wq_list_def intro!: exI [of _ bs])
next
  case (Cons a cs)
  obtain nd where nd: "wq_heap st a = Some nd" using wq_inv_alloc [OF Cons.prems, of a] by auto
  obtain ok w1 where f: "f (wq_item nd) w = (ok, w1)" by fastforce
  have it: "items st (a # cs) = wq_item nd # items st cs" using nd by (simp add: items_def)
  have loop: "process_loop (plain_func f) (end_loc bs) w st =
      Option.bind (after_call ok (end_loc bs) a st) (\<lambda>(p1, st2). process_loop (plain_func f) p1 w1 st2)"
    using rd_after [OF Cons.prems] nd f by (subst process_loop.simps) (simp add: plain_func_def)
  show ?case
  proof (cases ok)
    case True
    obtain st1 where st1: "after_call True (end_loc bs) a st = Some (end_loc bs, st1)" "wq_list st1 (bs @ cs)"
      "items st1 (bs @ cs) = items st (bs @ cs)" "dom (wq_heap st1) \<subseteq> dom (wq_heap st)"
      using after_call_removes [OF Cons.prems] by blast
    then have s: "items st1 bs = items st bs" "items st1 cs = items st cs" by (simp_all add: items_def)
    obtain st' as where "process_loop (plain_func f) (end_loc bs) w1 st1 = Some (fst (pass f (items st1 cs) w1), st')"
      "wq_inv st' as" "items st' as = items st1 bs @ snd (pass f (items st1 cs) w1)" "dom (wq_heap st') \<subseteq> dom (wq_heap st1)"
      using Cons.IH [OF st1(2), of w1] by blast
    then show ?thesis using loop st1(1,4) True f it s
      by (intro exI [of _ st'] exI [of _ as]) (auto split: prod.splits)
  next
    case False
    have "wq_list st ((bs @ [a]) @ cs)" using Cons.prems by simp
    from Cons.IH [OF this, of w1] show ?thesis using loop False f it nd
      by (auto simp: after_call_def items_append split: prod.splits) (auto simp: items_def)
  qed
qed

lemma ProcessWorkQueue_pass:
  assumes "waiting st ws"
  shows "\<exists>st'. ProcessWorkQueue (plain_func f) w st = Some (fst (pass f ws w), st') \<and> waiting st' (snd (pass f ws w)) \<and>
    dom (wq_heap st') \<subseteq> dom (wq_heap st)"
proof -
  obtain as where as: "wq_inv st as" "items st as = ws" using assms by (auto simp: waiting_def)
  then obtain st' as' where "process_loop (plain_func f) Head w st = Some (fst (pass f ws w), st')" "wq_inv st' as'"
    "items st' as' = snd (pass f ws w)" "dom (wq_heap st') \<subseteq> dom (wq_heap st)"
    using process_loop_pass [of st "[]" as f w] by (auto simp: wq_inv_def)
  then show ?thesis by (auto simp: ProcessWorkQueue_def waiting_def)
qed

lemma QueueWorkProc_waiting:
  assumes "waiting st ws" "wq_heap st q = None"
  shows "\<exists>st'. QueueWorkProc (Some q) item st = Some (True, st') \<and> waiting st' (ws @ [item])"
  using assms QueueWorkProc_appends [OF _ assms(2), of _ item] by (fastforce simp: waiting_def)

lemma pass_all_true:
  assumes "\<And>x w. fst (f x w)"
  shows "pass f xs w = (fold (\<lambda>x w. snd (f x w)) xs w, [])"
  using assms by (induction xs arbitrary: w) (auto split: prod.splits, metis fst_conv)

lemma zombie_loop_spec:
  assumes "wq_list st (bs @ cs)"
  shows "\<exists>st' as. zombie_loop gone f (end_loc bs) w st = Some (fst (pass (\<lambda>x w.
      let z = (case fst (snd x) of None \<Rightarrow> False | Some c \<Rightarrow> gone c) in (z, if z then f x w else w)) (items st cs) w), st') \<and>
    wq_inv st' as \<and> items st' as = items st bs @ filter (\<lambda>x. case fst (snd x) of None \<Rightarrow> True | Some c \<Rightarrow> \<not> gone c) (items st cs)"
  using assms
proof (induction cs arbitrary: bs w st)
  case Nil
  have i: "items (st\<lparr>workQueueLast := l\<rparr>) bs = items st bs" for l by (simp add: items_def)
  show ?case using Nil rd_after [of st bs "[]"]
    by (subst zombie_loop.simps) (auto simp: i wq_inv_def wq_list_def intro!: exI [of _ bs])
next
  case (Cons a cs)
  obtain nd where nd: "wq_heap st a = Some nd" using wq_inv_alloc [OF Cons.prems, of a] by auto
  define z where "z = (case fst (snd (wq_item nd)) of None \<Rightarrow> False | Some c \<Rightarrow> gone c)"
  have nz: "(case fst (snd (wq_item nd)) of None \<Rightarrow> True | Some c \<Rightarrow> \<not> gone c) = (\<not> z)" by (simp add: z_def split: option.split)
  have it: "items st (a # cs) = wq_item nd # items st cs" using nd by (simp add: items_def)
  have loop: "zombie_loop gone f (end_loc bs) w st = Option.bind (after_call z (end_loc bs) a st)
      (\<lambda>(p1, st1). zombie_loop gone f p1 (if z then f (wq_item nd) w else w) st1)"
    using rd_after [OF Cons.prems] nd by (subst zombie_loop.simps) (simp add: z_def)
  show ?case
  proof (cases z)
    case True
    obtain st1 where st1: "after_call True (end_loc bs) a st = Some (end_loc bs, st1)" "wq_list st1 (bs @ cs)"
      "items st1 (bs @ cs) = items st (bs @ cs)" using after_call_removes [OF Cons.prems] by blast
    then have s: "items st1 bs = items st bs" "items st1 cs = items st cs" by (simp_all add: items_def)
    show ?thesis using Cons.IH [OF st1(2), of "f (wq_item nd) w"] loop st1(1) True it s nz
      by (auto simp: z_def [symmetric] split: prod.splits)
  next
    case False
    have "wq_list st ((bs @ [a]) @ cs)" using Cons.prems by simp
    from Cons.IH [OF this, of w] show ?thesis using loop False it nd nz
      by (auto simp: after_call_def items_append z_def [symmetric] split: prod.splits) (auto simp: items_def)
  qed
qed

lemma clear_loop_empties:
  assumes "wq_list st as"
  shows "\<exists>st'. clear_loop st = Some st' \<and> wq_inv st' [] \<and> (\<forall>a \<in> set as. wq_heap st' a = None) \<and>
    (\<forall>a. wq_heap st' a \<noteq> None \<longrightarrow> wq_heap st a \<noteq> None)"
  using assms
proof (induction as arbitrary: st)
  case Nil
  then show ?case by (subst clear_loop.simps) (simp add: wq_list_def wq_inv_def)
next
  case (Cons a as)
  obtain nd where nd: "workQueue st = Some a" "wq_heap st a = Some nd" "links (wq_heap st) (wq_next nd) as None"
    "distinct (a # as)" using Cons.prems by (auto simp: wq_list_def)
  let ?st = "free_node a (st\<lparr>workQueue := wq_next nd\<rparr>)"
  have "wq_list ?st as" using nd by (simp add: wq_list_def free_node_def)
  from Cons.IH [OF this] obtain st' where "clear_loop ?st = Some st'" "wq_inv st' []" "\<forall>b \<in> set as. wq_heap st' b = None"
    "\<forall>b. wq_heap st' b \<noteq> None \<longrightarrow> wq_heap ?st b \<noteq> None" by blast
  moreover have "clear_loop st = clear_loop ?st" using nd by (subst clear_loop.simps) simp
  moreover have "wq_heap ?st a = None" "\<And>b. wq_heap ?st b \<noteq> None \<Longrightarrow> wq_heap st b \<noteq> None"
    by (auto simp: free_node_def split: if_splits)
  ultimately show ?case by (metis set_ConsD)
qed

section \<open>Sleeping clients\<close>

record 'c SleepQueueRec =
  sq_client :: nat
  sq_function :: nat
  sq_closure :: 'c

record 'c sleepers =
  sleepQueue :: "'c SleepQueueRec list"
  ignored :: "nat list"
  sl_wq :: "'c wqueue"

text \<open>\<open>IgnoreClient\<close> and \<open>AttendClient\<close> count: a client is attended to when it is not on the list \<open>ignored\<close>.\<close>

definition ClientSleep :: "bool \<Rightarrow> nat \<Rightarrow> nat \<Rightarrow> 'c \<Rightarrow> 'c sleepers \<Rightarrow> bool \<times> 'c sleepers" where
  "ClientSleep ok client function closure s =
     (if \<not> ok then (False, s)
      else (True, s\<lparr>ignored := client # ignored s,
        sleepQueue := \<lparr>sq_client = client, sq_function = function, sq_closure = closure\<rparr> # sleepQueue s\<rparr>))"

definition sleep_item :: "'c SleepQueueRec \<Rightarrow> 'c work" where
  "sleep_item q = (sq_function q, Some (sq_client q), sq_closure q)"

definition ClientSignal :: "addr option \<Rightarrow> nat \<Rightarrow> 'c sleepers \<Rightarrow> (bool \<times> 'c sleepers) option" where
  "ClientSignal m client s =
     (case find (\<lambda>q. sq_client q = client) (sleepQueue s) of
        None \<Rightarrow> Some (False, s)
      | Some q \<Rightarrow> map_option (\<lambda>(ok, st). (ok, s\<lparr>sl_wq := st\<rparr>)) (QueueWorkProc m (sleep_item q) (sl_wq s)))"

text \<open>\<open>None\<close> stands for \<open>CLIENT_SIGNAL_ANY\<close>; \<open>ms\<close> are the results of \<open>malloc\<close>, one for each element of the queue.\<close>

definition signals :: "nat option \<Rightarrow> nat option \<Rightarrow> 'c option \<Rightarrow> 'c SleepQueueRec \<Rightarrow> bool" where
  "signals client function closure q \<longleftrightarrow>
     (client = None \<or> client = Some (sq_client q)) \<and> (function = None \<or> function = Some (sq_function q)) \<and>
     (closure = None \<or> closure = Some (sq_closure q))"

fun signal_loop :: "('c SleepQueueRec \<times> addr option) list \<Rightarrow> ('c SleepQueueRec \<Rightarrow> bool) \<Rightarrow> nat \<Rightarrow> 'c wqueue \<Rightarrow> (nat \<times> 'c wqueue) option" where
  "signal_loop [] p n st = Some (n, st)"
| "signal_loop ((q, m) # qs) p n st =
     (if p q then do {
        (ok, st1) \<leftarrow> QueueWorkProc m (sleep_item q) st;
        signal_loop qs p (if ok then Suc n else n) st1
      }
      else signal_loop qs p n st)"

definition ClientSignalAll ::
    "addr option list \<Rightarrow> nat option \<Rightarrow> nat option \<Rightarrow> 'c option \<Rightarrow> 'c sleepers \<Rightarrow> (nat \<times> 'c sleepers) option" where
  "ClientSignalAll ms client function closure s =
     map_option (\<lambda>(n, st). (n, s\<lparr>sl_wq := st\<rparr>))
       (signal_loop (zip (sleepQueue s) ms) (signals client function closure) 0 (sl_wq s))"

fun wake_first :: "nat \<Rightarrow> 'c SleepQueueRec list \<Rightarrow> 'c SleepQueueRec list option" where
  "wake_first client [] = None"
| "wake_first client (q # qs) = (if sq_client q = client then Some qs else map_option ((#) q) (wake_first client qs))"

definition ClientWakeup :: "nat \<Rightarrow> 'c sleepers \<Rightarrow> 'c sleepers" where
  "ClientWakeup client s =
     (case wake_first client (sleepQueue s) of
        None \<Rightarrow> s
      | Some qs \<Rightarrow> s\<lparr>sleepQueue := qs, ignored := remove1 client (ignored s)\<rparr>)"

definition ClientIsAsleep :: "nat \<Rightarrow> 'c sleepers \<Rightarrow> bool" where
  "ClientIsAsleep client s \<longleftrightarrow> (\<exists>q \<in> set (sleepQueue s). sq_client q = client)"

lemma wake_first_mset:
  "case wake_first c qs of None \<Rightarrow> c \<notin> sq_client ` set qs
   | Some rs \<Rightarrow> mset (map sq_client qs) = add_mset c (mset (map sq_client rs))"
  by (induction qs) (auto split: option.splits if_splits)

lemma wakeup_balance:
  assumes "mset (ignored s) = mset (map sq_client (sleepQueue s))"
  shows "mset (ignored (ClientWakeup c s)) = mset (map sq_client (sleepQueue (ClientWakeup c s)))"
    and "mset (ignored (snd (ClientSleep ok c f x s))) = mset (map sq_client (sleepQueue (snd (ClientSleep ok c f x s))))"
  using assms wake_first_mset [of c "sleepQueue s"]
  by (auto simp: ClientWakeup_def ClientSleep_def split: option.splits)

section \<open>Deferred work\<close>

fun defer_all :: "('i \<Rightarrow> 's \<Rightarrow> 's option) \<Rightarrow> 'i list \<Rightarrow> 's \<Rightarrow> 's option" where
  "defer_all df [] s = Some s"
| "defer_all df (x # xs) s = Option.bind (df x s) (defer_all df xs)"

text \<open>What those who defer work rely on: it is done later, in order, and once.\<close>

locale deferred =
  fixes wait :: "'s \<Rightarrow> 'i list \<Rightarrow> bool" and df :: "'i \<Rightarrow> 's \<Rightarrow> 's option"
    and drain :: "('i \<Rightarrow> 'w \<Rightarrow> 'w) \<Rightarrow> 'w \<Rightarrow> 's \<Rightarrow> ('w \<times> 's) option"
  assumes defer_law: "wait s xs \<Longrightarrow> \<exists>s'. df x s = Some s' \<and> wait s' (xs @ [x])"
    and drain_law: "wait s xs \<Longrightarrow> \<exists>s'. drain f w s = Some (fold f xs w, s') \<and> wait s' []"
begin

lemma defer_all_waits: "wait s xs \<Longrightarrow> \<exists>s'. defer_all df ys s = Some s' \<and> wait s' (xs @ ys)"
proof (induction ys arbitrary: s xs)
  case (Cons y ys)
  obtain s1 where "df y s = Some s1" "wait s1 (xs @ [y])" using defer_law [OF Cons.prems] by blast
  then show ?case using Cons.IH [of s1 "xs @ [y]"] by simp
qed simp

lemma deferred_done:
  assumes "wait s []"
  shows "\<exists>s'. Option.bind (defer_all df xs s) (drain f w) = Some (fold f xs w, s') \<and> wait s' []"
  using defer_all_waits [OF assms, of xs] drain_law by fastforce

end

text \<open>An allocator that always finds room, and functions that always return true.\<close>

definition alloc_work :: "'c wqueue \<Rightarrow> addr" where
  "alloc_work st = Suc (Max (insert 0 (dom (wq_heap st))))"

definition queue_work :: "'c work \<Rightarrow> 'c wqueue \<Rightarrow> 'c wqueue option" where
  "queue_work item st = map_option snd (QueueWorkProc (Some (alloc_work st)) item st)"

definition run_work :: "('c work \<Rightarrow> 'w \<Rightarrow> 'w) \<Rightarrow> 'w \<Rightarrow> 'c wqueue \<Rightarrow> ('w \<times> 'c wqueue) option" where
  "run_work f = ProcessWorkQueue (plain_func (\<lambda>x w. (True, f x w)))"

definition work_waits :: "'c wqueue \<Rightarrow> 'c work list \<Rightarrow> bool" where
  "work_waits st ws \<longleftrightarrow> waiting st ws \<and> finite (dom (wq_heap st))"

lemma alloc_work_free:
  assumes "finite (dom (wq_heap st))"
  shows "wq_heap st (alloc_work st) = None"
proof (rule ccontr)
  assume "wq_heap st (alloc_work st) \<noteq> None"
  then have "alloc_work st \<le> Max (insert 0 (dom (wq_heap st)))" using assms by (intro Max_ge) auto
  then show False by (simp add: alloc_work_def)
qed

lemma QueueWorkProc_dom:
  assumes "QueueWorkProc (Some q) item st = Some (ok, st')"
  shows "dom (wq_heap st') \<subseteq> insert q (dom (wq_heap st))"
  using assms
  by (auto simp: QueueWorkProc_def wr_loc_def bind_eq_Some_conv split: loc.splits option.splits if_splits)

interpretation work: deferred work_waits queue_work run_work
proof unfold_locales
  fix st ws x
  assume w: "work_waits st ws"
  obtain st' where st': "QueueWorkProc (Some (alloc_work st)) x st = Some (True, st')" "waiting st' (ws @ [x])"
    using QueueWorkProc_waiting [of st ws "alloc_work st" x] alloc_work_free [of st] w by (auto simp: work_waits_def)
  then show "\<exists>s'. queue_work x st = Some s' \<and> work_waits s' (ws @ [x])"
    using w QueueWorkProc_dom [OF st'(1)] finite_subset by (auto simp: queue_work_def work_waits_def)
next
  fix st :: "'c wqueue" and ws and f :: "'c work \<Rightarrow> 'w \<Rightarrow> 'w" and w
  assume wt: "work_waits st ws"
  have "pass (\<lambda>x w. (True, f x w)) ws w = (fold f ws w, [])" using pass_all_true [of "\<lambda>x w. (True, f x w)"] by simp
  then show "\<exists>s'. run_work f w st = Some (fold f ws w, s') \<and> work_waits s' []"
    using ProcessWorkQueue_pass [of st ws "\<lambda>x w. (True, f x w)" w] wt finite_subset
    by (fastforce simp: run_work_def work_waits_def)
qed

section \<open>Properties\<close>

text \<open>C41: However the input thread and work functions queue work while the main thread works the queue off,
  no freed element is ever used, all work accepted is either finished or still waiting, in the order in
  which it was accepted, and when every function returns true each is called exactly once, in that order.\<close>

theorem work_queue_threads:
  assumes "wq_reach wq0 s" and "wq_enabled e s"
  shows "\<exists>s' ws. wq_exec e s = Some s' \<and> waiting (wq s') ws \<and>
    mset (accepted s') = mset (finished s') + mset ws \<and> subseq ws (accepted s') \<and>
    (\<not> kept s' \<longrightarrow> accepted s' = finished s' @ ws \<and> called s' = finished s' @ running s')"
proof -
  obtain as where "sys_inv s as" using reach_inv [OF assms(1)] by blast
  then obtain s' as' where "wq_exec e s = Some s'" "sys_inv s' as'" using exec_inv [OF _ assms(2)] by blast
  then show ?thesis by (auto simp: sys_inv_def work_ok_def waiting_def)
qed

definition wq1 :: "nat wqsys" where
  "wq1 = the (Option.bind (wq_exec (Queue (Some 5) (1, None, 10)) wq0) (wq_exec Enter))"

lemma wq1_reach: "wq_reach wq0 wq1"
proof -
  let ?s = "the (wq_exec (Queue (Some 5) (1, None, 10)) wq0)"
  have "wq_exec (Queue (Some 5) (1, None, 10)) wq0 = Some ?s"
    by (simp add: QueueWorkProc_def wr_loc_def wq0_def)
  then have "wq_reach wq0 ?s" by (rule wq_reach.step [OF wq_reach.start, rotated]) (simp add: wq0_def)
  moreover have "wq_enabled Enter ?s" "wq_exec Enter ?s = Some wq1"
    by (simp_all add: wq1_def QueueWorkProc_def wr_loc_def wq0_def fetch_def rd_loc_def)
  ultimately show ?thesis by (rule wq_reach.step)
qed

text \<open>Work queued while the last function of the queue runs is called next.\<close>

theorem work_queue_threads_witness:
  "\<exists>s'. wq_exec (Queue (Some 7) (2, None, 20)) wq1 = Some s' \<and> waiting (wq s') [(1, None, 10), (2, None, 20)]"
proof -
  have "wq_enabled (Queue (Some 7) (2, None, 20)) wq1"
    by (simp add: wq1_def QueueWorkProc_def wr_loc_def wq0_def fetch_def rd_loc_def)
  from work_queue_threads [OF wq1_reach this] obtain s' ws where
    s': "wq_exec (Queue (Some 7) (2, None, 20)) wq1 = Some s'" "waiting (wq s') ws"
      "\<not> kept s' \<longrightarrow> accepted s' = finished s' @ ws" by blast
  moreover have "kept s' = False" "finished s' = []" "accepted s' = [(1, None, 10), (2, None, 20)]"
    using s'(1) by (auto simp: wq1_def QueueWorkProc_def wr_loc_def wq0_def fetch_def rd_loc_def)
  ultimately show ?thesis by auto
qed

end
