(* ===== verification/Spec2Isabelle.thy ===== *)
theory Spec2Isabelle
  imports Clipboard GpuCopy Shmem ResourceIds ResourceFree EventProps WorkQueue
begin

text \<open>
  \<^bold>\<open>The program.\<close> The repository holds a terminal and an X11 server for Android. This development covers
  native code of the X server (\<open>src/termux-x11/lorie/src/main/cpp\<close>): the driver in \<open>lorie/\<close>, which joins
  the server to Android, and the parts of \<open>xserver/dix\<close> it works with. Clients store window properties
  and own selections, named by atoms; the clipboard code owns or watches the selection CLIPBOARD and
  carries text between X clients and Android. Pictures live in counted buffers, which the server hands
  to the renderer, another process, over a socket; the server also queues copies between buffers in
  shared memory for the renderer to do. Clients share memory through System V calls that the driver
  implements itself. Everything a client creates is a resource with an identifier, found in a hash table
  of its client. The activity, the part of the program with the screen and the keyboard, sends input and
  its clipboard to the server as events over a socket and is sent the clipboard of the clients.

  \<^bold>\<open>Theories and sources.\<close>
  \<^item> \<open>Prelude\<close>: machine words, status codes, arrays with bounds (\<open>rd\<close>, \<open>wr\<close>), C strings.
  \<^item> \<open>XList\<close>: \<open>xserver/include/list.h\<close>. A heap of next and previous pointers; \<open>xl_list\<close> relates a list
    head to the HOL list of its nodes. The locale \<open>intrusive_list\<close> is what users of the lists rely on.
  \<^item> \<open>Atoms\<close>: \<open>xserver/dix/atom.c\<close>, \<open>initatoms.c\<close>. The search tree and the growing table; locale \<open>interning\<close>.
  \<^item> \<open>Dix\<close>: server state, clock, window lookup and output used by the request handlers.
  \<^item> \<open>Property\<close>: \<open>xserver/dix/property.c\<close>, every request handler; locale \<open>keyed\<close> for association lists.
  \<^item> \<open>Selection\<close>: \<open>xserver/dix/selection.c\<close>; locale \<open>sel_callback\<close> is what the handlers rely on in the
    callbacks they call, discharged for the clipboard in \<open>Clipboard\<close>.
  \<^item> \<open>ByteClass\<close>, \<open>TextConv\<close>: the conversions of \<open>lorie/clipboard.c\<close> between UTF-8, Latin-1 and line ends.
  \<^item> \<open>Clipboard\<close>: the rest of \<open>lorie/clipboard.c\<close>; its state extends the record of \<open>Dix\<close>.
  \<^item> \<open>Buffer\<close>, \<open>BufferProps\<close>: \<open>lorie/buffer.c\<close>, \<open>buffer.h\<close>. Structures, memory blocks, mappings,
    descriptors and hardware buffers are explicit stores, so leaks and use after free are visible.
  \<^item> \<open>GpuQueue\<close>: the ring of \<open>struct lorie_shared_server_state\<close> (\<open>lorie.h\<close>) with both processes as step
    relations; locale \<open>bounded_queue\<close>.
  \<^item> \<open>GpuCopy\<close>: pixmaps, flips and the scheduling of copies in \<open>lorie/InitOutput.c\<close>, and the buffer lists
    and copy loop of \<open>lorie/renderer.cpp\<close>.
  \<^item> \<open>Shmem\<close>: \<open>lorie/shm/shmem.c\<close>. The segment table, identifiers and the four calls; \<open>shm_step\<close> is any
    call or a fork.
  \<^item> \<open>Resource\<close>: \<open>xserver/dix/resource.c\<close>. Types, identifiers, the hash tables and all operations on them; the
    functions that delete a resource are a parameter and may change the tables meanwhile. \<open>ResourceProps\<close>
    has the invariant (\<open>db_inv\<close>) and the view of the tables as stacks, \<open>ResourceIds\<close> the search for free
    identifiers, \<open>ResourceFree\<close> the operations that free.
  \<^item> \<open>Touch\<close>: \<open>handleTouchEvent\<close> of \<open>lorie/cmdentrypoint.cpp\<close> with the touch points of \<open>xserver/dix/touch.c\<close> and the
    events of \<open>GetTouchEvents\<close> (\<open>getevents.c\<close>).
  \<^item> \<open>Events\<close>, \<open>EventProps\<close>: the layout of \<open>lorieEvent\<close> (\<open>lorie.h\<close>), the calls of \<open>lorie/activity.cpp\<close> that send, and the
    two readers \<open>handleLorieEvents\<close> and \<open>xcallback\<close>; locale \<open>framing\<close> is what both loops have in common.
  \<^item> This theory: statements that join the clipboard or the touch screen with the socket.

  \<^bold>\<open>What is shown.\<close> Property requests refine a map from names to values, rotation is a rotation, reading in
  chunks gives the whole value, and a delete on read removes only what was read to its end. A selection
  request is always answered, ownership follows the requests, and clipboard text reaches Android as the
  client wrote it. The conversions are right on all valid text; the check of UTF-8 reads one cell beyond
  text that fills its array, and the conversion to Latin-1 reads beyond text cut inside a character. Atoms are unique and permanent. The ring is a queue in
  every interleaving, a copy reported as done was taken, and the renderer can always catch up;
  scheduling and acknowledging leaves counts as they were. Buffers are freed by the last release only,
  allocation is all or nothing but for one leak, and conversion keeps the picture. Shared memory calls
  keep table, descriptors and mappings in agreement. Resources form one stack for each identifier and type,
  across the growth of the tables; freeing ends and frees each resource once although delete functions free
  others, given that these only remove resources (\<open>removing\<close>) or leave the tables alone (\<open>quiet_del\<close>);
  identifiers handed out are free. The server acts on the events of the activity as they were sent, once they have arrived; its
  touches stay well formed and follow the fingers, and its buttons follow the stylus. Statements of kind \<open>error\<close> prove behaviour that
  the code should not have: they say exactly when it occurs.

  \<^bold>\<open>Conventions.\<close> A function that may read or write out of bounds, use freed memory, or stop the server
  has an option result, and \<open>None\<close> is that event. Failing allocations and system calls are drawn from
  a list of outcomes in the state (\<open>mallocs\<close>, \<open>calls\<close>, \<open>sc_ok\<close>); when it is used up, calls succeed. As the
  list is any finite list, a statement for all states covers every pattern of finitely many failures;
  a failure that never ends is a separate flag where it matters (\<open>tmp_writable\<close>). Access control, the
  graphics allocator, blitting, other processes and the kernel are parameters.

  \<^bold>\<open>Loops and fuel.\<close> Loops over arrays are functions with a measure. The walk over an intrusive list has
  fuel, which the lemmas of \<open>XList\<close> show to suffice for every well-formed list. The loops of \<open>Resource\<close> around
  delete functions and the search for a free touch point are partial functions; \<open>FreeResource_ends\<close>,
  \<open>FreeClientResources_each\<close> and \<open>begin_loop_ends\<close> show that they return. \<open>claim_key\<close> of \<open>Shmem\<close> may
  run forever and is a partial function; \<open>shmget_key_returns\<close> says when it returns.

  \<^bold>\<open>Not modelled.\<close> Screen set-up, RandR, cursor, vblank timer, DRI3 import and GLX in \<open>InitOutput.c\<close>; GL
  drawing, surfaces and the thread loop of the renderer; the keyboard maps of \<open>InputXKB.c\<close> and the delivery
  of events to windows; loss of the connection, reads between two writes of one message, and threads of the
  activity writing to the socket at the same time; estimates of memory use in \<open>resource.c\<close>; \<open>errno\<close> and the mutex of \<open>shmem.c\<close>. The terminal emulator
  and the other applications, in Java, are programs of their own. The rest of the X server and the vendored
  libraries are upstream code. Weak memory effects on the shared ring are not modelled: each step is atomic.
\<close>

section \<open>The clipboard up to the activity\<close>

text \<open>What \<open>lorieSendClipboardData\<close> and \<open>lorieRequestClipboard\<close> write.\<close>

fun conn_bytes :: "connEvent \<Rightarrow> byte list" where
  "conn_bytes (ClipboardSend data) = clipboard_bytes data"
| "conn_bytes ClipboardRequest = encode EVENT_CLIPBOARD_REQUEST"

lemma latin1_utf8_facts:
  assumes "nul_free d"
  shows "nul_free (utf8 (map unat (d :: byte list)))" "d \<noteq> [] \<Longrightarrow> utf8 (map unat d) \<noteq> []"
proof -
  have "list_all scalar (map unat d)"
    using assms by (auto simp: list_all_iff nul_free_def intro!: unat_scalar(1))
  then show "nul_free (utf8 (map unat d))" by (rule utf8_nul_free)
  show "utf8 (map unat d) \<noteq> []" if "d \<noteq> []"
    using that utf8_enc_length(1) [of "unat (hd d)"] by (cases d) (auto simp: utf8_simps)
qed

text \<open>C7: When the owner of CLIPBOARD has stored its text as STRING and says so, what the server writes to
  the socket makes the activity set its clipboard to the UTF-8 encoding of that text without carriage returns.\<close>

theorem clipboard_reaches_activity:
  assumes "props_inv st" and "clipboardEnabled st" and "clip.connected st"
    and "xaSTRING st \<noteq> xaTARGETS st" and "nul_free d"
    and "wmap (rootId st) st (xaSTRING st) = Some (xaSTRING st, 8, d)"
    and "filter (\<lambda>c. c \<noteq> 13) d \<noteq> []" and "length d < 2 ^ 31 - 1"
  shows "\<exists>st1 sent. lorieProcSendEvent allow slack orig (sel_notify (xaSTRING st) st) st = Some (orig st1) \<and>
    connOut st1 = connOut st @ sent \<and>
    receive recv (concat (map conn_bytes sent)) s = s @ [setClipboardText (utf8 (map unat (filter (\<lambda>c. c \<noteq> 13) d)))]"
proof -
  let ?ys = "filter (\<lambda>c. c \<noteq> 13) d" and ?t = "utf8 (map unat (filter (\<lambda>c. c \<noteq> 13) d))"
  have nf: "nul_free ?ys" using assms(5) by (simp add: nul_free_def)
  have "length ?ys < 2 ^ 31 - 1" by (rule le_less_trans [OF length_filter_le assms(8)])
  then have "length ?t < 2 ^ 32 - 1" using utf8_latin1_length [of ?ys] by simp
  then have "receive recv (clipboard_bytes ?t @ []) s = receive recv (drop 1 []) (s @ [setClipboardText ?t])"
    by (intro receive_clipboard_bytes latin1_utf8_facts [OF nf] assms(7))
  then have "receive recv (concat (map conn_bytes [ClipboardSend ?t])) s = s @ [setClipboardText ?t]"
    by (simp add: receive.simps [of recv "[]"])
  then show ?thesis using string_to_android [OF assms(1-6), of slack orig] by blast
qed

theorem clipboard_reaches_activity_witness:
  "\<exists>st1 sent. lorieProcSendEvent allow [] (\<lambda>s. (Success, s))
      (sel_notify 31 (clip0 [string_prop [0x41, 13]])) (clip0 [string_prop [0x41, 13]]) = Some (Success, st1) \<and>
    connOut st1 = sent \<and> receive length (concat (map conn_bytes sent)) [] = [setClipboardText (utf8 [0x41])]"
  using clipboard_reaches_activity [of "clip0 [string_prop [0x41, 13]]" "[0x41, 13]" "[]"
      "\<lambda>s. (Success, s)" length "[]"] clip0_inv [of "[0x41, 13]"]
  by (simp add: clip0_def)

section \<open>Fingers on the touch screen\<close>

definition sent_touches :: "message list \<Rightarrow> touch_event list" where
  "sent_touches ms = concat (map (touch_sent \<circ> fst) ms)"

text \<open>The reader does not act on some events itself but queues work; the functions are numbered.\<close>

fun work_number :: "server_call \<Rightarrow> nat option" where
  "work_number (Work_lorieConfigureNotify _ _ _ _) = Some 0"
| "work_number (Work_handleTouchEvent _) = Some 1"
| "work_number Work_lorieHandleClipboardAnnounce = Some 2"
| "work_number (Work_lorieHandleClipboardData _) = Some 3"
| "work_number Work_lorieRecheckGpuCopies = Some 4"
| "work_number (Work_lorieSyncLockKeysState _) = Some 5"
| "work_number _ = None"

definition queued_work :: "lorie_server \<Rightarrow> server_call work list" where
  "queued_work s =
     map (\<lambda>c. (the (work_number c), None, c)) (filter (\<lambda>c. work_number c \<noteq> None) (server_calls s))"

text \<open>What the work does to the touch screen. \<open>resize\<close> is what work other than that of touches makes of the
  size of the screen.\<close>

fun touch_func ::
    "(server_call \<Rightarrow> nat \<times> nat \<Rightarrow> nat \<times> nat) \<Rightarrow> server_call work \<Rightarrow> touchdev option \<Rightarrow> touchdev option" where
  "touch_func resize (_, _, Work_handleTouchEvent e) d = Option.bind d (handleTouchEvent e)"
| "touch_func resize (_, _, c) d =
     map_option (\<lambda>d. case resize c (scr_width d, scr_height d) of (w, h) \<Rightarrow> d\<lparr>scr_width := w, scr_height := h\<rparr>) d"

lemma touch_func_other:
  assumes "touch_work c = []" "touch_inv d" "device_ready d"
  shows "\<exists>d'. touch_func resize (n, cl, c) (Some d) = Some d' \<and> touch_inv d' \<and> device_ready d' \<and>
    fingers d' = fingers d \<and> next_client_id d' = next_client_id d"
  using assms by (cases c) (auto simp: touch_inv_def device_ready_def fingers_def split: prod.splits)

lemma touch_func_touch:
  assumes "touch_inv d" "device_ready d" "unat (next_client_id d) < 2 ^ 31 - 1"
  shows "\<exists>d'. handleTouchEvent e d = Some d' \<and> touch_inv d' \<and> device_ready d' \<and>
    fingers d' = finger_step e (fingers d) \<and> unat (next_client_id d') \<le> Suc (unat (next_client_id d))"
proof -
  have n: "next_client_id d \<noteq> - 1" using assms(3) by (auto simp: unsigned_minus_1_eq_mask mask_eq_exp_minus_1)
  obtain d' where "handleTouchEvent e d = Some d'" "queue_step d d' (finger_step e (fingers d))"
    using handleTouchEvent_step [OF assms(1) n] by blast
  then show ?thesis using assms(2) device_ready_same word_succ(2) [OF n] by (auto simp: queue_step_def)
qed

lemma touch_work_done:
  assumes "touch_inv d" "device_ready d" "unat (next_client_id d) + length (concat (map (touch_work \<circ> snd \<circ> snd) ws)) < 2 ^ 31"
  shows "\<exists>d'. fold (touch_func resize) ws (Some d) = Some d' \<and>
    fingers d' = fold finger_step (concat (map (touch_work \<circ> snd \<circ> snd) ws)) (fingers d)"
  using assms
proof (induction ws arbitrary: d)
  case (Cons w ws)
  obtain n cl c where w: "w = (n, cl, c)" by (cases w)
  show ?case
  proof (cases "\<exists>e. c = Work_handleTouchEvent e")
    case True
    then obtain e where c: "c = Work_handleTouchEvent e" by blast
    obtain d1 where d1: "handleTouchEvent e d = Some d1" "touch_inv d1" "device_ready d1"
      "fingers d1 = finger_step e (fingers d)" "unat (next_client_id d1) \<le> Suc (unat (next_client_id d))"
      using touch_func_touch [OF Cons.prems(1,2), of e] Cons.prems(3) w c by auto
    have "unat (next_client_id d1) + length (concat (map (touch_work \<circ> snd \<circ> snd) ws)) < 2 ^ 31"
      using d1(5) Cons.prems(3) w c by (simp add: comp_def)
    then show ?thesis using Cons.IH [OF d1(2,3)] d1(1,4) w c by (simp add: comp_def)
  next
    case False
    then have c: "touch_work c = []" by (cases c) auto
    obtain d1 where "touch_func resize w (Some d) = Some d1" "touch_inv d1" "device_ready d1"
      "fingers d1 = fingers d" "next_client_id d1 = next_client_id d"
      using touch_func_other [OF c Cons.prems(1,2)] w by blast
    then show ?thesis using Cons.IH [of d1] Cons.prems(3) w c by (simp add: comp_def)
  qed
qed simp

lemma queued_touches: "concat (map (touch_work \<circ> snd \<circ> snd) (queued_work s)) = touches_of s"
proof -
  have "concat (map (touch_work \<circ> snd \<circ> snd) (map (\<lambda>c. (the (work_number c), None, c))
      (filter (\<lambda>c. work_number c \<noteq> None) cs))) = concat (map touch_work cs)" for cs
  proof (induction cs)
    case (Cons c cs)
    then show ?case by (cases c) simp_all
  qed simp
  then show ?thesis by (simp add: queued_work_def touches_of_def)
qed

text \<open>C4: After the server has read whatever the activity sent, has queued the work it gave and has worked the
  queue off, the queue is empty and the fingers the server holds to be down are those put down or moved and
  not lifted since, according to the touches sent.\<close>

theorem touches_end_to_end:
  fixes calls :: "activity_call list" and mb :: "byte list \<Rightarrow> (u32 \<times> nat) option" and km :: "int \<Rightarrow> int"
  defines "ms \<equiv> concat (map (activity_send mb km) calls)"
  assumes "\<forall>c \<in> set calls. call_fits c" and "touches_of s = []" and "work_waits q []"
    and "touch_inv d" and "device_ready d" and "unat (next_client_id d) + length (sent_touches ms) < 2 ^ 31"
  shows "\<exists>d' q'. Option.bind (defer_all queue_work (queued_work (serve (wire encode ms) s)) q)
      (run_work (touch_func resize) (Some d)) = Some (Some d', q') \<and>
    work_waits q' [] \<and> fingers d' = fold finger_step (sent_touches ms) (fingers d)"
proof -
  let ?ws = "queued_work (serve (wire encode ms) s)"
  have "touches_of (serve (wire encode ms) s) = sent_touches ms"
    using serve_messages [OF activity_messages_whole [OF assms(2), of mb km], of s] assms(3)
    by (simp add: deliver_touches sent_touches_def ms_def)
  then have t: "concat (map (touch_work \<circ> snd \<circ> snd) ?ws) = sent_touches ms" by (simp only: queued_touches)
  obtain d' where "fold (touch_func resize) ?ws (Some d) = Some d'"
    "fingers d' = fold finger_step (sent_touches ms) (fingers d)"
    using touch_work_done [OF assms(5,6), of ?ws resize, unfolded t] assms(7) by blast
  then show ?thesis using work.deferred_done [OF assms(4), of ?ws "touch_func resize" "Some d"] by auto
qed

lemma no_work: "work_waits \<lparr>wq_heap = Map.empty, workQueue = None, workQueueLast = Head\<rparr> []"
  by (auto simp: work_waits_def waiting_def wq_inv_def wq_list_def items_def intro!: exI [of _ "[]"])

theorem touches_end_to_end_witness:
  "\<exists>d' q'. Option.bind (defer_all queue_work (queued_work (serve (wire encode
        (concat (map (activity_send no_text (\<lambda>k. k)) calls0))) events_server0))
      \<lparr>wq_heap = Map.empty, workQueue = None, workQueueLast = Head\<rparr>)
      (run_work (touch_func (\<lambda>c wh. wh)) (Some touch0)) = Some (Some d', q') \<and> work_waits q' [] \<and> fingers d' = {1}"
proof -
  have sent: "sent_touches (concat (map (activity_send no_text (\<lambda>k. k)) calls0)) =
      [\<lparr>e_type = 18, e_id = 1, e_x = 10, e_y = 20\<rparr>]"
    by (simp add: calls0_def sent_touches_def Let_def)
  have "unat (next_client_id touch0) + 1 < 2 ^ 31" by (simp add: touch0_def)
  moreover have "touches_of events_server0 = []" by (simp add: touches_of_def events_server0_def)
  moreover have "fold finger_step [\<lparr>e_type = 18, e_id = 1, e_x = 10, e_y = 20\<rparr>] {} = {1}"
    by (simp add: finger_step_def XI_TouchBegin_def)
  ultimately show ?thesis
    using touches_end_to_end [of calls0 events_server0 _ touch0 no_text "\<lambda>k. k" "\<lambda>c wh. wh", OF _ _ no_work]
      calls0_fit touch0_facts(1,2,4) sent
    by simp
qed

end
